(* ===== verification/Prelude.thy ===== *)
theory Prelude
  imports Main "HOL-Library.Word" "HOL-Library.Monad_Syntax"
begin

unbundle bit_operations_syntax

section \<open>Prelude\<close>

text \<open>
  What every theory of the development shares: the types of bytes and byte strings,
  the byte classes the C code tests for, the collections of rewrite rules the component
  theories fill, and generic lemmas on lists and options.

  A C buffer \<open>const char *s\<close> with its length \<open>n\<close> is a \<^typ>\<open>8 word list\<close> of that length;
  a NUL-terminated C string is the list of its bytes before the NUL. Sizes and offsets
  (\<open>size_t\<close>) are \<^typ>\<open>nat\<close>; where the code guards against wrap-around the bound is
  written out as \<open>size_max\<close>. An operation whose C loop can fail to return, or which
  would access memory out of bounds, has an option type, and \<open>None\<close> is that outcome.
\<close>

type_synonym byte = "8 word"
type_synonym bytes = "byte list"

definition size_max :: nat where
  "size_max = 2 ^ 64 - 1"

text \<open>The collections: facts about stored contents, about cached sums, and about byte classes.\<close>

named_theorems content_simps \<open>what an operation does to the contents it stores\<close>
named_theorems inv_intros \<open>every operation keeps the component's invariant\<close>

text \<open>The byte of a number below 256.\<close>

definition byte_of :: "nat \<Rightarrow> byte" where
  "byte_of n = word_of_nat n"

lemma unat_byte_less [simp]: "unat b < 256" for b :: byte
proof -
  have "unat b < 2 ^ LENGTH(8)" by (rule unsigned_less)
  then show ?thesis by simp
qed

lemma unat_byte_of [simp]: "n < 256 \<Longrightarrow> unat (byte_of n) = n"
  by (simp add: byte_of_def unat_of_nat)

lemma byte_of_unat [simp]: "byte_of (unat b) = b"
  by (simp add: byte_of_def)

lemma byte_of_eqI: "unat b = n \<Longrightarrow> byte_of n = b"
  by auto

subsection \<open>Byte classes\<close>

definition is_nl :: "byte \<Rightarrow> bool" where
  "is_nl c \<longleftrightarrow> c = 10"

text \<open>The test \<open>(c & 0xc0) == 0x80\<close>: a UTF-8 continuation byte.\<close>

definition is_cont :: "byte \<Rightarrow> bool" where
  "is_cont c \<longleftrightarrow> (c AND 0xC0) = 0x80"

text \<open>\<open>isdigit\<close>, \<open>isspace\<close>, \<open>isalpha\<close> and \<open>isalnum\<close> of a byte, in the C locale and in every UTF-8 one.\<close>

definition is_digit :: "byte \<Rightarrow> bool" where
  "is_digit c \<longleftrightarrow> 48 \<le> c \<and> c \<le> 57"

definition is_space :: "byte \<Rightarrow> bool" where
  "is_space c \<longleftrightarrow> c = 32 \<or> 9 \<le> c \<and> c \<le> 13"

definition is_alpha :: "byte \<Rightarrow> bool" where
  "is_alpha c \<longleftrightarrow> 65 \<le> c \<and> c \<le> 90 \<or> 97 \<le> c \<and> c \<le> 122"

definition is_alnum :: "byte \<Rightarrow> bool" where
  "is_alnum c \<longleftrightarrow> is_alpha c \<or> is_digit c"

text \<open>A statement about all bytes holds when it holds for each of the 256 values.\<close>

lemma byte_all:
  assumes "\<forall>n \<in> set [0..<256]. P (word_of_nat n :: byte)"
  shows "P c"
proof -
  have "unat c \<in> set [0..<256]"
    by simp
  with assms have "P (word_of_nat (unat c))" by (rule bspec)
  then show ?thesis by simp
qed

lemma is_cont_iff: "is_cont c \<longleftrightarrow> 128 \<le> unat c \<and> unat c < 192"
  unfolding is_cont_def by (rule byte_all [of _ c]) code_simp

lemma not_cont_nl [simp]: "\<not> is_cont 10"
  by (simp add: is_cont_iff)

definition count_nl :: "bytes \<Rightarrow> nat" where
  "count_nl s = length (filter is_nl s)"

definition count_chars :: "bytes \<Rightarrow> nat" where
  "count_chars s = length (filter (\<lambda>c. \<not> is_cont c) s)"

lemma count_nl_simps [simp]:
  "count_nl [] = 0"
  "count_nl (c # s) = (if is_nl c then 1 else 0) + count_nl s"
  "count_nl (s @ t) = count_nl s + count_nl t"
  by (simp_all add: count_nl_def)

lemma count_chars_simps [simp]:
  "count_chars [] = 0"
  "count_chars (c # s) = (if is_cont c then 0 else 1) + count_chars s"
  "count_chars (s @ t) = count_chars s + count_chars t"
  by (simp_all add: count_chars_def)

text \<open>\<open>strstr\<close> as a test.\<close>

definition contains :: "bytes \<Rightarrow> bytes \<Rightarrow> bool" where
  "contains s p \<longleftrightarrow> list_ex (\<lambda>i. take (length p) (drop i s) = p) [0..<length s + 1]"

subsection \<open>Slices of a list\<close>

text \<open>\<open>seg at n s\<close>: the \<open>n\<close> bytes from offset \<open>at\<close>, the range \<open>[at, at+n)\<close>.\<close>

definition seg :: "nat \<Rightarrow> nat \<Rightarrow> 'a list \<Rightarrow> 'a list" where
  "seg at n s = take n (drop at s)"

lemma length_seg [simp]: "length (seg at n s) = min n (length s - at)"
  by (simp add: seg_def)

lemma seg_0 [simp]: "seg at 0 s = []"
  by (simp add: seg_def)

lemma seg_whole [simp]: "seg 0 (length s) s = s"
  by (simp add: seg_def)

lemma seg_append_store: "at + n \<le> length s \<Longrightarrow> seg at n (s @ t) = seg at n s"
  by (simp add: seg_def)

lemma seg_append_right: "at = length s \<Longrightarrow> seg at n (s @ t) = take n t"
  by (simp add: seg_def)

lemma seg_extend: "seg at (n + m) s = seg at n s @ seg (at + n) m s"
  by (simp add: seg_def take_add add.commute [of n at])

lemma seg_split: "n \<le> m \<Longrightarrow> seg at m s = seg at n s @ seg (at + n) (m - n) s"
  using seg_extend [of at n "m - n" s] by simp

lemma nth_seg [simp]: "i < n \<Longrightarrow> at + n \<le> length s \<Longrightarrow> seg at n s ! i = s ! (at + i)"
  by (simp add: seg_def)

lemma take_seg [simp]: "take k (seg at n s) = seg at (min k n) s"
  by (simp add: seg_def min.commute)

lemma drop_seg [simp]: "drop k (seg at n s) = seg (at + k) (n - k) s"
  by (simp add: seg_def drop_take add.commute)

lemma take_drop_split3:
  assumes "at + n \<le> length s"
  shows "s = take at s @ seg at n s @ drop (at + n) s"
  by (metis append_take_drop_id drop_drop add.commute seg_def)

end
