(* ===== verification/Utf8.thy ===== *)
theory Utf8
  imports Prelude
begin

unbundle bit_operations_syntax

section \<open>UTF-8 decoding and validation (\<open>src/text.c\<close>: utf8\_decode, utf8\_valid)\<close>

text \<open>
  \<open>utf8_decode\<close> and \<open>utf8_valid\<close> are translated with the C code's 32-bit arithmetic.
  The specification is an encoder of Unicode scalar values: the central fact,
  \<open>utf8_valid_iff\<close>, says that \<open>utf8_valid\<close> accepts exactly the concatenations of
  encoded non-zero scalar values. From it follow the closure properties the editor
  relies on: valid text can be cut at character boundaries and joined.
\<close>

subsection \<open>The code\<close>

text \<open>The inner loop over \<open>p[1..k-1]\<close>: \<open>None\<close> is its early \<open>return 0xfffd\<close>.\<close>

fun decode_tail :: "32 word \<Rightarrow> bytes \<Rightarrow> 32 word option" where
  "decode_tail c [] = Some c"
| "decode_tail c (b # bs) =
     (if is_cont b then decode_tail (push_bit 6 c OR (ucast b AND 63)) bs else None)"

definition utf8_decode :: "bytes \<Rightarrow> 32 word \<times> nat" where
  "utf8_decode p = (case p of [] \<Rightarrow> (0, 1)
   | b # _ \<Rightarrow>
     (let c = ucast b :: 32 word in
      if c < 0x80 then (c, 1)
      else
        let (k, c) = (if 0xc2 \<le> c \<and> c \<le> 0xdf then (2, c AND 31)
                 else if 0xe0 \<le> c \<and> c \<le> 0xef then (3, c AND 15)
                 else if 0xf0 \<le> c \<and> c \<le> 0xf4 then (4, c AND 7)
                 else (0::nat, c)) in
        if k = 0 then (0xfffd, 1)
        else if length p < k then (0xfffd, 1)
        else case decode_tail c (take (k - 1) (tl p)) of
            None \<Rightarrow> (0xfffd, 1)
          | Some c \<Rightarrow>
              if k = 3 \<and> c < 0x800 \<or> k = 4 \<and> c < 0x10000 \<or> 0x10ffff < c
                 \<or> 0xd800 \<le> c \<and> c \<le> 0xdfff
              then (0xfffd, 1) else (c, k)))"

lemma utf8_decode_used: "1 \<le> snd (utf8_decode p)"
  by (auto simp: utf8_decode_def Let_def split: list.split option.split)

lemma utf8_decode_used_le: "p \<noteq> [] \<Longrightarrow> snd (utf8_decode p) \<le> length p"
  by (auto simp: utf8_decode_def Let_def Suc_le_eq split: list.split option.split)

function utf8_valid :: "bytes \<Rightarrow> bool" where
  "utf8_valid s = (case s of [] \<Rightarrow> True
   | b # _ \<Rightarrow> (let (c, k) = utf8_decode s in
       if 128 \<le> b \<and> k = 1 then False
       else if c = 0 then False
       else utf8_valid (drop k s)))"
  by pat_completeness auto
termination
proof (relation "measure length")
  fix s :: bytes and b bs x c k
  assume "s = b # bs" "x = utf8_decode s" "(c, k) = x"
  then have "1 \<le> k"
    by (metis snd_conv utf8_decode_used)
  with \<open>s = b # bs\<close> show "(drop k s, s) \<in> measure length"
    by simp
qed simp

declare utf8_valid.simps [simp del]

lemma utf8_valid_Nil [simp]: "utf8_valid []"
  by (simp add: utf8_valid.simps)

subsection \<open>The specification: encoded scalar values\<close>

text \<open>A Unicode scalar value: at most \<open>0x10ffff\<close> and no surrogate.\<close>

definition scalar :: "nat \<Rightarrow> bool" where
  "scalar c \<longleftrightarrow> c \<le> 0x10ffff \<and> \<not> (0xd800 \<le> c \<and> c \<le> 0xdfff)"

definition utf8_encode :: "nat \<Rightarrow> bytes" where
  "utf8_encode c = map byte_of
    (if c < 0x80 then [c]
     else if c < 0x800 then [0xc0 + c div 64, 0x80 + c mod 64]
     else if c < 0x10000 then [0xe0 + c div 4096, 0x80 + c div 64 mod 64, 0x80 + c mod 64]
     else [0xf0 + c div 262144, 0x80 + c div 4096 mod 64, 0x80 + c div 64 mod 64,
           0x80 + c mod 64])"

definition text_scalar :: "nat \<Rightarrow> bool" where
  "text_scalar c \<longleftrightarrow> scalar c \<and> c \<noteq> 0"

subsection \<open>The 32-bit arithmetic of the decoder\<close>

lemma unat_and_mask: "unat (w AND mask n) = unat w mod 2 ^ n" for w :: "'a::len word"
proof -
  have "unat (take_bit n w) = unat w mod 2 ^ n"
    by (simp only: unsigned_take_bit_eq) (simp add: take_bit_eq_mod)
  then show ?thesis by (simp add: take_bit_eq_mask)
qed

lemma unat_low_bits:
  "unat (w AND 31) = unat w mod 32" "unat (w AND 15) = unat w mod 16"
  "unat (w AND 7) = unat w mod 8" "unat (w AND 63) = unat w mod 64" for w :: "32 word"
  using unat_and_mask [of w 5] unat_and_mask [of w 4] unat_and_mask [of w 3] unat_and_mask [of w 6]
  by (simp_all add: mask_eq_exp_minus_1)

lemma unat_ucast_byte [simp]: "unat (ucast b :: 32 word) = unat b" for b :: byte
proof -
  have "unat b < 256" by simp
  then have "unat b mod 2 ^ LENGTH(32) = unat b" by (simp del: unat_byte_less)
  then show ?thesis by (simp only: unsigned_ucast_eq take_bit_eq_mod)
qed

lemma or_shift6:
  fixes c x :: "32 word"
  assumes "unat c < 2 ^ 26"
  shows "unat (push_bit 6 c OR (x AND 63)) = 64 * unat c + unat x mod 64"
proof -
  have disj: "push_bit 6 c AND (x AND mask 6) = 0"
    by (rule bit_eqI) (auto simp: bit_simps)
  have "push_bit 6 c OR (x AND mask 6) = push_bit 6 c + (x AND mask 6)"
    using disj by (simp only: disjunctive_add_eq_or)
  moreover have "unat (push_bit 6 c) = 64 * unat c"
    by (simp only: unsigned_push_bit_eq) (use assms in \<open>simp add: push_bit_eq_mult take_bit_eq_mod\<close>)
  moreover have "unat (x AND mask 6) = unat x mod 64"
    by (simp add: unat_and_mask)
  moreover have "64 * unat c + unat x mod 64 < 2 ^ 32"
    using assms mod_less_divisor [of 64 "unat x"] by simp 
  ultimately show ?thesis
    by (simp add: unat_word_ariths mask_eq_exp_minus_1)
qed

subsection \<open>Decoding by unsigned values\<close>

lemma decode1: "unat b < 128 \<Longrightarrow> utf8_decode (b # s) = (ucast b, 1)"
  by (simp add: utf8_decode_def Let_def word_less_nat_alt)

lemma decode_tail_value:
  assumes "(unat c + 1) * 64 ^ length bs \<le> 2 ^ 32"
  shows "map_option unat (decode_tail c bs) =
    (if \<forall>b \<in> set bs. is_cont b then Some (foldl (\<lambda>n b. 64 * n + (unat b - 128)) (unat c) bs)
     else None)"
  using assms
proof (induction bs arbitrary: c)
  case (Cons b bs)
  have "(unat c + 1) * 64 \<le> (unat c + 1) * 64 ^ length (b # bs)"
    using one_le_power [of "64::nat" "length bs"] by (intro mult_le_mono) auto
  then have "(unat c + 1) * 64 \<le> 2 ^ 32"
    using Cons.prems by (rule order_trans)
  then have c: "unat c < 2 ^ 26" by simp
  let ?c = "push_bit 6 c OR (ucast b AND 63)"
  have u: "unat ?c = 64 * unat c + unat b mod 64"
    using or_shift6 [OF c, of "ucast b"] by simp
  have "(unat ?c + 1) * 64 ^ length bs \<le> (64 * (unat c + 1)) * 64 ^ length bs"
    unfolding u using mod_less_divisor [of 64 "unat b"] by (intro mult_le_mono1) simp
  also have "\<dots> = (unat c + 1) * 64 ^ length (b # bs)"
    by (simp add: algebra_simps)
  also have "\<dots> \<le> 2 ^ 32" by (rule Cons.prems)
  finally have IH: "map_option unat (decode_tail ?c bs) =
    (if \<forall>b \<in> set bs. is_cont b then Some (foldl (\<lambda>n b. 64 * n + (unat b - 128)) (unat ?c) bs)
     else None)"
    by (rule Cons.IH)
  have m: "unat b mod 64 = unat b - 128" if "is_cont b"
    using that unfolding is_cont_iff by (intro mod_nat_eqI) auto
  show ?case
    using IH m by (cases "\<forall>b \<in> set bs. is_cont b") (auto simp: u)
qed simp

text \<open>The decoder on natural numbers.\<close>

definition cont_value :: "nat \<Rightarrow> bytes \<Rightarrow> nat" where
  "cont_value c bs = foldl (\<lambda>n b. 64 * n + (unat b - 128)) c bs"

definition lead_value :: "nat \<Rightarrow> nat \<times> nat" where
  "lead_value b = (if 194 \<le> b \<and> b \<le> 223 then (2, b - 192)
     else if 224 \<le> b \<and> b \<le> 239 then (3, b - 224)
     else if 240 \<le> b \<and> b \<le> 244 then (4, b - 240) else (0, b))"

lemma lead_mods:
  "192 \<le> n \<Longrightarrow> n \<le> 223 \<Longrightarrow> n mod 32 = n - 192"
  "224 \<le> n \<Longrightarrow> n \<le> 239 \<Longrightarrow> n mod 16 = n - 224"
  "240 \<le> n \<Longrightarrow> n \<le> 247 \<Longrightarrow> n mod 8 = n - 240" for n :: nat
  by (rule mod_nat_eqI; simp)+

lemma utf8_decode_value:
  assumes "128 \<le> unat b" and lead: "lead_value (unat b) = (k, c0)"
  shows "utf8_decode (b # s) =
    (if k \<noteq> 0 \<and> k \<le> Suc (length s) \<and> (\<forall>x \<in> set (take (k - 1) s). is_cont x) \<and>
        (let c = cont_value c0 (take (k - 1) s) in
         \<not> (k = 3 \<and> c < 0x800 \<or> k = 4 \<and> c < 0x10000 \<or> 0x10ffff < c \<or> 0xd800 \<le> c \<and> c \<le> 0xdfff))
     then (word_of_nat (cont_value c0 (take (k - 1) s)), k) else (0xfffd, 1))"
proof -
  let ?c = "ucast b :: 32 word"
  let ?w = "if k = 2 then ?c AND 31 else if k = 3 then ?c AND 15 else if k = 4 then ?c AND 7 else ?c"
  have w: "unat ?w = c0" and k: "k \<in> {0, 2, 3, 4}" and c0: "k \<noteq> 0 \<Longrightarrow> c0 < 32"
    using lead lead_mods [of "unat b"] unfolding lead_value_def
    by (auto simp: unat_low_bits split: if_splits)
  have d: "utf8_decode (b # s) = 
     (if k = 0 then (0xfffd, 1) else if Suc (length s) < k then (0xfffd, 1)
        else case decode_tail ?w (take (k - 1) s) of
            None \<Rightarrow> (0xfffd, 1)
          | Some c \<Rightarrow>
              if k = 3 \<and> c < 0x800 \<or> k = 4 \<and> c < 0x10000 \<or> 0x10ffff < c
                 \<or> 0xd800 \<le> c \<and> c \<le> 0xdfff
              then (0xfffd, 1) else (c, k))"
  proof -
    have r: "(?c < 0x80) = False"
      "(0xc2 \<le> ?c \<and> ?c \<le> 0xdf) = (194 \<le> unat b \<and> unat b \<le> 223)"
      "(0xe0 \<le> ?c \<and> ?c \<le> 0xef) = (224 \<le> unat b \<and> unat b \<le> 239)"
      "(0xf0 \<le> ?c \<and> ?c \<le> 0xf4) = (240 \<le> unat b \<and> unat b \<le> 244)"
      using assms(1) by (simp_all add: word_less_nat_alt word_le_nat_alt)
    have l: "(if 194 \<le> unat b \<and> unat b \<le> 223 then (2, ?c AND 31)
        else if 224 \<le> unat b \<and> unat b \<le> 239 then (3, ?c AND 15)
        else if 240 \<le> unat b \<and> unat b \<le> 244 then (4, ?c AND 7) else (0, ?c)) = (k, ?w)"
      using lead by (simp only: lead_value_def prod.inject split: if_splits) auto
    show ?thesis
      unfolding utf8_decode_def Let_def list.case r if_False l prod.case by simp
  qed
  show ?thesis
  proof (cases "k = 0")
    case False
    have "length (take (k - 1) s) \<le> 3" using k by auto
    then have "64 ^ length (take (k - 1) s) \<le> (64::nat) ^ 3"
      by (intro power_increasing) auto
    then have "(unat ?w + 1) * 64 ^ length (take (k - 1) s) \<le> 32 * 64 ^ 3"
      unfolding w using c0 [OF False] by (intro mult_le_mono) auto
    then have "(unat ?w + 1) * 64 ^ length (take (k - 1) s) \<le> 2 ^ 32"
      by simp
    note dt = decode_tail_value [OF this, unfolded w, folded cont_value_def]
    show ?thesis
    proof (cases "decode_tail ?w (take (k - 1) s)")
      case None
      with dt False show ?thesis by (auto simp: d split: if_splits)
    next
      case (Some a)
      with dt have "\<forall>x \<in> set (take (k - 1) s). is_cont x"
        and v: "cont_value c0 (take (k - 1) s) = unat a"
        by (auto split: if_splits)
      with Some False show ?thesis
        unfolding d v by (auto simp: Let_def word_less_nat_alt word_le_nat_alt not_less)
    qed
  qed (simp add: d)
qed


subsection \<open>Decoding inverts encoding\<close>

lemma encode_arith:
  "64 * (c div 64) + c mod 64 = c"
  "64 * (64 * (c div 4096) + c div 64 mod 64) + c mod 64 = c"
  "64 * (64 * (64 * (c div 262144) + c div 4096 mod 64) + c div 64 mod 64) + c mod 64 = c" for c :: nat
proof -
  have a: "64 * (n div 64) + n mod 64 = n" for n :: nat by simp
  have d: "c div 4096 = c div 64 div 64" "c div 262144 = c div 64 div 64 div 64"
    by (simp_all add: div_mult2_eq [symmetric])
  show "64 * (c div 64) + c mod 64 = c"
    and "64 * (64 * (c div 4096) + c div 64 mod 64) + c mod 64 = c"
    and "64 * (64 * (64 * (c div 262144) + c div 4096 mod 64) + c div 64 mod 64) + c mod 64 = c"
    unfolding d by (simp_all only: a)
qed

lemma length_encode:
  "length (utf8_encode c) = (if c < 0x80 then 1 else if c < 0x800 then 2 else if c < 0x10000 then 3 else 4)"
  by (simp add: utf8_encode_def)

theorem decode_encode:
  assumes "scalar c"
  shows "utf8_decode (utf8_encode c @ rest) = (word_of_nat c, length (utf8_encode c))"
proof -
  have c: "c \<le> 0x10ffff" and ns: "\<not> (0xd800 \<le> c \<and> c \<le> 0xdfff)"
    using assms by (auto simp: scalar_def)
  have m: "x mod 64 < 128" "128 + x mod 64 < 192" for x :: nat
    using mod_less_divisor [of 64 x] by simp_all
  consider "c < 0x80" | "0x80 \<le> c" "c < 0x800" | "0x800 \<le> c" "c < 0x10000" | "0x10000 \<le> c"
    by linarith
  then show ?thesis
  proof cases
    case 1
    then have "ucast (byte_of c) = (word_of_nat c :: 32 word)"
      by (intro word_unat_eq_iff [THEN iffD2]) (simp add: unat_of_nat)
    with 1 show ?thesis by (simp add: utf8_encode_def decode1)
  next
    case 2
    then have "2 \<le> c div 64" "c div 64 < 32" by auto
    then have "lead_value (unat (byte_of (192 + c div 64))) = (2, c div 64)"
      by (simp add: lead_value_def)
    with 2 m encode_arith(1) [of c] show ?thesis
      by (simp add: utf8_encode_def utf8_decode_value is_cont_iff cont_value_def)
  next
    case 3
    then have "c div 4096 < 16" by auto
    then have "lead_value (unat (byte_of (224 + c div 4096))) = (3, c div 4096)"
      by (simp add: lead_value_def)
    with 3 m encode_arith(2) [of c] ns show ?thesis
      by (simp add: utf8_encode_def utf8_decode_value is_cont_iff cont_value_def)
  next
    case 4
    then have "c div 262144 \<le> 4" using c by auto
    then have "lead_value (unat (byte_of (240 + c div 262144))) = (4, c div 262144)"
      by (simp add: lead_value_def)
    with 4 m encode_arith(3) [of c] ns c show ?thesis
      by (simp add: utf8_encode_def utf8_decode_value is_cont_iff cont_value_def)
  qed
qed


subsection \<open>A decoded sequence is an encoding\<close>

lemma cont_bytes_offset:
  "is_cont b \<Longrightarrow> byte_of (128 + (unat b - 128)) = b"
  by (simp add: is_cont_iff)

lemma split_arith:
  assumes "q < 64" "r < 64" "t < (64::nat)"
  shows "(64 * p + q) div 64 = p" "(64 * p + q) mod 64 = q"
    "(4096 * p + 64 * q + r) div 4096 = p" "(4096 * p + 64 * q + r) div 64 mod 64 = q"
    "(4096 * p + 64 * q + r) mod 64 = r"
    "(262144 * p + 4096 * q + 64 * r + t) div 262144 = p"
    "(262144 * p + 4096 * q + 64 * r + t) div 4096 mod 64 = q"
    "(262144 * p + 4096 * q + 64 * r + t) div 64 mod 64 = r"
    "(262144 * p + 4096 * q + 64 * r + t) mod 64 = t"
proof -
  have d: "n div 4096 = n div 64 div 64" "n div 262144 = n div 64 div 64 div 64" for n :: nat
    by (simp_all add: div_mult2_eq [symmetric])
  have a: "(64 * p + q) div 64 = p" "(64 * p + q) mod 64 = q" if "q < 64" for p q :: nat
    using that by simp_all
  have n: "4096 * p + 64 * q + r = 64 * (64 * p + q) + r"
    "262144 * p + 4096 * q + 64 * r + t = 64 * (64 * (64 * p + q) + r) + t"
    by simp_all
  note a = a [OF assms(1)] a [OF assms(2)] a [OF assms(3)]
  show "(64 * p + q) div 64 = p" "(64 * p + q) mod 64 = q"
    "(4096 * p + 64 * q + r) div 4096 = p" "(4096 * p + 64 * q + r) div 64 mod 64 = q"
    "(4096 * p + 64 * q + r) mod 64 = r"
    "(262144 * p + 4096 * q + 64 * r + t) div 262144 = p"
    "(262144 * p + 4096 * q + 64 * r + t) div 4096 mod 64 = q"
    "(262144 * p + 4096 * q + 64 * r + t) div 64 mod 64 = r"
    "(262144 * p + 4096 * q + 64 * r + t) mod 64 = t"
    unfolding d n a by (rule refl)+
qed

text \<open>A continuation byte and a lead byte as an offset and a payload.\<close>

lemma cont_payload: "is_cont x \<Longrightarrow> \<exists>q < 64. unat x = 128 + q"
  by (rule exI [of _ "unat x - 128"]) (auto simp: is_cont_iff)

lemma list_of_length:
  "length bs = 1 \<Longrightarrow> \<exists>x. bs = [x]"
  "length bs = 2 \<Longrightarrow> \<exists>x y. bs = [x, y]"
  "length bs = 3 \<Longrightarrow> \<exists>x y z. bs = [x, y, z]"
  by (auto simp: length_Suc_conv numeral_eq_Suc)

lemma encoded2:
  assumes "lead_value (unat b) = (2, c0)" "128 \<le> unat b" "is_cont x" "n = cont_value c0 [x]"
  shows "[b, x] = utf8_encode n"
proof -
  obtain p where p: "unat b = 192 + p" "c0 = p" "p < 32"
    using assms(1,2) unat_byte_less [of b] by (intro that [of "unat b - 192"]) (auto simp: lead_value_def split: if_splits)
  obtain q where q: "q < 64" "unat x = 128 + q" using cont_payload [OF assms(3)] by auto
  have "n = 64 * p + q" using assms(4) p q by (simp add: cont_value_def)
  with p q assms(1) show ?thesis
    by (auto simp: utf8_encode_def split_arith lead_value_def intro!: byte_of_eqI [symmetric] split: if_splits)
qed

lemma encoded3:
  assumes "lead_value (unat b) = (3, c0)" "128 \<le> unat b" "is_cont x" "is_cont y" "n = cont_value c0 [x, y]" "0x800 \<le> n"
  shows "[b, x, y] = utf8_encode n"
proof -
  obtain p where p: "unat b = 224 + p" "c0 = p" "p < 16"
    using assms(1,2) unat_byte_less [of b] by (intro that [of "unat b - 224"]) (auto simp: lead_value_def split: if_splits)
  obtain q r where q: "q < 64" "unat x = 128 + q" "r < 64" "unat y = 128 + r"
    using cont_payload [OF assms(3)] cont_payload [OF assms(4)] by auto
  have "n = 4096 * p + 64 * q + r" using assms(5) p q by (simp add: cont_value_def)
  with p q assms(6) show ?thesis by (auto simp: utf8_encode_def split_arith intro!: byte_of_eqI [symmetric])
qed

lemma encoded4:
  assumes "lead_value (unat b) = (4, c0)" "128 \<le> unat b" "is_cont x" "is_cont y" "is_cont z"
    and "n = cont_value c0 [x, y, z]" "0x10000 \<le> n"
  shows "[b, x, y, z] = utf8_encode n"
proof -
  obtain p where p: "unat b = 240 + p" "c0 = p" "p < 8"
    using assms(1,2) unat_byte_less [of b] by (intro that [of "unat b - 240"]) (auto simp: lead_value_def split: if_splits)
  obtain q r t where q: "q < 64" "unat x = 128 + q" "r < 64" "unat y = 128 + r" "t < 64" "unat z = 128 + t"
    using cont_payload [OF assms(3)] cont_payload [OF assms(4)] cont_payload [OF assms(5)] by auto
  have "n = 262144 * p + 4096 * q + 64 * r + t" using assms(6) p q by (simp add: cont_value_def)
  with p q assms(7) show ?thesis by (auto simp: utf8_encode_def split_arith intro!: byte_of_eqI [symmetric])
qed

theorem decode_complete:
  assumes "utf8_decode (b # s) = (c, k)" "k \<noteq> 1 \<or> b < 128"
  shows "scalar (unat c) \<and> take k (b # s) = utf8_encode (unat c)"
proof (cases "unat b < 128")
  case True
  with assms(1) show ?thesis by (auto simp: decode1 scalar_def utf8_encode_def)
next
  case False
  then have b: "128 \<le> unat b" by simp
  obtain k' c0 where lead: "lead_value (unat b) = (k', c0)" by fastforce
  have "k \<noteq> 1" using assms(2) False by (simp add: word_less_nat_alt)
  let ?t = "take (k' - 1) s"
  note dv = assms(1) [unfolded utf8_decode_value [OF b lead] Let_def]
  have k: "k' = k" "k \<noteq> 0" "k \<le> Suc (length s)" and cont: "\<forall>x \<in> set ?t. is_cont x"
    and cv: "c = word_of_nat (cont_value c0 ?t)"
    and ok: "\<not> (k = 3 \<and> cont_value c0 ?t < 0x800 \<or> k = 4 \<and> cont_value c0 ?t < 0x10000 \<or>
      0x10ffff < cont_value c0 ?t \<or> 0xd800 \<le> cont_value c0 ?t \<and> cont_value c0 ?t \<le> 0xdfff)"
    using dv \<open>k \<noteq> 1\<close> by (auto split: if_splits)
  have u: "unat c = cont_value c0 ?t" using ok by (simp add: cv unat_of_nat)
  have "k \<in> {2, 3, 4}" using lead k by (auto simp: lead_value_def split: if_splits)
  moreover have "length ?t = k - 1" using k by auto
  ultimately consider x where "k = 2" "?t = [x]" | x y where "k = 3" "?t = [x, y]" | x y z where "k = 4" "?t = [x, y, z]"
    using list_of_length [of ?t] by force
  then have "b # ?t = utf8_encode (unat c)"
    using lead [unfolded k(1)] b cont u ok by cases (simp_all add: encoded2 encoded3 encoded4)
  moreover have "take k (b # s) = b # ?t" using k by (cases k) auto
  moreover have "scalar (unat c)" using ok by (auto simp: u scalar_def)
  ultimately show ?thesis by simp
qed

subsection \<open>Valid text is a sequence of encoded scalar values\<close>

lemma encode_shape:
  assumes "scalar c"
  obtains b bs where "utf8_encode c = b # bs" "\<not> is_cont b" "\<forall>x \<in> set bs. is_cont x"
proof -
  have "c \<le> 0x10ffff" using assms by (simp add: scalar_def)
  moreover have "c div 262144 \<le> 4" using \<open>c \<le> 0x10ffff\<close> by simp
  moreover have "c < 0x800 \<Longrightarrow> c div 64 < 32" "c < 0x10000 \<Longrightarrow> c div 4096 < 16" by auto
  moreover have m: "128 + x mod 64 < 192" for x :: nat
    using mod_less_divisor [of 64 x] by simp
  ultimately have "\<not> is_cont (hd (utf8_encode c)) \<and> (\<forall>x \<in> set (tl (utf8_encode c)). is_cont x)"
    by (auto simp: utf8_encode_def is_cont_iff intro: less_trans [OF m])
  moreover have "utf8_encode c \<noteq> []" by (simp add: utf8_encode_def)
  ultimately show ?thesis
    using that by (cases "utf8_encode c") auto
qed

lemma decode_valid_step:
  assumes "text_scalar c"
  shows "utf8_valid (utf8_encode c @ s) = utf8_valid s"
proof -
  have sc: "scalar c" "c \<noteq> 0" using assms by (auto simp: text_scalar_def)
  obtain b bs where e: "utf8_encode c = b # bs" using encode_shape [OF sc(1)] by blast
  have w: "(word_of_nat c :: 32 word) \<noteq> 0"
    using sc by (auto simp: word_unat_eq_iff unat_of_nat scalar_def)
  have "\<not> (128 \<le> b \<and> length (utf8_encode c) = 1)"
  proof
    assume "128 \<le> b \<and> length (utf8_encode c) = 1"
    then have "c < 128" "b = byte_of c" using e by (auto simp: length_encode utf8_encode_def split: if_splits)
    with \<open>128 \<le> b \<and> _\<close> show False by (simp add: word_le_nat_alt)
  qed
  then show ?thesis
    using w decode_encode [OF sc(1), of s] by (subst utf8_valid.simps) (auto simp: e Let_def)
qed

theorem utf8_valid_iff:
  "utf8_valid s \<longleftrightarrow> (\<exists>cs. (\<forall>c \<in> set cs. text_scalar c) \<and> s = concat (map utf8_encode cs))"
proof
  show "\<exists>cs. (\<forall>c \<in> set cs. text_scalar c) \<and> s = concat (map utf8_encode cs)" if "utf8_valid s"
    using that
  proof (induction s rule: utf8_valid.induct)
    case (1 s)
    show ?case
    proof (cases s)
      case Nil
      then show ?thesis by (intro exI [of _ "[]"]) simp
    next
      case (Cons b bs)
      obtain c k where d: "utf8_decode s = (c, k)" by fastforce
      have v: "\<not> (128 \<le> b \<and> k = 1)" "c \<noteq> 0" "utf8_valid (drop k s)"
        using "1.prems" d Cons by (subst (asm) utf8_valid.simps; simp split: if_splits)+
      then obtain cs where cs: "\<forall>c \<in> set cs. text_scalar c" "drop k s = concat (map utf8_encode cs)"
        using "1.IH" [OF Cons d [symmetric] refl] by blast
      have "scalar (unat c) \<and> take k s = utf8_encode (unat c)"
        using decode_complete [of b bs c k] v(1) d Cons by (auto simp: not_le)
      moreover have "unat c \<noteq> 0" using v(2) by (simp add: unat_eq_0)
      ultimately have "s = concat (map utf8_encode (unat c # cs))" "text_scalar (unat c)"
        using cs append_take_drop_id [of k s] by (simp_all add: text_scalar_def)
      with cs(1) show ?thesis by (metis set_ConsD)
    qed
  qed
next
  assume "\<exists>cs. (\<forall>c \<in> set cs. text_scalar c) \<and> s = concat (map utf8_encode cs)"
  then obtain cs where "\<forall>c \<in> set cs. text_scalar c" "s = concat (map utf8_encode cs)" by blast
  then show "utf8_valid s"
    by (induction cs arbitrary: s) (auto simp: decode_valid_step)
qed

lemma utf8_valid_induct [consumes 1, case_names Nil Char]:
  assumes "utf8_valid s" "P []"
    and "\<And>c s. text_scalar c \<Longrightarrow> utf8_valid s \<Longrightarrow> P s \<Longrightarrow> P (utf8_encode c @ s)"
  shows "P s"
proof -
  obtain cs where "\<forall>c \<in> set cs. text_scalar c" "s = concat (map utf8_encode cs)"
    using assms(1) utf8_valid_iff by blast
  then show ?thesis
  proof (induction cs arbitrary: s)
    case (Cons c cs)
    then have "utf8_valid (concat (map utf8_encode cs))" by (auto simp: utf8_valid_iff)
    with Cons show ?case by (auto intro!: assms(3))
  qed (use assms(2) in simp)
qed

lemma utf8_valid_append: "utf8_valid s \<Longrightarrow> utf8_valid t \<Longrightarrow> utf8_valid (s @ t)"
  by (induction rule: utf8_valid_induct) (simp_all add: decode_valid_step)

subsection \<open>Character boundaries\<close>

definition boundary :: "bytes \<Rightarrow> nat \<Rightarrow> bool" where
  "boundary s at \<longleftrightarrow> at \<le> length s \<and> (at = length s \<or> \<not> is_cont (s ! at))"

lemma boundary_le: "boundary s at \<Longrightarrow> at \<le> length s"
  by (simp add: boundary_def)

lemma boundary_length [simp]: "boundary s (length s)"
  by (simp add: boundary_def)

lemma boundary_drop: "boundary s at \<Longrightarrow> drop at s \<noteq> [] \<Longrightarrow> \<not> is_cont (hd (drop at s))"
  by (auto simp: boundary_def hd_drop_conv_nth)

lemma valid_hd: "utf8_valid s \<Longrightarrow> s \<noteq> [] \<Longrightarrow> \<not> is_cont (hd s)"
  by (induction rule: utf8_valid_induct)
    (auto simp: text_scalar_def elim: encode_shape)

lemma boundary_0 [simp]: "utf8_valid s \<Longrightarrow> boundary s 0"
  using valid_hd [of s] by (cases s) (auto simp: boundary_def)

lemma valid_cut:
  "utf8_valid s \<Longrightarrow> boundary s at \<Longrightarrow> utf8_valid (take at s) \<and> utf8_valid (drop at s)"
proof (induction arbitrary: at rule: utf8_valid_induct)
  case (Char c s)
  obtain b bs where e: "utf8_encode c = b # bs" "\<not> is_cont b" "\<forall>x \<in> set bs. is_cont x"
    using Char.hyps(1) encode_shape by (auto simp: text_scalar_def)
  consider "at = 0" | "0 < at" "at < length (utf8_encode c)" | "length (utf8_encode c) \<le> at"
    by linarith
  then show ?case
  proof cases
    case 1
    with Char.hyps show ?thesis by (simp add: decode_valid_step)
  next
    case 2
    then have "is_cont ((utf8_encode c @ s) ! at)"
      using e by (simp add: nth_append nth_Cons' )
    with 2 Char.prems show ?thesis by (auto simp: boundary_def)
  next
    case 3
    with Char.prems have "boundary s (at - length (utf8_encode c))"
      by (auto simp: boundary_def nth_append)
    then have "utf8_valid (take (at - length (utf8_encode c)) s) \<and>
      utf8_valid (drop (at - length (utf8_encode c)) s)"
      by (rule Char.IH)
    with 3 Char.hyps(1) show ?thesis by (simp add: decode_valid_step)
  qed
qed simp

lemmas valid_take = valid_cut [THEN conjunct1]
  and valid_drop = valid_cut [THEN conjunct2]

lemma boundary_take:
  "boundary s at \<Longrightarrow> at \<le> z \<Longrightarrow> z \<le> length s \<Longrightarrow> boundary (take z s) at"
  by (auto simp: boundary_def)

lemma valid_seg:
  assumes "utf8_valid s" "boundary s at" "boundary s (at + n)"
  shows "utf8_valid (seg at n s)"
proof -
  have "utf8_valid (take (at + n) s)" using assms(1,3) by (rule valid_take)
  then have "utf8_valid (drop at (take (at + n) s))"
    using boundary_take [OF assms(2), of "at + n"] assms(3)
    by (intro valid_drop) (auto simp: boundary_def)
  then show ?thesis by (simp add: seg_def drop_take)
qed

text \<open>The offset between two joined texts is a boundary when the second starts a character.\<close>

lemma boundary_append: "utf8_valid t \<Longrightarrow> boundary (s @ t) (length s)"
  using valid_hd [of t] by (cases t) (auto simp: boundary_def)

lemma boundary_prefix:
  assumes "boundary s at" "at < length s" shows "boundary (s @ t) at"
  using assms by (auto simp: boundary_def nth_append)

lemma boundary_suffix: "boundary (s @ t) (length s + at) = boundary t at"
  by (auto simp: boundary_def nth_append)

text \<open>Valid text holds no NUL, so its C string is the whole text.\<close>

lemma encode_no_nul: "text_scalar c \<Longrightarrow> 0 \<notin> set (utf8_encode c)"
proof -
  assume t: "text_scalar c"
  have "unat x \<noteq> 0" if "x \<in> set (utf8_encode c)" for x
  proof -
    have "c div 262144 \<le> 4" "c < 0x800 \<Longrightarrow> c div 64 < 32" "c < 0x10000 \<Longrightarrow> c div 4096 < 16" "c \<noteq> 0"
      using t by (auto simp: text_scalar_def scalar_def)
    moreover have "128 + x mod 64 < 256" for x :: nat
      using mod_less_divisor [of 64 x] by simp
    ultimately show ?thesis using that by (auto simp: utf8_encode_def split: if_splits)
  qed
  then show "0 \<notin> set (utf8_encode c)" by fastforce
qed

lemma valid_no_nul: "utf8_valid s \<Longrightarrow> 0 \<notin> set s"
  by (induction rule: utf8_valid_induct) (auto simp: encode_no_nul)

text \<open>A byte below 128 is a character of its own.\<close>

lemma encode_ascii:
  assumes "text_scalar c" "x \<in> set (utf8_encode c)" "unat x < 128"
  shows "utf8_encode c = [x]"
proof -
  have "128 \<le> unat y" if "y \<in> set (utf8_encode c)" "128 \<le> c" for y
  proof -
    have "c div 262144 \<le> 4" "c < 0x800 \<Longrightarrow> c div 64 < 32" "c < 0x10000 \<Longrightarrow> c div 4096 < 16"
      using assms(1) by (auto simp: text_scalar_def scalar_def)
    moreover have "128 + z mod 64 < 256" for z :: nat
      using mod_less_divisor [of 64 z] by simp
    ultimately show ?thesis using that by (auto simp: utf8_encode_def split: if_splits)
  qed
  from this [OF assms(2)] have "c < 128" using assms(3) by fastforce
  then show ?thesis using assms(2) by (simp add: utf8_encode_def)
qed

lemma ascii_boundary:
  assumes "utf8_valid s" "i < length s" "unat (s ! i) < 128"
  shows "boundary s i" "boundary s (Suc i)"
proof -
  show b: "boundary s i" using assms(2,3) by (simp add: boundary_def is_cont_iff)
  have "utf8_valid (drop i s)" using assms(1) b by (rule valid_drop)
  then obtain cs where cs: "\<forall>c \<in> set cs. text_scalar c" "drop i s = concat (map utf8_encode cs)"
    using utf8_valid_iff by blast
  show "boundary s (Suc i)"
  proof (cases cs)
    case Nil
    with cs(2) assms(2) show ?thesis by simp
  next
    case (Cons c cs')
    have t: "text_scalar c" using cs(1) Cons by simp
    then obtain b bs where e: "utf8_encode c = b # bs"
      by (cases "utf8_encode c") (simp_all add: utf8_encode_def split: if_splits)
    have d: "drop i s = (s ! i) # drop (Suc i) s" using assms(2) by (simp add: Cons_nth_drop_Suc)
    with cs(2) Cons e have "b = s ! i" by simp
    with encode_ascii [OF t, of b] e assms(3) have "utf8_encode c = [s ! i]" by simp
    with cs(2) Cons d have "drop (Suc i) s = concat (map utf8_encode cs')" by simp
    moreover have "\<forall>c \<in> set cs'. text_scalar c" using cs(1) Cons by simp
    ultimately have "utf8_valid (drop (Suc i) s)" using utf8_valid_iff by auto
    with assms(2) boundary_append [of "drop (Suc i) s" "take (Suc i) s"] show ?thesis
      by (simp add: min_absorb2 Suc_leI)
  qed
qed

subsection \<open>Properties\<close>

text \<open>C37 The validator accepts exactly the byte strings that are a concatenation of the UTF-8 encodings of
  Unicode scalar values other than NUL: no overlong form, surrogate or value past U+10FFFF is let through.\<close>

theorem utf8_valid_encodings:
  "utf8_valid s \<longleftrightarrow> (\<exists>cs. (\<forall>c \<in> set cs. scalar c \<and> c \<noteq> 0) \<and> s = concat (map utf8_encode cs))"
  using utf8_valid_iff [of s] by (simp add: text_scalar_def)

theorem utf8_valid_encodings_witness:
  "utf8_valid [65, 0xE2, 0x82, 0xAC] \<and> concat (map utf8_encode [65, 0x20AC]) = [65, 0xE2, 0x82, 0xAC]"
proof -
  have e: "concat (map utf8_encode [65, 0x20AC]) = [65, 0xE2, 0x82, 0xAC]"
    by (simp add: utf8_encode_def byte_of_def)
  have "\<forall>c \<in> set [65, 0x20AC]. scalar c \<and> c \<noteq> 0" by (simp add: scalar_def)
  then show ?thesis
    using utf8_valid_encodings [of "[65, 0xE2, 0x82, 0xAC]"] e by metis
qed

text \<open>Decoding is the inverse of encoding: from the encoding of a scalar value, whatever follows it,
  the decoder returns that value and the number of bytes it takes.\<close>

theorem decode_of_encode:
  assumes "scalar c"
  shows "utf8_decode (utf8_encode c @ rest) = (word_of_nat c, length (utf8_encode c))"
  using assms by (rule decode_encode)

end
