(* ===== verification/Text_Store.thy ===== *)
theory Text_Store
  imports Utf8
begin

unbundle bit_operations_syntax

section \<open>The text store (\<open>src/text.c\<close>, \<open>include/text.h\<close>)\<close>

text \<open>
  A piece table held in an implicit randomized treap. A node (\<open>struct Piece\<close>) names a
  range of one of two append-only stores, \<open>original\<close> or \<open>added\<close>, and caches the byte,
  newline and character counts of its piece and of its subtree. Nodes are uniquely owned,
  so the C code's in-place updates are rebuilt trees here. Allocation is assumed to
  succeed, since \<open>xmalloc\<close> aborts the process when it does not.
\<close>

subsection \<open>Data\<close>

record Piece_data =
  offset :: nat
  plength :: nat
  newlines :: nat
  chars :: nat
  bytes_sum :: nat
  lines_sum :: nat
  chars_sum :: nat
  priority :: "32 word"
  source :: bool \<comment> \<open>\<open>True\<close> for the \<open>added\<close> store (\<open>source\<close> = 1)\<close>

datatype Piece = Null | Node Piece Piece_data Piece

record Text =
  root :: Piece
  original :: bytes
  added :: bytes
  added_cap :: nat
  random :: "32 word"

definition store :: "Text \<Rightarrow> bool \<Rightarrow> bytes" where
  "store t src = (if src then added t else original t)"

fun nb :: "Piece \<Rightarrow> nat" where
  "nb Null = 0" | "nb (Node l p r) = bytes_sum p"

fun nl :: "Piece \<Rightarrow> nat" where
  "nl Null = 0" | "nl (Node l p r) = lines_sum p"

fun nc :: "Piece \<Rightarrow> nat" where
  "nc Null = 0" | "nc (Node l p r) = chars_sum p"

text \<open>\<open>data t p\<close> reads the piece: the \<open>plength p\<close> bytes the C pointer \<open>data(t,p)\<close> starts.\<close>

definition pbytes :: "(bool \<Rightarrow> bytes) \<Rightarrow> Piece_data \<Rightarrow> bytes" where
  "pbytes st p = seg (offset p) (plength p) (st (source p))"

fun update :: "Piece \<Rightarrow> Piece" where
  "update Null = Null"
| "update (Node l p r) = Node l (p\<lparr>bytes_sum := nb l + plength p + nb r,
     lines_sum := nl l + newlines p + nl r, chars_sum := nc l + chars p + nc r\<rparr>) r"

definition random_next :: "Text \<Rightarrow> Text \<times> 32 word" where
  "random_next t = (let x = random t; x = x XOR push_bit 13 x; x = x XOR drop_bit 17 x;
     x = x XOR push_bit 5 x in (t\<lparr>random := x\<rparr>, x))"

definition node :: "Text \<Rightarrow> bool \<Rightarrow> nat \<Rightarrow> nat \<Rightarrow> Text \<times> Piece" where
  "node t src off n = (let (t, x) = random_next t; s = seg off n (store t src) in
     (t, update (Node Null \<lparr>offset = off, plength = n, newlines = count_nl s,
        chars = count_chars s, bytes_sum = 0, lines_sum = 0, chars_sum = 0,
        priority = x, source = src\<rparr> Null)))"

fun merge :: "Piece \<Rightarrow> Piece \<Rightarrow> Piece" where
  "merge Null b = b"
| "merge a Null = a"
| "merge (Node al a ar) (Node bl b br) =
     (if priority a > priority b then update (Node al a (merge ar (Node bl b br)))
      else update (Node (merge (Node al a ar) bl) b br))"

definition with_priority :: "32 word \<Rightarrow> Piece \<Rightarrow> Piece" where
  "with_priority x q = (case q of Null \<Rightarrow> Null | Node l p r \<Rightarrow> Node l (p\<lparr>priority := x\<rparr>) r)"

fun split :: "Text \<Rightarrow> Piece \<Rightarrow> nat \<Rightarrow> Text \<times> Piece \<times> Piece" where
  "split t Null at = (t, Null, Null)"
| "split t (Node l p r) at =
     (if at < nb l then
        let (t, a, l') = split t l at in (t, a, update (Node l' p r))
      else if nb l + plength p < at then
        let (t, r', b) = split t r (at - nb l - plength p) in (t, update (Node l p r'), b)
      else if at = nb l then (t, l, update (Node Null p r))
      else if at = nb l + plength p then (t, update (Node l p Null), r)
      else
        let k = at - nb l;
            (t, x) = node t (source p) (offset p) k;
            (t, y) = node t (source p) (offset p + k) (plength p - k)
        in (t, merge l (with_priority (priority p) x), merge (with_priority (priority p) y) r))"

subsection \<open>Building pieces\<close>

text \<open>\<open>while(m && (s[m]&0xc0)==0x80) m--\<close>\<close>

fun cut_back :: "bytes \<Rightarrow> nat \<Rightarrow> nat" where
  "cut_back s 0 = 0"
| "cut_back s (Suc m) = (if is_cont (s ! Suc m) then cut_back s m else Suc m)"

definition chunk_len :: "bytes \<Rightarrow> nat \<Rightarrow> nat" where
  "chunk_len s n = (let m = (if n > 4096 then 4096 else n) in if m < n then cut_back s m else m)"

lemma cut_back_le: "cut_back s m \<le> m"
  by (induction m) auto

lemma chunk_len_le: "chunk_len s n \<le> n"
  using cut_back_le [of s 4096] by (auto simp: chunk_len_def Let_def)

text \<open>
  The loop of \<open>pieces\<close>. When \<open>m\<close> is cut back to 0 the C loop makes no progress and
  never returns, which is \<open>None\<close>.
\<close>

function pieces_loop :: "Text \<Rightarrow> Piece \<Rightarrow> bool \<Rightarrow> nat \<Rightarrow> nat \<Rightarrow> (Text \<times> Piece) option" where
  "pieces_loop t r src off n =
     (if n = 0 then Some (t, r)
      else let m = chunk_len (drop off (store t src)) n in
        if m = 0 then None
        else let (t, x) = node t src off m in pieces_loop t (merge r x) src (off + m) (n - m))"
  by pat_completeness auto
termination
  by (relation "measure (\<lambda>(t, r, src, off, n). n)") auto

declare pieces_loop.simps [simp del]

definition pieces :: "Text \<Rightarrow> bool \<Rightarrow> nat \<Rightarrow> nat \<Rightarrow> (Text \<times> Piece) option" where
  "pieces t src off n = pieces_loop t Null src off n"

definition text_init :: "bytes \<Rightarrow> Text option" where
  "text_init s = do {
     let t = \<lparr>root = Null, original = s, added = [], added_cap = 0, random = 0x9e3779b9\<rparr>;
     (t, r) \<leftarrow> pieces t False 0 (length s);
     Some (t\<lparr>root := r\<rparr>) }"

definition text_size :: "Text \<Rightarrow> nat" where
  "text_size t = nb (root t)"

definition text_lines :: "Text \<Rightarrow> nat" where
  "text_lines t = nl (root t) + 1"

definition text_chars :: "Text \<Rightarrow> nat" where
  "text_chars t = nc (root t)"

subsection \<open>Reading\<close>

fun byte_at :: "(bool \<Rightarrow> bytes) \<Rightarrow> Piece \<Rightarrow> nat \<Rightarrow> byte" where
  "byte_at st Null at = 0"
| "byte_at st (Node l p r) at =
     (if at < nb l then byte_at st l at
      else if at < nb l + plength p then st (source p) ! (offset p + (at - nb l))
      else byte_at st r (at - (nb l + plength p)))"

definition text_byte :: "Text \<Rightarrow> nat \<Rightarrow> byte" where
  "text_byte t at = byte_at (store t) (root t) at"

definition text_boundary :: "Text \<Rightarrow> nat \<Rightarrow> bool" where
  "text_boundary t at \<longleftrightarrow> at \<le> text_size t \<and> (at = text_size t \<or> \<not> is_cont (text_byte t at))"

text \<open>\<open>copy_range\<close> returns the bytes it writes at \<open>*out\<close>.\<close>

fun copy_range :: "(bool \<Rightarrow> bytes) \<Rightarrow> Piece \<Rightarrow> nat \<Rightarrow> nat \<Rightarrow> bytes" where
  "copy_range st Null at n = []"
| "copy_range st (Node l p r) at n =
     (if n = 0 then []
      else
        let (o1, n, at) =
              (if at < nb l
               then let m = (if nb l - at < n then nb l - at else n)
                    in (copy_range st l at m, n - m, at + m)
               else ([], n, at));
            (o2, n, at) =
              (if n \<noteq> 0 \<and> at < nb l + plength p
               then let k = (if at > nb l then at - nb l else 0);
                        m = (if plength p - k < n then plength p - k else n)
                    in (seg (offset p + k) m (st (source p)), n - m, at + m)
               else ([], n, at))
        in o1 @ o2 @ (if n \<noteq> 0 then copy_range st r (at - nb l - plength p) n else []))"

definition text_copy :: "Text \<Rightarrow> nat \<Rightarrow> nat \<Rightarrow> bytes" where
  "text_copy t at n =
     (if at \<le> text_size t
      then copy_range (store t) (root t) at (if n > text_size t - at then text_size t - at else n)
      else [])"

definition text_slice :: "Text \<Rightarrow> nat \<Rightarrow> nat \<Rightarrow> bytes" where
  "text_slice t at n =
     (let at = (if at > text_size t then text_size t else at);
          n = (if n > text_size t - at then text_size t - at else n)
      in text_copy t at n)"

subsection \<open>Moving by characters and lines\<close>

function next_loop :: "Text \<Rightarrow> nat \<Rightarrow> nat \<Rightarrow> nat" where
  "next_loop t n at = (let at = at + 1 in
     if at < n \<and> is_cont (text_byte t at) then next_loop t n at else at)"
  by pat_completeness auto
termination
  by (relation "measure (\<lambda>(t, n, at). n - at)") auto

declare next_loop.simps [simp del]

definition text_next :: "Text \<Rightarrow> nat \<Rightarrow> nat" where
  "text_next t at = (let n = text_size t in if at \<ge> n then n else next_loop t n at)"

function prev_loop :: "Text \<Rightarrow> nat \<Rightarrow> nat" where
  "prev_loop t at = (let at = at - 1 in
     if at \<noteq> 0 \<and> is_cont (text_byte t at) then prev_loop t at else at)"
  by pat_completeness auto
termination
  by (relation "measure (\<lambda>(t, at). at)") auto

declare prev_loop.simps [simp del]

definition text_prev :: "Text \<Rightarrow> nat \<Rightarrow> nat" where
  "text_prev t at = (let at = (if at > text_size t then text_size t else at) in
     if at = 0 then 0 else prev_loop t at)"

text \<open>The scan inside the piece that holds the line break: \<open>Inr\<close> is its early return.\<close>

fun nl_scan :: "bytes \<Rightarrow> nat \<Rightarrow> nat \<Rightarrow> nat + nat" where
  "nl_scan [] i line = Inl line"
| "nl_scan (c # s) i line =
     (if is_nl c then (if line - 1 = 0 then Inr (i + 1) else nl_scan s (i + 1) (line - 1))
      else nl_scan s (i + 1) line)"

fun line_start_loop :: "(bool \<Rightarrow> bytes) \<Rightarrow> Piece \<Rightarrow> nat \<Rightarrow> nat \<Rightarrow> nat \<Rightarrow> nat" where
  "line_start_loop st Null line off tsize = tsize"
| "line_start_loop st (Node l p r) line off tsize =
     (if line \<le> nl l then line_start_loop st l line off tsize
      else
        let line = line - nl l; off = off + nb l in
        case (if line \<le> newlines p then nl_scan (pbytes st p) 0 line else Inl line) of
          Inr i \<Rightarrow> off + i
        | Inl line \<Rightarrow> line_start_loop st r (line - newlines p) (off + plength p) tsize)"

definition text_line_start :: "Text \<Rightarrow> nat \<Rightarrow> nat" where
  "text_line_start t line =
     (if line = 0 then 0
      else if line \<ge> text_lines t then text_size t
      else line_start_loop (store t) (root t) line 0 (text_size t))"

fun prefix_loop :: "(bool \<Rightarrow> bytes) \<Rightarrow> Piece \<Rightarrow> nat \<Rightarrow> bool \<Rightarrow> nat \<Rightarrow> nat" where
  "prefix_loop st Null at ch result = result"
| "prefix_loop st (Node l p r) at ch result =
     (if at < nb l then prefix_loop st l at ch result
      else
        let result = result + (if ch then nc l else nl l); at = at - nb l in
        if at \<le> plength p
        then result + (if ch then count_chars (take at (pbytes st p))
                       else count_nl (take at (pbytes st p)))
        else prefix_loop st r (at - plength p) ch (result + (if ch then chars p else newlines p)))"

definition prefix_metric :: "Text \<Rightarrow> nat \<Rightarrow> bool \<Rightarrow> nat" where
  "prefix_metric t at ch = prefix_loop (store t) (root t) at ch 0"

definition text_line_of :: "Text \<Rightarrow> nat \<Rightarrow> nat" where
  "text_line_of t at = prefix_metric t at False"

definition text_byte_to_char :: "Text \<Rightarrow> nat \<Rightarrow> nat" where
  "text_byte_to_char t at = prefix_metric t at True"

fun char_scan :: "bytes \<Rightarrow> nat \<Rightarrow> nat \<Rightarrow> nat" where
  "char_scan [] i ch = i"
| "char_scan (c # s) i ch =
     (if \<not> is_cont c then (if ch = 0 then i else char_scan s (i + 1) (ch - 1))
      else char_scan s (i + 1) ch)"

fun char_to_byte_loop :: "(bool \<Rightarrow> bytes) \<Rightarrow> Piece \<Rightarrow> nat \<Rightarrow> nat \<Rightarrow> nat" where
  "char_to_byte_loop st Null ch off = off"
| "char_to_byte_loop st (Node l p r) ch off =
     (if ch < nc l then char_to_byte_loop st l ch off
      else
        let ch = ch - nc l; off = off + nb l in
        if ch \<le> chars p then off + char_scan (pbytes st p) 0 ch
        else char_to_byte_loop st r (ch - chars p) (off + plength p))"

definition text_char_to_byte :: "Text \<Rightarrow> nat \<Rightarrow> nat" where
  "text_char_to_byte t ch = char_to_byte_loop (store t) (root t) ch 0"

subsection \<open>Editing\<close>

fun append_right :: "Piece \<Rightarrow> nat \<Rightarrow> bytes \<Rightarrow> bool \<times> Piece" where
  "append_right Null off s = (False, Null)"
| "append_right (Node l p r) off s =
     (if r \<noteq> Null then
        let (ok, r') = append_right r off s
        in (ok, if ok then update (Node l p r') else Node l p r')
      else if \<not> source p \<or> offset p + plength p \<noteq> off \<or> plength p + length s > 4096
      then (False, Node l p r)
      else (True, update (Node l (p\<lparr>plength := plength p + length s,
              newlines := newlines p + count_nl s, chars := chars p + count_chars s\<rparr>) r)))"

text \<open>Capacity doubling; with \<open>cap = 0\<close> the C loop would double 0 for ever.\<close>

function grow_cap :: "nat \<Rightarrow> nat \<Rightarrow> nat option" where
  "grow_cap cap need =
     (if cap < need then
        if cap > size_max div 2 then Some need
        else if cap = 0 then None
        else grow_cap (cap * 2) need
      else Some cap)"
  by pat_completeness auto
termination
  by (relation "measure (\<lambda>(cap, need). need - cap)") auto

declare grow_cap.simps [simp del]

definition text_insert :: "Text \<Rightarrow> nat \<Rightarrow> bytes \<Rightarrow> (bool \<times> Text) option" where
  "text_insert t at s =
     (if \<not> text_boundary t at \<or> \<not> utf8_valid s \<or> length s > size_max - length (added t) - 1
      then Some (False, t)
      else if s = [] then Some (True, t)
      else do {
        let z = length (added t) + length s;
        cap \<leftarrow> (if z + 1 > added_cap t
               then grow_cap (if added_cap t \<noteq> 0 then added_cap t else 4096) (z + 1)
               else Some (added_cap t));
        let off = length (added t);
        let t = t\<lparr>added := added t @ s, added_cap := cap\<rparr>;
        let (t, a, b) = split t (root t) at;
        let (ok, a) = append_right a off s;
        if ok then Some (True, t\<lparr>root := merge a b\<rparr>)
        else do {
          (t, q) \<leftarrow> pieces t True off (length s);
          Some (True, t\<lparr>root := merge (merge a q) b\<rparr>) } })"

definition text_delete :: "Text \<Rightarrow> nat \<Rightarrow> nat \<Rightarrow> bool \<times> Text" where
  "text_delete t at n =
     (if at > text_size t \<or> n > text_size t - at \<or> \<not> text_boundary t at \<or> \<not> text_boundary t (at + n)
      then (False, t)
      else
        let (t, a, b) = split t (root t) at;
            (t, b, c) = split t b n
        in (True, t\<lparr>root := merge a c\<rparr>))"

subsection \<open>Writing to a stream\<close>

text \<open>
  A C stream, as far as the code uses it: the bytes written so far, and how many more the
  device takes before a write fails (a full disk).
\<close>

record FILE =
  contents :: bytes
  room :: nat

definition fputc :: "byte \<Rightarrow> FILE \<Rightarrow> FILE \<times> bool" where
  "fputc c f = (if room f = 0 then (f, False)
     else (f\<lparr>contents := contents f @ [c], room := room f - 1\<rparr>, True))"

definition fwrite :: "bytes \<Rightarrow> FILE \<Rightarrow> FILE \<times> nat" where
  "fwrite s f = (let k = min (length s) (room f) in
     (f\<lparr>contents := contents f @ take k s, room := room f - k\<rparr>, k))"

fun write_crlf :: "bytes \<Rightarrow> FILE \<Rightarrow> FILE \<times> bool" where
  "write_crlf [] f = (f, True)"
| "write_crlf (c # s) f =
     (let (f, ok) = (if is_nl c then fputc 13 f else (f, True)) in
      if \<not> ok then (f, False)
      else let (f, ok) = fputc c f in if \<not> ok then (f, False) else write_crlf s f)"

fun write_piece :: "(bool \<Rightarrow> bytes) \<Rightarrow> Piece \<Rightarrow> FILE \<Rightarrow> bool \<Rightarrow> FILE \<times> bool" where
  "write_piece st Null f crlf = (f, True)"
| "write_piece st (Node l p r) f crlf =
     (let (f, ok) = write_piece st l f crlf in
      if \<not> ok then (f, False)
      else
        let (f, ok) =
          (if \<not> crlf then let (f, k) = fwrite (pbytes st p) f in (f, k = plength p)
           else write_crlf (pbytes st p) f) in
        if \<not> ok then (f, False) else write_piece st r f crlf)"

definition text_write :: "Text \<Rightarrow> FILE \<Rightarrow> bool \<Rightarrow> FILE \<times> bool" where
  "text_write t f crlf = write_piece (store t) (root t) f crlf"

subsection \<open>The self check\<close>

definition prio_le :: "32 word \<Rightarrow> Piece \<Rightarrow> bool" where
  "prio_le x q = (case q of Null \<Rightarrow> True | Node l p r \<Rightarrow> priority p \<le> x)"

lemma prio_le_simps [simp]:
  "prio_le x Null" "prio_le x (Node l p r) = (priority p \<le> x)"
  by (simp_all add: prio_le_def)

fun check_node :: "(bool \<Rightarrow> bytes) \<Rightarrow> Piece \<Rightarrow> bool" where
  "check_node st Null = True"
| "check_node st (Node l p r) =
     (let nn = count_nl (pbytes st p); cc = count_chars (pbytes st p) in
      prio_le (priority p) l \<and> prio_le (priority p) r \<and> nn = newlines p \<and> cc = chars p \<and>
      bytes_sum p = nb l + plength p + nb r \<and> lines_sum p = nl l + nn + nl r \<and>
      chars_sum p = nc l + cc + nc r \<and> check_node st l \<and> check_node st r)"

definition text_check :: "Text \<Rightarrow> bool" where
  "text_check t = check_node (store t) (root t)"

end
