(* ===== verification/Interfaces.thy ===== *)
theory Interfaces
  imports Utf8
begin

section \<open>Interfaces between the components\<close>

text \<open>
  What one component promises another, as locales: the text store to the buffer code, the
  entries of an edit history to undo, and a step relation to the invariants of its
  reachable states. Each is interpreted where the model provides it. The theory starts with
  the operation on byte strings these contracts are about: replacing a range.
\<close>

subsection \<open>Replacing a range\<close>

definition splice :: "nat \<Rightarrow> nat \<Rightarrow> bytes \<Rightarrow> bytes \<Rightarrow> bytes" where
  "splice at n s xs = take at xs @ s @ drop (at + n) xs"

lemma valid_splice:
  assumes "utf8_valid xs" "boundary xs at" "boundary xs (at + n)" "utf8_valid s"
  shows "utf8_valid (splice at n s xs)"
  using assms by (simp add: splice_def utf8_valid_append valid_take valid_drop)

lemma length_splice: "at + n \<le> length xs \<Longrightarrow> length (splice at n s xs) = length xs - n + length s"
  by (simp add: splice_def)

lemma seg_splice: "at + n \<le> length xs \<Longrightarrow> seg at (length s) (splice at n s xs) = s"
  by (simp add: splice_def seg_def)

lemma splice_inverse:
  assumes "at + n \<le> length xs"
  shows "splice at (length s) (seg at n xs) (splice at n s xs) = xs"
  using take_drop_split3 [OF assms] assms by (simp add: splice_def)

lemma splice_splice: "at + n \<le> length xs \<Longrightarrow> splice at 0 s (splice at n [] xs) = splice at n s xs"
  by (simp add: splice_def)

text \<open>Boundaries of the contents an edit leaves.\<close>

lemma boundary_splice:
  assumes at: "boundary xs at" and z: "boundary xs (at + n)" and xs: "utf8_valid xs" and s: "utf8_valid s"
  shows "boundary (splice at n s xs) at" "boundary (splice at n s xs) (at + length s)"
    "p < at \<Longrightarrow> boundary xs p \<Longrightarrow> boundary (splice at n s xs) p"
    "at + n \<le> p \<Longrightarrow> boundary xs p \<Longrightarrow> boundary (splice at n s xs) (p - n + length s)"
proof -
  let ?a = "take at xs" and ?c = "drop (at + n) xs"
  have la: "length ?a = at" using boundary_le [OF at] by simp
  have c: "utf8_valid ?c" using xs z by (rule valid_drop)
  have "boundary (?a @ (s @ ?c)) (length ?a)" using utf8_valid_append [OF s c] by (rule boundary_append)
  then show "boundary (splice at n s xs) at" by (simp only: splice_def la)
  have "boundary ((?a @ s) @ ?c) (length (?a @ s))" using c by (rule boundary_append)
  then show "boundary (splice at n s xs) (at + length s)"
    by (simp only: splice_def la length_append append_assoc)
  show "boundary (splice at n s xs) p" if "p < at" "boundary xs p"
  proof -
    have "boundary ?a p"
      by (rule boundary_take [OF that(2) less_imp_le [OF that(1)] boundary_le [OF at]])
    then have "boundary (?a @ s @ ?c) p" by (rule boundary_prefix) (simp only: la that(1))
    then show ?thesis by (simp only: splice_def)
  qed
  show "boundary (splice at n s xs) (p - n + length s)" if le: "at + n \<le> p" and p: "boundary xs p"
  proof -
    obtain k where k: "p = at + n + k" using le_Suc_ex [OF le] by blast
    have "boundary (take (at + n) xs @ ?c) (length (take (at + n) xs) + k)"
      using p k boundary_le [OF z] by simp
    then have "boundary ?c k" by (simp only: boundary_suffix)
    then have "boundary ((?a @ s) @ ?c) (length (?a @ s) + k)" by (simp only: boundary_suffix)
    moreover have "length (?a @ s) + k = p - n + length s" by (simp add: k boundary_le [OF at])
    ultimately show ?thesis by (simp only: splice_def append_assoc)
  qed
qed

subsection \<open>A text that can be edited\<close>

text \<open>The client's view of a text store: contents, and the number of bytes ever inserted, which bounds
  what can still be inserted.\<close>

locale text_writer =
  fixes inv :: "'t \<Rightarrow> bool"
    and contents :: "'t \<Rightarrow> bytes"
    and stored :: "'t \<Rightarrow> nat"
    and insert_at :: "'t \<Rightarrow> nat \<Rightarrow> bytes \<Rightarrow> (bool \<times> 't) option"
    and delete_at :: "'t \<Rightarrow> nat \<Rightarrow> nat \<Rightarrow> bool \<times> 't"
  assumes valid_contents: "inv t \<Longrightarrow> utf8_valid (contents t)"
    and insert_law: "inv t \<Longrightarrow> boundary (contents t) at \<Longrightarrow> utf8_valid s \<Longrightarrow>
      stored t + length s < size_max \<Longrightarrow>
      \<exists>t'. insert_at t at s = Some (True, t') \<and> inv t' \<and>
        contents t' = splice at 0 s (contents t) \<and> stored t' = stored t + length s"
    and delete_law: "inv t \<Longrightarrow> boundary (contents t) at \<Longrightarrow> boundary (contents t) (at + n) \<Longrightarrow>
      \<exists>t'. delete_at t at n = (True, t') \<and> inv t' \<and>
        contents t' = splice at n [] (contents t) \<and> stored t' = stored t"
begin

text \<open>Deleting and inserting at the same place replaces the range.\<close>

lemma replace_law:
  assumes "inv t" "boundary (contents t) at" "boundary (contents t) (at + n)" "utf8_valid s"
    "stored t + length s < size_max"
  shows "\<exists>t'. insert_at (snd (delete_at t at n)) at s = Some (True, t') \<and> inv t' \<and>
    contents t' = splice at n s (contents t) \<and> stored t' = stored t + length s"
proof -
  obtain u where u: "delete_at t at n = (True, u)" "inv u" "contents u = splice at n [] (contents t)"
    "stored u = stored t"
    using delete_law [OF assms(1-3)] by blast
  have "boundary (contents u) at"
    using boundary_splice(1) [OF assms(2,3) valid_contents [OF assms(1)], of "[]"] u(3) by simp
  from insert_law [OF u(2) this assms(4)] u assms(5) show ?thesis
    using boundary_le [OF assms(3)] by (simp add: splice_splice)
qed

text \<open>Replacing the new range by what was there before restores the contents.\<close>

lemma replace_back:
  assumes "inv t" "boundary (contents t) at" "boundary (contents t) (at + n)" "utf8_valid s"
    "stored t + length s + n < size_max"
    and t': "insert_at (snd (delete_at t at n)) at s = Some (True, t')"
  shows "\<exists>u. insert_at (snd (delete_at t' at (length s))) at (seg at n (contents t)) = Some (True, u) \<and>
    inv u \<and> contents u = contents t"
proof -
  note xs = valid_contents [OF assms(1)]
  have le: "at + n \<le> length (contents t)" using assms(3) by (rule boundary_le)
  have T: "inv t'" "contents t' = splice at n s (contents t)" "stored t' = stored t + length s"
    using replace_law [OF assms(1-4)] assms(5) t' by auto
  have "boundary (contents t') at" "boundary (contents t') (at + length s)"
    unfolding T(2) using boundary_splice(1,2) [OF assms(2,3) xs assms(4)] by simp_all
  moreover have "utf8_valid (seg at n (contents t))" using valid_seg [OF xs assms(2,3)] .
  moreover have "stored t' + length (seg at n (contents t)) < size_max" using T(3) assms(5) le by simp
  ultimately show ?thesis
    using replace_law [OF T(1)] T(2) splice_inverse [OF le, of s] by metis
qed

end

locale text_editor = text_writer +
  fixes size_of :: "'t \<Rightarrow> nat"
    and slice :: "'t \<Rightarrow> nat \<Rightarrow> nat \<Rightarrow> bytes"
  assumes size_law: "inv t \<Longrightarrow> size_of t = length (contents t)"
    and slice_law: "inv t \<Longrightarrow> slice t at n = seg at n (contents t)"
begin

lemma slice_all: "inv t \<Longrightarrow> slice t 0 (size_of t) = contents t"
  by (simp add: size_law slice_law)

lemma slice_replaced:
  assumes "inv t" "boundary (contents t) at" "boundary (contents t) (at + n)" "utf8_valid s"
    "stored t + length s < size_max" "insert_at (snd (delete_at t at n)) at s = Some (True, t')"
  shows "slice t' at (length s) = s"
    and "size_of t' = size_of t - n + length s"
  using replace_law [OF assms(1-5)] assms(1,6) boundary_le [OF assms(3)]
  by (auto simp: slice_law size_law seg_splice length_splice)

text \<open>Undoing with the slice taken before the edit.\<close>

lemma slice_back:
  assumes "inv t" "boundary (contents t) at" "boundary (contents t) (at + n)" "utf8_valid s"
    "stored t + length s + n < size_max" "insert_at (snd (delete_at t at n)) at s = Some (True, t')"
  shows "\<exists>u. insert_at (snd (delete_at t' at (length s))) at (slice t at n) = Some (True, u) \<and>
    inv u \<and> contents u = contents t"
  using replace_back [OF assms] by (simp add: slice_law assms(1))

end

subsection \<open>Changes that can be taken back\<close>

locale reversible =
  fixes allowed :: "'d \<Rightarrow> 's \<Rightarrow> bool"
    and fwd :: "'s \<Rightarrow> 'd \<Rightarrow> 's"
    and bwd :: "'d \<Rightarrow> 's \<Rightarrow> 's"
  assumes back_forth: "allowed d x \<Longrightarrow> bwd d (fwd x d) = x"
begin

lemma rewind:
  "\<forall>k < length ds. allowed (ds ! k) (foldl fwd x (take k ds)) \<Longrightarrow> foldr bwd ds (foldl fwd x ds) = x"
proof (induction ds rule: rev_induct)
  case (snoc d ds)
  have "allowed d (foldl fwd x ds)" using snoc.prems by (auto dest: spec [of _ "length ds"])
  moreover have "allowed (ds ! k) (foldl fwd x (take k ds))" if "k < length ds" for k
    using spec [OF snoc.prems, of k] that by (simp add: nth_append)
  ultimately show ?case using snoc.IH by (simp add: back_forth)
qed simp

end

subsection \<open>Invariants of reachable states\<close>

locale step_system =
  fixes step :: "'s \<Rightarrow> 's \<Rightarrow> bool"
    and inv :: "'s \<Rightarrow> bool"
  assumes preserved: "step x y \<Longrightarrow> inv x \<Longrightarrow> inv y"
begin

lemma reachable: "step\<^sup>*\<^sup>* x y \<Longrightarrow> inv x \<Longrightarrow> inv y"
  by (induction rule: rtranclp_induct) (auto intro: preserved)

end

end
