(* ===== verification/Text_Correct.thy ===== *)
theory Text_Correct
  imports Text_Store Interfaces
begin

unbundle bit_operations_syntax

section \<open>Correctness of the text store\<close>

subsection \<open>The abstraction: the bytes a tree stores\<close>

fun flat :: "(bool \<Rightarrow> bytes) \<Rightarrow> Piece \<Rightarrow> bytes" where
  "flat st Null = []"
| "flat st (Node l p r) = flat st l @ pbytes st p @ flat st r"

definition text_content :: "Text \<Rightarrow> bytes" where
  "text_content t = flat (store t) (root t)"

text \<open>A piece lies inside its store, is not empty, holds at most 4096 bytes, has right counts
  and starts at a character boundary.\<close>

definition piece_ok :: "(bool \<Rightarrow> bytes) \<Rightarrow> Piece_data \<Rightarrow> bool" where
  "piece_ok st p \<longleftrightarrow> offset p + plength p \<le> length (st (source p)) \<and>
     0 < plength p \<and> plength p \<le> 4096 \<and>
     newlines p = count_nl (pbytes st p) \<and> chars p = count_chars (pbytes st p) \<and>
     \<not> is_cont (hd (pbytes st p))"

fun tree_ok :: "(bool \<Rightarrow> bytes) \<Rightarrow> Piece \<Rightarrow> bool" where
  "tree_ok st Null = True"
| "tree_ok st (Node l p r) \<longleftrightarrow> tree_ok st l \<and> tree_ok st r \<and> piece_ok st p \<and>
     prio_le (priority p) l \<and> prio_le (priority p) r \<and>
     bytes_sum p = nb l + plength p + nb r \<and> lines_sum p = nl l + newlines p + nl r \<and>
     chars_sum p = nc l + chars p + nc r"

definition text_inv :: "Text \<Rightarrow> bool" where
  "text_inv t \<longleftrightarrow> tree_ok (store t) (root t) \<and> utf8_valid (text_content t) \<and>
     (added_cap t = 0 \<and> added t = [] \<or> length (added t) < added_cap t)"

lemma tree_ok_check: "tree_ok st q \<Longrightarrow> check_node st q"
  by (induction q) (auto simp: piece_ok_def Let_def)

lemma length_pbytes [simp]: "piece_ok st p \<Longrightarrow> length (pbytes st p) = plength p"
  by (auto simp: piece_ok_def pbytes_def)

lemma sums_flat:
  "tree_ok st q \<Longrightarrow> nb q = length (flat st q)"
  "tree_ok st q \<Longrightarrow> nl q = count_nl (flat st q)"
  "tree_ok st q \<Longrightarrow> nc q = count_chars (flat st q)"
  by (induction q) (auto simp: piece_ok_def pbytes_def)

lemma length_flat [simp]: "tree_ok st q \<Longrightarrow> length (flat st q) = nb q"
  by (simp add: sums_flat)

text \<open>An update outside the sums keeps a tree's meaning, and \<open>update\<close> restores the sums.\<close>

lemma pbytes_sums [simp]:
  "pbytes st (p\<lparr>bytes_sum := i, lines_sum := j, chars_sum := k\<rparr>) = pbytes st p"
  "pbytes st (p\<lparr>priority := x\<rparr>) = pbytes st p"
  by (simp_all add: pbytes_def)

lemma piece_ok_sums [simp]:
  "piece_ok st (p\<lparr>bytes_sum := i, lines_sum := j, chars_sum := k\<rparr>) = piece_ok st p"
  "piece_ok st (p\<lparr>priority := x\<rparr>) = piece_ok st p"
  by (simp_all add: piece_ok_def)

lemma flat_update [simp]: "flat st (update q) = flat st q"
  by (cases q) auto

lemma prio_le_update [simp]: "prio_le x (update q) = prio_le x q"
  by (cases q) auto

lemma tree_ok_update [simp]:
  "tree_ok st (update (Node l p r)) \<longleftrightarrow> tree_ok st l \<and> tree_ok st r \<and> piece_ok st p \<and>
     prio_le (priority p) l \<and> prio_le (priority p) r"
  by simp

declare update.simps(2) [simp del]

lemma merge_Null [simp]: "merge q Null = q"
  by (cases q) auto

lemma flat_merge [simp]: "flat st (merge a b) = flat st a @ flat st b"
  by (induction a b rule: merge.induct) auto

lemma prio_le_merge: "prio_le x a \<Longrightarrow> prio_le x b \<Longrightarrow> prio_le x (merge a b)"
  by (cases a; cases b) auto

lemma prio_le_trans: "prio_le x q \<Longrightarrow> x \<le> y \<Longrightarrow> prio_le y q"
  by (cases q) auto

lemma tree_ok_merge: "tree_ok st a \<Longrightarrow> tree_ok st b \<Longrightarrow> tree_ok st (merge a b)"
  by (induction a b rule: merge.induct) (auto intro!: prio_le_merge)

subsection \<open>Building and cutting trees\<close>

lemma store_random [simp]: "store (t\<lparr>random := x\<rparr>) = store t"
  by (auto simp: store_def)

lemma store_root [simp]: "store (t\<lparr>root := q\<rparr>) = store t"
  by (auto simp: store_def)

text \<open>The operations on trees change the text's random state only.\<close>

definition same_stores :: "Text \<Rightarrow> Text \<Rightarrow> bool" where
  "same_stores t t' \<longleftrightarrow> (\<exists>x. t' = t\<lparr>random := x\<rparr>)"

lemma same_stores_refl [simp]: "same_stores t t"
  unfolding same_stores_def by (rule exI [of _ "random t"]) simp

lemma same_stores_trans: "same_stores t t' \<Longrightarrow> same_stores t' t'' \<Longrightarrow> same_stores t t''"
  by (auto simp: same_stores_def)

lemma same_stores_store: "same_stores t t' \<Longrightarrow> store t' = store t"
  by (auto simp: same_stores_def)

text \<open>A range that can be a piece.\<close>

definition range_ok :: "bytes \<Rightarrow> nat \<Rightarrow> nat \<Rightarrow> bool" where
  "range_ok s off n \<longleftrightarrow> 0 < n \<and> n \<le> 4096 \<and> off + n \<le> length s \<and> \<not> is_cont (s ! off)"

lemma hd_seg: "0 < n \<Longrightarrow> at < length s \<Longrightarrow> hd (seg at n s) = s ! at"
  by (cases n) (auto simp: seg_def hd_drop_conv_nth Cons_nth_drop_Suc [symmetric])

lemma node_ok:
  assumes "node t src off n = (t', q)" "range_ok (store t src) off n"
  shows "same_stores t t' \<and> tree_ok (store t) q \<and> flat (store t) q = seg off n (store t src)"
proof -
  have "same_stores t (fst (random_next t))"
    by (auto simp: random_next_def Let_def same_stores_def)
  moreover have "store (fst (random_next t)) = store t"
    by (simp add: random_next_def Let_def)
  ultimately show ?thesis using assms
    by (auto simp: node_def Let_def range_ok_def piece_ok_def pbytes_def hd_seg update.simps
        split: prod.splits)
qed

lemma with_priority_ok:
  assumes "node t src off n = (t', q)" "range_ok (store t src) off n"
  shows "tree_ok (store t) (with_priority x q) \<and> flat (store t) (with_priority x q) = seg off n (store t src)
    \<and> prio_le x (with_priority x q)"
proof -
  from node_ok [OF assms] obtain p where q: "q = Node Null p Null"
    using assms(1) by (auto simp: node_def Let_def update.simps split: prod.splits)
  from node_ok [OF assms] show ?thesis by (auto simp: q with_priority_def piece_ok_def pbytes_def)
qed

lemma piece_range:
  "piece_ok st p \<Longrightarrow> 0 < k \<Longrightarrow> k < plength p \<Longrightarrow> \<not> is_cont (pbytes st p ! k) \<Longrightarrow>
     range_ok (st (source p)) (offset p) k \<and> range_ok (st (source p)) (offset p + k) (plength p - k)"
  by (auto simp: piece_ok_def range_ok_def pbytes_def hd_seg)

text \<open>A piece cut in two makes two nodes of its priority.\<close>

lemma split_piece_ok:
  assumes ok: "tree_ok (store t) l" "tree_ok (store t) r" "piece_ok (store t) p" "prio_le (priority p) l" "prio_le (priority p) r"
    and n: "node t (source p) (offset p) k = (t1, x)" "node t1 (source p) (offset p + k) (plength p - k) = (t', y)"
    and k: "0 < k" "k < plength p" "\<not> is_cont (pbytes (store t) p ! k)"
  defines "a \<equiv> merge l (with_priority (priority p) x)" and "b \<equiv> merge (with_priority (priority p) y) r"
  shows "same_stores t t' \<and> tree_ok (store t) a \<and> tree_ok (store t) b \<and>
    flat (store t) a = flat (store t) l @ take k (pbytes (store t) p) \<and> flat (store t) b = drop k (pbytes (store t) p) @ flat (store t) r \<and>
    (\<forall>z. prio_le z (Node l p r) \<longrightarrow> prio_le z a \<and> prio_le z b)"
proof -
  let ?st = "store t"
  have R: "range_ok (?st (source p)) (offset p) k" "range_ok (?st (source p)) (offset p + k) (plength p - k)"
    using piece_range [of ?st p k] ok(3) k by auto
  note N1 = node_ok [OF n(1) R(1)] and P1 = with_priority_ok [OF n(1) R(1), of "priority p"]
  then have st1: "store t1 = ?st" by (simp add: same_stores_store)
  note N2 = node_ok [OF n(2), unfolded st1, OF R(2)]
    and P2 = with_priority_ok [OF n(2), unfolded st1, OF R(2), of "priority p"]
  have "seg (offset p) k (?st (source p)) = take k (pbytes ?st p)"
    "seg (offset p + k) (plength p - k) (?st (source p)) = drop k (pbytes ?st p)"
    using k by (simp_all add: pbytes_def)
  with N1 N2 P1 P2 ok show ?thesis
    by (auto simp: a_def b_def intro!: tree_ok_merge prio_le_merge intro: same_stores_trans prio_le_trans)
qed

lemma split_ok:
  assumes "split t q at = (t', a, b)" "tree_ok (store t) q" "boundary (flat (store t) q) at"
  shows "same_stores t t' \<and> tree_ok (store t) a \<and> tree_ok (store t) b \<and>
    flat (store t) a = take at (flat (store t) q) \<and> flat (store t) b = drop at (flat (store t) q) \<and>
    (\<forall>x. prio_le x q \<longrightarrow> prio_le x a \<and> prio_le x b)"
  using assms
proof (induction t q at arbitrary: t' a b rule: split.induct)
  case (2 t l p r at)
  let ?st = "store t"
  have ok: "tree_ok ?st l" "tree_ok ?st r" "piece_ok ?st p" "prio_le (priority p) l"
    "prio_le (priority p) r" and bd: "boundary (flat ?st l @ pbytes ?st p @ flat ?st r) at"
    using "2.prems" by simp_all
  have len [simp]: "length (flat ?st l) = nb l" "length (pbytes ?st p) = plength p"
    using ok sums_flat(1) [of ?st l] by simp_all
  consider (left) "at < nb l" | (right) "nb l + plength p < at" | (start) "at = nb l"
    | (stop) "at = nb l + plength p" | (mid) "nb l < at" "at < nb l + plength p"
    by linarith
  then show ?case
  proof cases
    case left
    obtain l' where s: "split t l at = (t', a, l')" "b = update (Node l' p r)"
      using "2.prems"(1) left by (auto simp: Let_def split: prod.splits)
    have "boundary (flat ?st l) at" using bd left by (simp add: boundary_def nth_append)
    from "2.IH"(1) [OF left s(1) ok(1) this] ok left show ?thesis
      by (auto simp: s(2) intro: prio_le_trans)
  next
    case right
    obtain r' where s: "split t r (at - nb l - plength p) = (t', r', b)" "a = update (Node l p r')"
      using "2.prems"(1) right by (auto simp: Let_def split: prod.splits)
    have "boundary (flat ?st r) (at - nb l - plength p)"
      using bd right by (auto simp: boundary_def nth_append split: if_splits)
    from "2.IH"(2) [OF _ right s(1) ok(2) this] ok right show ?thesis
      by (auto simp: s(2) intro: prio_le_trans)
  next
    case start
    with "2.prems"(1) ok show ?thesis
      by (auto simp: piece_ok_def intro: prio_le_trans)
  next
    case stop
    with "2.prems"(1) ok show ?thesis
      by (auto simp: piece_ok_def intro: prio_le_trans)
  next
    case mid
    let ?k = "at - nb l"
    obtain t1 x y where n: "node t (source p) (offset p) ?k = (t1, x)"
      "node t1 (source p) (offset p + ?k) (plength p - ?k) = (t', y)"
      "a = merge l (with_priority (priority p) x)" "b = merge (with_priority (priority p) y) r"
      using "2.prems"(1) mid by (auto simp: Let_def split: prod.splits)
    have "\<not> is_cont (pbytes ?st p ! ?k)"
      using bd mid by (auto simp: boundary_def nth_append split: if_splits)
    from split_piece_ok [OF ok n(1,2) _ _ this] ok mid show ?thesis by (simp add: n(3,4))
  qed
qed simp

subsection \<open>Chopping a range into pieces\<close>

lemma cut_back_stop: "cut_back s m \<noteq> 0 \<Longrightarrow> \<not> is_cont (s ! cut_back s m)"
  by (induction m) auto

lemma cut_back_pos: "0 < j \<Longrightarrow> j \<le> m \<Longrightarrow> \<not> is_cont (s ! j) \<Longrightarrow> 0 < cut_back s m"
  by (induction m) (auto simp: le_Suc_eq)

text \<open>In valid text a character starts within four bytes of any other.\<close>

lemma valid_start_near:
  assumes "utf8_valid s" "4 < length s"
  shows "\<exists>j. 0 < j \<and> j \<le> 4 \<and> \<not> is_cont (s ! j)"
  using assms
proof (induction rule: utf8_valid_induct)
  case (Char c u)
  have l: "0 < length (utf8_encode c)" "length (utf8_encode c) \<le> 4"
    by (simp_all add: length_encode)
  with Char.prems have "u \<noteq> []" by auto
  with Char.hyps have "\<not> is_cont (u ! 0)" using valid_hd by (simp add: hd_conv_nth)
  with l Char.hyps show ?case
    by (intro exI [of _ "length (utf8_encode c)"]) (simp add: nth_append)
qed simp

lemma chunk_len_ok:
  assumes "utf8_valid s" "s \<noteq> []"
  shows "0 < chunk_len s (length s)" "chunk_len s (length s) \<le> 4096"
    "boundary s (chunk_len s (length s))"
proof -
  let ?m = "chunk_len s (length s)"
  have "0 < ?m \<and> ?m \<le> 4096 \<and> boundary s ?m"
  proof (cases "length s > 4096")
    case True
    then obtain j where "0 < j" "j \<le> 4" "\<not> is_cont (s ! j)"
      using valid_start_near [OF assms(1)] by auto
    then have pos: "0 < cut_back s 4096"
      by (intro cut_back_pos [of j]) auto
    with True cut_back_le [of s 4096] cut_back_stop [of s 4096] show ?thesis
      by (auto simp: chunk_len_def boundary_def)
  next
    case False
    with assms(2) show ?thesis by (simp add: chunk_len_def Let_def)
  qed
  then show "0 < ?m" "?m \<le> 4096" "boundary s ?m" by auto
qed

lemma pieces_loop_ok:
  assumes "utf8_valid (seg off n (store t src))" "off + n = length (store t src)" "tree_ok (store t) r"
  shows "\<exists>t' r'. pieces_loop t r src off n = Some (t', r') \<and> same_stores t t' \<and>
    tree_ok (store t) r' \<and> flat (store t) r' = flat (store t) r @ seg off n (store t src)"
  using assms
proof (induction t r src off n rule: pieces_loop.induct)
  case (1 t r src off n)
  show ?case
  proof (cases "n = 0")
    case True
    with "1.prems" show ?thesis by (simp add: pieces_loop.simps)
  next
    case False
    let ?s = "drop off (store t src)" and ?m = "chunk_len (drop off (store t src)) n"
    have s: "utf8_valid ?s" "length ?s = n" "?s \<noteq> []"
      using "1.prems" False by (auto simp: seg_def)
    then have m: "0 < ?m" "?m \<le> 4096" "boundary ?s ?m" "?m \<le> n"
      using chunk_len_ok [of ?s] chunk_len_le by auto
    obtain t1 x where n: "node t src off ?m = (t1, x)" by fastforce
    have "range_ok (store t src) off ?m"
      using m s valid_hd [of ?s] "1.prems"(2) by (auto simp: range_ok_def hd_drop_conv_nth)
    note N = node_ok [OF n this]
    then have st: "store t1 = store t" by (simp add: same_stores_store)
    have v: "utf8_valid (drop ?m ?s)" using valid_drop s(1) m(3) .
    have "utf8_valid (seg (off + ?m) (n - ?m) (store t1 src))" "off + ?m + (n - ?m) = length (store t1 src)"
      using v "1.prems"(2) m by (simp_all add: st seg_def add.commute)
    then obtain t' r' where R: "pieces_loop t1 (merge r x) src (off + ?m) (n - ?m) = Some (t', r')"
      "same_stores t1 t'" "tree_ok (store t) r'"
      "flat (store t) r' = flat (store t) (merge r x) @ seg (off + ?m) (n - ?m) (store t src)"
      using "1.IH" [OF False refl _ n [symmetric] refl] N "1.prems"(3) m(1)
      by (auto simp: st tree_ok_merge)
    have "seg off n (store t src) = seg off ?m (store t src) @ seg (off + ?m) (n - ?m) (store t src)"
      using m by (intro seg_split)
    with R N False m n show ?thesis
      by (auto simp: pieces_loop.simps [of t r src off n] Let_def intro: same_stores_trans)
  qed
qed

corollary pieces_ok:
  assumes "utf8_valid (seg off n (store t src))" "off + n = length (store t src)"
  obtains t' r where "pieces t src off n = Some (t', r)" "same_stores t t'" "tree_ok (store t) r"
    "flat (store t) r = seg off n (store t src)"
  using pieces_loop_ok [OF assms, of Null] that by (auto simp: pieces_def)

subsection \<open>Growing the added store\<close>

definition extends :: "(bool \<Rightarrow> bytes) \<Rightarrow> (bool \<Rightarrow> bytes) \<Rightarrow> bool" where
  "extends st st' \<longleftrightarrow> (\<forall>b. take (length (st b)) (st' b) = st b)"

lemma extends_seg:
  assumes "extends st st'" "off + n \<le> length (st b)"
  shows "seg off n (st' b) = seg off n (st b)" "off + n \<le> length (st' b)"
proof -
  have e: "take (length (st b)) (st' b) = st b" using assms(1) by (simp add: extends_def)
  then have "st' b = st b @ drop (length (st b)) (st' b)" by (metis append_take_drop_id)
  then show "seg off n (st' b) = seg off n (st b)" using assms(2) by (metis seg_append_store)
  show "off + n \<le> length (st' b)" using e assms(2) by (metis length_take min.bounded_iff order_trans)
qed

lemma piece_ok_extends:
  assumes "extends st st'" "piece_ok st p"
  shows "piece_ok st' p \<and> pbytes st' p = pbytes st p"
  using assms extends_seg [OF assms(1), of "offset p" "plength p" "source p"]
  by (auto simp: piece_ok_def pbytes_def)

lemma tree_ok_extends:
  "extends st st' \<Longrightarrow> tree_ok st q \<Longrightarrow> tree_ok st' q \<and> flat st' q = flat st q"
  by (induction q) (auto simp: piece_ok_extends)

lemma append_right_prio: "append_right q off s = (ok, q') \<Longrightarrow> prio_le x q' = prio_le x q"
  by (cases q) (auto simp: Let_def split: if_splits prod.splits)

lemma append_right_False: "append_right q off s = (False, q') \<Longrightarrow> q' = q"
  by (induction q off s arbitrary: q' rule: append_right.induct)
    (auto simp: Let_def split: if_splits prod.splits)

lemma append_right_ok:
  assumes "append_right q off s = (True, q')" "tree_ok st q" "extends st st'"
    and "seg off (length s) (st' True) = s" "off + length s \<le> length (st' True)"
  shows "tree_ok st' q' \<and> flat st' q' = flat st q @ s"
  using assms
proof (induction q off s arbitrary: q' rule: append_right.induct)
  case (2 l p r off s)
  have ext: "tree_ok st' l" "flat st' l = flat st l" "piece_ok st' p" "pbytes st' p = pbytes st p"
    using "2.prems"(2,3) by (auto simp: tree_ok_extends piece_ok_extends)
  show ?case
  proof (cases "r = Null")
    case False
    then obtain r' where r': "append_right r off s = (True, r')" "q' = update (Node l p r')"
      using "2.prems"(1) by (auto simp: Let_def split: if_splits prod.splits)
    with "2.IH" [OF False r'(1)] "2.prems" ext show ?thesis
      by (auto simp: append_right_prio intro: prio_le_trans)
  next
    case True
    let ?p = "p\<lparr>plength := plength p + length s, newlines := newlines p + count_nl s,
      chars := chars p + count_chars s\<rparr>"
    have p: "source p" "off = offset p + plength p" "plength p + length s \<le> 4096"
      "q' = update (Node l ?p r)"
      using "2.prems"(1) True by (auto split: if_splits)
    have pb: "pbytes st' ?p = pbytes st p @ s"
      using "2.prems"(4) p ext(4) by (simp add: pbytes_def seg_extend)
    moreover have "pbytes st p \<noteq> []"
      using "2.prems"(2) length_pbytes [of st p] by (cases "pbytes st p") (auto simp: piece_ok_def)
    ultimately have "hd (pbytes st' ?p) = hd (pbytes st p)" by simp
    then have "piece_ok st' ?p"
      using "2.prems"(2,5) p pb ext by (auto simp: piece_ok_def hd_append)
    with ext pb p True "2.prems"(2) show ?thesis by auto
  qed
qed simp

subsection \<open>What the editing operations store\<close>

lemma text_inv_tree: "text_inv t \<Longrightarrow> tree_ok (store t) (root t)"
  and text_inv_valid: "text_inv t \<Longrightarrow> utf8_valid (text_content t)"
  by (simp_all add: text_inv_def)

lemma text_size_content: "text_inv t \<Longrightarrow> text_size t = length (text_content t)"
  by (simp add: text_inv_def text_size_def text_content_def)

lemma byte_at_flat: "tree_ok st q \<Longrightarrow> at < nb q \<Longrightarrow> byte_at st q at = flat st q ! at"
  by (induction q arbitrary: at)
    (auto simp: nth_append pbytes_def piece_ok_def split: if_splits)

lemma text_byte_content:
  "text_inv t \<Longrightarrow> at < length (text_content t) \<Longrightarrow> text_byte t at = text_content t ! at"
  by (simp add: text_byte_def text_content_def text_inv_def byte_at_flat)

lemma text_boundary_content: "text_inv t \<Longrightarrow> text_boundary t at = boundary (text_content t) at"
  using text_byte_content [of t at]
  by (auto simp: text_boundary_def boundary_def text_size_content)

lemma grow_cap_ok:
  assumes "0 < cap" shows "\<exists>c. grow_cap cap need = Some c \<and> need \<le> c"
  using assms
proof (induction cap need rule: grow_cap.induct)
  case (1 cap need)
  then show ?case by (subst grow_cap.simps) (auto simp: grow_cap.simps [of cap need])
qed

lemma extends_append [simp]: "extends (store t) (store (t\<lparr>added := added t @ s, added_cap := c\<rparr>))"
  by (simp add: extends_def store_def)

text \<open>The new bytes become the right end of the left part: the last piece grows, or new pieces are appended.\<close>

lemma text_insert_grows:
  assumes inv: "text_inv t" and at: "boundary (text_content t) at" and s: "utf8_valid s" "s \<noteq> []"
    and room: "length (added t) + length s < size_max"
    and cap: "(if length (added t) + length s + 1 > added_cap t
      then grow_cap (if added_cap t \<noteq> 0 then added_cap t else 4096) (length (added t) + length s + 1)
      else Some (added_cap t)) = Some cap"
  defines "t1 \<equiv> t\<lparr>added := added t @ s, added_cap := cap\<rparr>"
  assumes sp: "split t1 (root t) at = (t2, a, b)" and S: "same_stores t1 t2" "tree_ok (store t1) a" "flat (store t1) a = take at (text_content t)"
  shows "\<exists>t' q. text_insert t at s = Some (True, t'\<lparr>root := merge q b\<rparr>) \<and> tree_ok (store t1) q \<and>
    flat (store t1) q = take at (text_content t) @ s \<and> same_stores t2 t'"
proof -
  have st1: "store t1 True = added t @ s" by (simp add: t1_def store_def)
  then have sseg: "seg (length (added t)) (length s) (store t1 True) = s" by (simp add: seg_def)
  have st2: "store t2 = store t1" using S(1) by (simp add: same_stores_store)
  obtain ok' a' where ar: "append_right a (length (added t)) s = (ok', a')" by fastforce
  show ?thesis
  proof (cases ok')
    case True
    have "tree_ok (store t1) a' \<and> flat (store t1) a' = flat (store t1) a @ s"
      using append_right_ok [of a "length (added t)" s a' "store t1" "store t1"] ar True S(2) sseg
      by (simp add: st1 extends_def)
    then show ?thesis
      using s inv at cap sp ar True room S(3)
      by (intro exI [of _ t2] exI [of _ a'])
        (simp add: text_insert_def text_boundary_content Let_def flip: t1_def)
  next
    case no: False
    with ar have "a' = a" by (auto dest: append_right_False)
    obtain t3 q where P: "pieces t2 True (length (added t)) (length s) = Some (t3, q)"
      "same_stores t2 t3" "tree_ok (store t1) q" "flat (store t1) q = s"
      using pieces_ok [of "length (added t)" "length s" t2 True] s sseg
      by (auto simp: st2 st1)
    then show ?thesis
      using s inv at cap sp ar no room S \<open>a' = a\<close>
      by (intro exI [of _ t3] exI [of _ "merge a q"])
        (simp add: text_insert_def text_boundary_content Let_def tree_ok_merge flip: t1_def)
  qed
qed

theorem text_insert_ok:
  assumes inv: "text_inv t" and at: "boundary (text_content t) at" and s: "utf8_valid s"
    and room: "length (added t) + length s < size_max"
  shows "\<exists>t'. text_insert t at s = Some (True, t') \<and> text_inv t' \<and>
    text_content t' = splice at 0 s (text_content t) \<and> added t' = added t @ s"
proof (cases "s = []")
  case True
  with assms show ?thesis
    by (simp add: text_insert_def text_boundary_content splice_def)
next
  case False
  let ?z = "length (added t) + length s"
  obtain cap where cap: "(if ?z + 1 > added_cap t
      then grow_cap (if added_cap t \<noteq> 0 then added_cap t else 4096) (?z + 1)
      else Some (added_cap t)) = Some cap" "?z < cap"
    using grow_cap_ok [of "if added_cap t \<noteq> 0 then added_cap t else 4096" "?z + 1"]
    by (cases "?z + 1 > added_cap t"; cases "added_cap t = 0") auto
  define t1 where "t1 = t\<lparr>added := added t @ s, added_cap := cap\<rparr>"
  have "extends (store t) (store t1)" by (simp add: t1_def)
  note ok = tree_ok_extends [OF this text_inv_tree [OF inv]]
  obtain t2 a b where sp: "split t1 (root t) at = (t2, a, b)" by (metis prod_cases3)
  have S: "same_stores t1 t2" "tree_ok (store t1) a" "tree_ok (store t1) b"
    "flat (store t1) a = take at (text_content t)" "flat (store t1) b = drop at (text_content t)"
    using split_ok [OF sp] ok at by (simp_all add: text_content_def)
  obtain t' q where T: "text_insert t at s = Some (True, t'\<lparr>root := merge q b\<rparr>)"
    "tree_ok (store t1) q" "flat (store t1) q = take at (text_content t) @ s" "same_stores t2 t'"
    using text_insert_grows [OF inv at s False room cap(1) sp [unfolded t1_def] S(1,2,4) [unfolded t1_def]] by (auto simp: t1_def)
  let ?t = "t'\<lparr>root := merge q b\<rparr>"
  have st': "store ?t = store t1" using T(4) S(1) by (simp add: same_stores_store)
  have c: "text_content ?t = splice at 0 s (text_content t)"
    using T(3) S(5) unfolding text_content_def st' by (simp add: splice_def text_content_def)
  have ad: "added ?t = added t @ s" and "added_cap ?t = cap" using T(4) S(1) by (auto simp: same_stores_def t1_def)
  moreover have "tree_ok (store ?t) (root ?t)"
    unfolding st' using T(2) S(3) by (simp add: tree_ok_merge)
  moreover have "utf8_valid (text_content ?t)"
    unfolding c using valid_splice [of _ at 0] inv at s by (simp add: text_inv_valid)
  ultimately have "text_inv ?t" using cap(2) by (simp add: text_inv_def)
  with T(1) c ad show ?thesis by blast
qed

theorem text_delete_ok:
  assumes inv: "text_inv t" and at: "boundary (text_content t) at"
    and z: "boundary (text_content t) (at + n)"
  shows "\<exists>t'. text_delete t at n = (True, t') \<and> text_inv t' \<and> added t' = added t \<and>
    text_content t' = splice at n [] (text_content t)"
proof -
  let ?xs = "text_content t"
  have len: "at + n \<le> length ?xs" using z by (simp add: boundary_def)
  obtain t1 a b where s1: "split t (root t) at = (t1, a, b)" by (metis prod_cases3)
  have S1: "same_stores t t1" "tree_ok (store t) a" "tree_ok (store t) b"
    "flat (store t) a = take at ?xs" "flat (store t) b = drop at ?xs"
    using split_ok [OF s1] inv at by (simp_all add: text_inv_tree text_content_def)
  have st1: "store t1 = store t" using S1(1) by (rule same_stores_store)
  obtain t2 b' c where s2: "split t1 b n = (t2, b', c)" by (metis prod_cases3)
  have "boundary (drop at ?xs) n" using z by (auto simp: boundary_def)
  then have S2: "same_stores t1 t2" "tree_ok (store t) c" "flat (store t) c = drop n (drop at ?xs)"
    using split_ok [OF s2] S1 by (simp_all add: st1)
  have st: "same_stores t t2" using S1(1) S2(1) by (rule same_stores_trans)
  let ?t = "t2\<lparr>root := merge a c\<rparr>"
  have st': "store ?t = store t" using st by (simp add: same_stores_store)
  have c: "text_content ?t = splice at n [] ?xs"
    unfolding text_content_def st' using S1(4) S2(3)
    by (simp add: splice_def add.commute text_content_def)
  have "text_inv ?t"
    using inv S1(2) S2(2) valid_splice [OF _ at z, of "[]"] st
    unfolding text_inv_def c st' by (auto simp: tree_ok_merge same_stores_def)
  moreover have "text_delete t at n = (True, ?t)"
    using s1 s2 at z len inv boundary_le [OF at]
    by (simp add: text_delete_def text_size_content text_boundary_content not_less le_diff_conv2)
  moreover have "added ?t = added t" using st by (auto simp: same_stores_def)
  ultimately show ?thesis using c by blast
qed

theorem text_init_ok:
  assumes "utf8_valid s"
  shows "\<exists>t. text_init s = Some t \<and> text_inv t \<and> text_content t = s \<and> added t = []"
proof -
  let ?t = "\<lparr>root = Null, original = s, added = [], added_cap = 0, random = 0x9e3779b9\<rparr>"
  have st: "store ?t False = s" by (simp add: store_def)
  obtain t r where P: "pieces ?t False 0 (length s) = Some (t, r)" "same_stores ?t t"
    "tree_ok (store ?t) r" "flat (store ?t) r = s"
    using pieces_ok [of 0 "length s" ?t False] assms by (auto simp: st)
  then have "store t = store ?t" by (simp add: same_stores_store)
  with P assms show ?thesis
    by (intro exI [of _ "t\<lparr>root := r\<rparr>"])
      (auto simp: text_init_def text_inv_def text_content_def same_stores_def)
qed

subsection \<open>Reading ranges\<close>

lemma seg_append:
  "seg at n (xs @ ys) =
    seg at (min n (length xs - at)) xs @ seg (at - length xs) (n - (length xs - at)) ys"
  by (simp add: seg_def min_def)

lemma seg_past [simp]: "length xs \<le> at \<Longrightarrow> seg at n xs = []"
  by (simp add: seg_def)

lemma pbytes_seg:
  "k + m \<le> plength p \<Longrightarrow> seg (offset p + k) m (st (source p)) = seg k m (pbytes st p)"
  by (simp add: pbytes_def seg_def drop_take min_def add.commute)

lemma pbytes_seg_from:
  "b \<le> at \<Longrightarrow> at - b + m \<le> plength p \<Longrightarrow>
    seg (offset p + at - b) m (st (source p)) = seg (at - b) m (pbytes st p)"
  using pbytes_seg [of "at - b" m p st] by simp

lemma copy_range_flat:
  "tree_ok st q \<Longrightarrow> at + n \<le> nb q \<Longrightarrow> copy_range st q at n = seg at n (flat st q)"
proof (induction q arbitrary: at n)
  case (Node l p r)
  then have ok: "tree_ok st l" "tree_ok st r" "piece_ok st p" "bytes_sum p = nb l + plength p + nb r"
    by auto
  have IHl: "copy_range st l at' n' = seg at' n' (flat st l)" if "at' + n' \<le> nb l" for at' n'
    using Node.IH(1) ok that by blast
  have IHr: "copy_range st r at' n' = seg at' n' (flat st r)" if "at' + n' \<le> nb r" for at' n'
    using Node.IH(2) ok that by blast
  have bound: "at + n \<le> nb l + plength p + nb r" using Node.prems ok by simp
  have 0: "seg 0 0 xs = []" for xs :: bytes by simp
  consider "n = 0" | "n \<noteq> 0" "at < nb l" "at + n \<le> nb l"
    | "at < nb l" "nb l < at + n" "at + n \<le> nb l + plength p"
    | "at < nb l" "nb l + plength p < at + n"
    | "n \<noteq> 0" "nb l \<le> at" "at < nb l + plength p" "at + n \<le> nb l + plength p"
    | "nb l \<le> at" "at < nb l + plength p" "nb l + plength p < at + n"
    | "n \<noteq> 0" "nb l + plength p \<le> at"
    by linarith
  then show ?case
    by cases (use ok bound in \<open>auto simp: seg_append IHl IHr pbytes_seg [where k = 0, simplified]
        pbytes_seg pbytes_seg_from min_def Let_def\<close>)
qed simp

lemma text_copy_ok: "text_inv t \<Longrightarrow> text_copy t at n = seg at n (text_content t)"
  by (auto simp: text_copy_def text_size_content copy_range_flat text_inv_def text_content_def
      text_size_def seg_def)

theorem text_slice_ok: "text_inv t \<Longrightarrow> text_slice t at n = seg at n (text_content t)"
  by (auto simp: text_slice_def Let_def text_copy_ok text_size_content seg_def)

subsection \<open>Lines and characters\<close>

text \<open>The specification of a line's start: the offset after the \<open>line\<close>-th newline.\<close>

fun line_start :: "bytes \<Rightarrow> nat \<Rightarrow> nat" where
  "line_start xs 0 = 0"
| "line_start [] (Suc k) = 0"
| "line_start (c # xs) (Suc k) = Suc (line_start xs (if is_nl c then k else Suc k))"

lemma line_start_le: "line_start xs k \<le> length xs"
  by (induction xs k rule: line_start.induct) auto

lemma line_start_past: "count_nl xs < k \<Longrightarrow> line_start xs k = length xs"
  by (induction xs k rule: line_start.induct) (auto split: if_splits)

lemma line_start_append:
  "line_start (xs @ ys) k =
    (if k \<le> count_nl xs then line_start xs k else length xs + line_start ys (k - count_nl xs))"
  by (induction xs k rule: line_start.induct) (auto split: if_splits)

lemma nl_scan_ok:
  "0 < k \<Longrightarrow> nl_scan xs i k = (if k \<le> count_nl xs then Inr (i + line_start xs k)
     else Inl (k - count_nl xs))"
  by (induction xs i k rule: nl_scan.induct) (auto simp: gr0_conv_Suc split: if_splits)

lemma line_start_loop_ok:
  "tree_ok st q \<Longrightarrow> 0 < k \<Longrightarrow> k \<le> nl q \<Longrightarrow>
    line_start_loop st q k off tsize = off + line_start (flat st q) k"
proof (induction q arbitrary: k off)
  case (Node l p r)
  then have ok: "tree_ok st l" "tree_ok st r" "piece_ok st p" "nl l = count_nl (flat st l)"
    "newlines p = count_nl (pbytes st p)" "k \<le> nl l + newlines p + nl r" "length (flat st l) = nb l"
    "length (pbytes st p) = plength p"
    by (auto simp: sums_flat(2) piece_ok_def)
  show ?case
    using Node.IH ok Node.prems(2)
    by (auto simp: line_start_append nl_scan_ok Let_def)
qed simp

theorem text_line_start_ok: "text_inv t \<Longrightarrow> text_line_start t k = line_start (text_content t) k"
  using line_start_past [of "text_content t" k]
  by (auto simp: text_line_start_def text_lines_def text_inv_def text_content_def
      line_start_loop_ok sums_flat(2) text_size_def)

text \<open>Counting in a prefix.\<close>

lemma prefix_loop_ok:
  "tree_ok st q \<Longrightarrow> at \<le> nb q \<Longrightarrow> prefix_loop st q at ch n =
    n + (if ch then count_chars (take at (flat st q)) else count_nl (take at (flat st q)))"
proof (induction q arbitrary: at n)
  case (Node l p r)
  then have ok: "tree_ok st l" "tree_ok st r" "piece_ok st p" "length (flat st l) = nb l"
    "nl l = count_nl (flat st l)" "nc l = count_chars (flat st l)"
    "newlines p = count_nl (pbytes st p)" "chars p = count_chars (pbytes st p)"
    "length (pbytes st p) = plength p" "at \<le> nb l + plength p + nb r"
    by (auto simp: sums_flat(2,3) piece_ok_def)
  show ?case
    using Node.IH ok by (auto simp: Let_def)
qed simp

theorem text_line_of_ok:
  "text_inv t \<Longrightarrow> at \<le> length (text_content t) \<Longrightarrow>
    text_line_of t at = count_nl (take at (text_content t))"
  by (simp add: text_line_of_def prefix_metric_def text_inv_def text_content_def prefix_loop_ok)

theorem text_byte_to_char_ok:
  "text_inv t \<Longrightarrow> at \<le> length (text_content t) \<Longrightarrow>
    text_byte_to_char t at = count_chars (take at (text_content t))"
  by (simp add: text_byte_to_char_def prefix_metric_def text_inv_def text_content_def prefix_loop_ok)

text \<open>The offset of the \<open>ch\<close>-th character, or the size when there are fewer.\<close>

fun char_offset :: "bytes \<Rightarrow> nat \<Rightarrow> nat" where
  "char_offset [] ch = 0"
| "char_offset (c # s) ch =
     (if is_cont c then Suc (char_offset s ch)
      else if ch = 0 then 0 else Suc (char_offset s (ch - 1)))"

lemma char_scan_offset: "char_scan xs i ch = i + char_offset xs ch"
  by (induction xs i ch rule: char_scan.induct) auto

lemma char_offset_past: "count_chars xs \<le> ch \<Longrightarrow> char_offset xs ch = length xs"
  by (induction xs ch rule: char_offset.induct) (auto split: if_splits)

lemma char_offset_append:
  "char_offset (xs @ ys) ch =
    (if ch < count_chars xs then char_offset xs ch else length xs + char_offset ys (ch - count_chars xs))"
  by (induction xs ch rule: char_offset.induct) (auto split: if_splits)

text \<open>Every piece starts a character, so a tree does.\<close>

lemma tree_hd: "tree_ok st q \<Longrightarrow> flat st q \<noteq> [] \<Longrightarrow> \<not> is_cont (hd (flat st q))"
proof (induction q)
  case (Node l p r)
  have "pbytes st p \<noteq> []"
    using Node.prems(1) length_pbytes [of st p] by (cases "pbytes st p") (auto simp: piece_ok_def)
  with Node show ?case by (cases "flat st l") (auto simp: piece_ok_def)
qed simp

lemma char_offset_0: "xs \<noteq> [] \<Longrightarrow> \<not> is_cont (hd xs) \<Longrightarrow> char_offset xs 0 = 0"
  by (cases xs) auto

lemma char_to_byte_loop_ok:
  "tree_ok st q \<Longrightarrow> char_to_byte_loop st q ch off = off + char_offset (flat st q) ch"
proof (induction q arbitrary: ch off)
  case (Node l p r)
  then have ok: "tree_ok st l" "tree_ok st r" "piece_ok st p" "length (flat st l) = nb l"
    "nc l = count_chars (flat st l)" "chars p = count_chars (pbytes st p)"
    "length (pbytes st p) = plength p"
    by (auto simp: sums_flat(3) piece_ok_def)
  have r0: "char_offset (flat st r) 0 = 0"
    using tree_hd [OF ok(2)] by (cases "flat st r = []") (auto simp: char_offset_0)
  show ?case
    using Node.IH ok char_offset_past [of "pbytes st p" "ch - nc l"]
    by (auto simp: char_offset_append char_scan_offset Let_def r0 le_less)
qed simp

theorem text_char_to_byte_ok:
  "text_inv t \<Longrightarrow> text_char_to_byte t ch = char_offset (text_content t) ch"
  by (simp add: text_char_to_byte_def text_inv_def text_content_def char_to_byte_loop_ok)

subsection \<open>Character motion\<close>

text \<open>The first boundary after \<open>at\<close> and the last one before it.\<close>

lemma next_loop_ok:
  assumes "text_inv t" "at < length (text_content t)"
  shows "let z = next_loop t (length (text_content t)) at in
    at < z \<and> boundary (text_content t) z \<and> (\<forall>i. at < i \<and> i < z \<longrightarrow> is_cont (text_content t ! i))"
  using assms(2)
proof (induction "length (text_content t) - at" arbitrary: at rule: less_induct)
  case less
  let ?n = "length (text_content t)"
  show ?case
  proof (cases "at + 1 < ?n \<and> is_cont (text_byte t (at + 1))")
    case True
    then have c: "is_cont (text_content t ! (at + 1))"
      using text_byte_content [OF assms(1), of "at + 1"] by simp
    have "let z = next_loop t ?n (at + 1) in at + 1 < z \<and> boundary (text_content t) z \<and>
        (\<forall>i. at + 1 < i \<and> i < z \<longrightarrow> is_cont (text_content t ! i))"
      using True by (intro less.hyps) auto
    moreover have "next_loop t ?n at = next_loop t ?n (at + 1)"
      using True by (simp add: next_loop.simps [of t ?n at] Let_def)
    moreover have "is_cont (text_content t ! i)" if "at < i" "i < z"
      "\<forall>i. at + 1 < i \<and> i < z \<longrightarrow> is_cont (text_content t ! i)" for i z
      using that c by (cases "i = at + 1") auto
    ultimately show ?thesis by (auto simp: Let_def)
  next
    case False
    with less.prems show ?thesis
      by (auto simp: next_loop.simps [of t ?n at] Let_def boundary_def text_byte_content [OF assms(1)])
  qed
qed

lemma text_next_ok:
  assumes "text_inv t" "at < text_size t"
  shows "at < text_next t at" "boundary (text_content t) (text_next t at)"
    "\<And>i. at < i \<Longrightarrow> i < text_next t at \<Longrightarrow> \<not> boundary (text_content t) i"
proof -
  have z: "text_next t at = next_loop t (length (text_content t)) at"
    using assms by (simp add: text_next_def Let_def text_size_content)
  note * = next_loop_ok [OF assms(1), of at, unfolded Let_def, folded z]
  show "at < text_next t at" "boundary (text_content t) (text_next t at)"
    using * assms by (auto simp: text_size_content)
  fix i assume i: "at < i" "i < text_next t at"
  then have "i < length (text_content t)"
    using boundary_le [OF \<open>boundary _ (text_next t at)\<close>] by simp
  then show "\<not> boundary (text_content t) i"
    using * assms i by (auto simp: text_size_content boundary_def)
qed

lemma text_next_end: "text_size t \<le> at \<Longrightarrow> text_next t at = text_size t"
  by (simp add: text_next_def)

lemma prev_loop_ok:
  assumes "text_inv t" "0 < at" "at \<le> length (text_content t)"
  shows "let z = prev_loop t at in z < at \<and> boundary (text_content t) z \<and>
    (\<forall>i. z < i \<and> i < at \<longrightarrow> is_cont (text_content t ! i))"
  using assms(2,3)
proof (induction at rule: less_induct)
  case (less at)
  show ?case
  proof (cases "at - 1 \<noteq> 0 \<and> is_cont (text_byte t (at - 1))")
    case True
    then have c: "is_cont (text_content t ! (at - 1))"
      using less.prems by (simp add: text_byte_content [OF assms(1)])
    have "let z = prev_loop t (at - 1) in z < at - 1 \<and> boundary (text_content t) z \<and>
        (\<forall>i. z < i \<and> i < at - 1 \<longrightarrow> is_cont (text_content t ! i))"
      using True less.prems by (intro less.IH) auto
    moreover have "prev_loop t at = prev_loop t (at - 1)"
      using True by (simp add: prev_loop.simps [of t at] Let_def)
    moreover have "is_cont (text_content t ! i)" if "z < i" "i < at"
      "\<forall>i. z < i \<and> i < at - 1 \<longrightarrow> is_cont (text_content t ! i)" for i z
      using that c by (cases "i = at - 1") auto
    ultimately show ?thesis by (auto simp: Let_def)
  next
    case False
    have "boundary (text_content t) (at - 1)"
    proof (cases "at = 1")
      case True
      with text_inv_valid [OF assms(1)] show ?thesis by simp
    next
      case ne: False
      with False less.prems show ?thesis by (auto simp: boundary_def text_byte_content [OF assms(1)])
    qed
    with False less.prems show ?thesis
      by (auto simp: prev_loop.simps [of t at] Let_def)
  qed
qed

lemma text_prev_ok:
  assumes "text_inv t" "0 < at" "at \<le> text_size t"
  shows "text_prev t at < at" "boundary (text_content t) (text_prev t at)"
    "\<And>i. text_prev t at < i \<Longrightarrow> i < at \<Longrightarrow> \<not> boundary (text_content t) i"
proof -
  have z: "text_prev t at = prev_loop t at"
    using assms by (simp add: text_prev_def)
  note * = prev_loop_ok [OF assms(1,2), unfolded Let_def, folded z]
  show "text_prev t at < at" "boundary (text_content t) (text_prev t at)"
    using * assms by (auto simp: text_size_content)
  fix i assume "text_prev t at < i" "i < at"
  with * assms show "\<not> boundary (text_content t) i"
    by (auto simp: text_size_content boundary_def)
qed

lemma text_prev_0 [simp]: "text_prev t 0 = 0"
  by (simp add: text_prev_def)

lemma text_prev_next:
  assumes "text_inv t" "boundary (text_content t) at" "at < text_size t"
  shows "text_prev t (text_next t at) = at"
proof -
  note N = text_next_ok [OF assms(1,3)]
  have "text_next t at \<le> text_size t" using N(2) assms(1) by (simp add: boundary_le text_size_content)
  moreover have "0 < text_next t at" using N(1) by simp
  ultimately have le: "0 < text_next t at" "text_next t at \<le> text_size t" by simp_all
  note P = text_prev_ok [OF assms(1) le]
  show ?thesis
    using N(3) P N(1) assms(2) by (metis linorder_neqE_nat)
qed

lemma text_next_prev:
  assumes "text_inv t" "boundary (text_content t) at" "0 < at"
  shows "text_next t (text_prev t at) = at"
proof -
  have le: "at \<le> text_size t" using assms(1,2) by (simp add: boundary_le text_size_content)
  note P = text_prev_ok [OF assms(1,3) le]
  have "text_prev t at < text_size t" using P(1) le by simp
  note N = text_next_ok [OF assms(1) this]
  show ?thesis
    using N P assms(2) by (metis linorder_neqE_nat)
qed

subsection \<open>Positions in lines and characters\<close>

lemma char_offset_count: "boundary xs at \<Longrightarrow> char_offset xs (count_chars (take at xs)) = at"
proof (induction xs arbitrary: at)
  case (Cons c xs)
  show ?case
  proof (cases at)
    case 0
    with Cons.prems show ?thesis by (simp add: boundary_def)
  next
    case (Suc n)
    with Cons.prems have "boundary xs n" by (auto simp: boundary_def)
    with Cons.IH Suc show ?thesis by auto
  qed
qed (simp add: boundary_def)

lemma count_char_offset: "count_chars (take (char_offset xs ch) xs) = min ch (count_chars xs)"
  by (induction xs ch rule: char_offset.induct) auto

lemma char_offset_boundary: "boundary xs (char_offset xs ch)"
  by (induction xs ch rule: char_offset.induct) (auto simp: boundary_def)

lemma count_line_start: "count_nl (take (line_start xs k) xs) = min k (count_nl xs)"
  by (induction xs k rule: line_start.induct) auto

lemma line_start_count: "at \<le> length xs \<Longrightarrow> line_start xs (count_nl (take at xs)) \<le> at"
proof (induction xs arbitrary: at)
  case (Cons c xs)
  show ?case
  proof (cases at)
    case (Suc n)
    with Cons.prems Cons.IH [of n] show ?thesis by (cases "count_nl (take n xs)") auto
  qed simp
qed simp

lemma line_start_mono: "k \<le> m \<Longrightarrow> line_start xs k \<le> line_start xs m"
proof (induction xs k arbitrary: m rule: line_start.induct)
  case (3 c xs k)
  then show ?case by (cases m) auto
qed auto

lemma line_start_after: "0 < k \<Longrightarrow> k \<le> count_nl xs \<Longrightarrow>
    0 < line_start xs k \<and> is_nl (xs ! (line_start xs k - 1))"
proof (induction xs k rule: line_start.induct)
  case (3 c xs k)
  then show ?case by (cases k; cases "line_start xs (if is_nl c then k else Suc k)") auto
qed auto

lemma nl_not_cont: "is_nl c \<Longrightarrow> \<not> is_cont c"
  by (simp add: is_nl_def)

subsection \<open>Writing\<close>

text \<open>The bytes a write should put on the stream: a CR before every LF when \<open>crlf\<close> is set.\<close>

definition expand_crlf :: "bool \<Rightarrow> bytes \<Rightarrow> bytes" where
  "expand_crlf crlf s = (if crlf then concat (map (\<lambda>c. if is_nl c then [13, c] else [c]) s) else s)"

lemma expand_crlf_simps [simp]:
  "expand_crlf False s = s"
  "expand_crlf crlf [] = []"
  "expand_crlf True (c # s) = (if is_nl c then [13, c] else [c]) @ expand_crlf True s"
  "expand_crlf crlf (s @ t) = expand_crlf crlf s @ expand_crlf crlf t"
  by (simp_all add: expand_crlf_def)

text \<open>Writing \<open>s\<close> to a stream: as much of it as there is room for.\<close>

definition put :: "bytes \<Rightarrow> FILE \<Rightarrow> FILE \<times> bool" where
  "put s f = (f\<lparr>contents := contents f @ take (room f) s, room := room f - length s\<rparr>, length s \<le> room f)"

lemma put_Nil [simp]: "put [] f = (f, True)"
  by (simp add: put_def)

lemma put_append:
  "put (s @ t) f = (let (g, ok) = put s f in if ok then put t g else (g, False))"
  by (auto simp: put_def Let_def)

lemma fputc_put: "fputc c f = put [c] f"
  by (cases "room f") (auto simp: fputc_def put_def)

lemma fwrite_put: "(let (f, k) = fwrite s f in (f, k = length s)) = put s f"
  by (auto simp: fwrite_def put_def Let_def min_def)

lemma write_crlf_put: "write_crlf s f = put (expand_crlf True s) f"
proof (induction s arbitrary: f)
  case (Cons c s)
  have "put (expand_crlf True (c # s)) f =
      (let (g, ok) = put (if is_nl c then [13] else []) f in
       if ok then let (g, ok) = put [c] g in if ok then put (expand_crlf True s) g else (g, False)
       else (g, False))"
    using put_append [of "[13]" "c # expand_crlf True s" f]
    by (simp add: put_append [of "[c]" "expand_crlf True s", simplified] split: prod.split)
  with Cons.IH show ?case by (auto simp: fputc_put split: prod.splits)
qed simp

lemma write_piece_put:
  "tree_ok st q \<Longrightarrow> write_piece st q f crlf = put (expand_crlf crlf (flat st q)) f"
proof (induction q arbitrary: f)
  case (Node l p r)
  have len: "plength p = length (pbytes st p)" using Node.prems by simp
  have "write_piece st l f crlf = put (expand_crlf crlf (flat st l)) f"
    "write_piece st r f crlf = put (expand_crlf crlf (flat st r)) f" for f
    using Node by simp_all
  with fwrite_put [of "pbytes st p"] show ?case
    unfolding write_piece.simps len
    by (cases crlf) (simp_all add: put_append write_crlf_put Let_def split: prod.split)
qed simp

theorem text_write_ok:
  "text_inv t \<Longrightarrow> text_write t f crlf = put (expand_crlf crlf (text_content t)) f"
  by (simp add: text_write_def text_content_def write_piece_put text_inv_tree)

theorem text_check_ok: "text_inv t \<Longrightarrow> text_check t"
  by (simp add: text_check_def text_inv_tree tree_ok_check)


subsection \<open>The store keeps its contract\<close>

lemma text_writer_laws:
  "text_writer text_inv text_content (\<lambda>t. length (added t)) text_insert text_delete"
proof
  show "\<And>t. text_inv t \<Longrightarrow> utf8_valid (text_content t)" by (rule text_inv_valid)
qed (use text_insert_ok text_delete_ok in \<open>fastforce+\<close>)

interpretation ts: text_writer text_inv text_content "\<lambda>t. length (added t)" text_insert text_delete
  by (rule text_writer_laws)

interpretation te: text_editor text_inv text_content "\<lambda>t. length (added t)" text_insert text_delete
    text_size text_slice
  by unfold_locales (simp_all add: text_size_content text_slice_ok)

subsection \<open>Stores reached by the operations\<close>

text \<open>The stores a program can build: any valid text, then any insertions and deletions at character
  boundaries. The bound on the insertion is the code's own overflow guard.\<close>

inductive reachable_text :: "Text \<Rightarrow> bool" where
  init: "utf8_valid s \<Longrightarrow> text_init s = Some t \<Longrightarrow> reachable_text t"
| insert: "reachable_text t \<Longrightarrow> length (added t) + length s < size_max \<Longrightarrow>
    text_insert t at s = Some (ok, t') \<Longrightarrow> reachable_text t'"
| delete: "reachable_text t \<Longrightarrow> text_delete t at n = (ok, t') \<Longrightarrow> reachable_text t'"

lemma text_insert_refused:
  assumes "text_inv t" "\<not> (boundary (text_content t) at \<and> utf8_valid s)"
  shows "text_insert t at s = Some (False, t)"
  using assms by (auto simp: text_insert_def text_boundary_content)

lemma text_delete_refused:
  assumes "text_inv t" "\<not> (boundary (text_content t) at \<and> boundary (text_content t) (at + n))"
  shows "text_delete t at n = (False, t)"
  using assms by (auto simp: text_delete_def text_boundary_content)

lemma reachable_text_inv: "reachable_text t \<Longrightarrow> text_inv t"
proof (induction rule: reachable_text.induct)
  case (init s t)
  then show ?case using text_init_ok by fastforce
next
  case (insert t s at ok t')
  show ?case
  proof (cases "boundary (text_content t) at \<and> utf8_valid s")
    case True
    with insert text_insert_ok [of t at s] show ?thesis by auto
  qed (use insert text_insert_refused in auto)
next
  case (delete t at n ok t')
  show ?case
  proof (cases "boundary (text_content t) at \<and> boundary (text_content t) (at + n)")
    case True
    with delete text_delete_ok [of t at n] show ?thesis by auto
  qed (use delete text_delete_refused in auto)
qed

subsection \<open>A sample text\<close>

text \<open>Two lines, with a two-byte character at offsets 2 and 3.\<close>

definition sample :: bytes where
  "sample = [97, 98, 0xC3, 0xA9, 10, 99, 100]"

definition sample_text :: Text where
  "sample_text = the (text_init sample)"

lemma sample_valid: "utf8_valid sample"
  by code_simp

lemma sample_ok: "text_init sample = Some sample_text" "text_inv sample_text"
  "text_content sample_text = sample" "added sample_text = []"
  using text_init_ok [OF sample_valid] by (auto simp: sample_text_def)

lemma sample_boundary: "boundary sample n \<longleftrightarrow> n \<in> {0, 1, 2, 4, 5, 6, 7}"
proof (cases "n < 8")
  case True
  then consider "n = 0" | "n = 1" | "n = 2" | "n = 3" | "n = 4" | "n = 5" | "n = 6" | "n = 7" by linarith
  then show ?thesis by cases (simp_all add: boundary_def sample_def is_cont_iff)
qed (auto simp: boundary_def sample_def)

lemma sample_room: "length (added sample_text) + n < size_max" if "n < 1000"
  using that by (simp add: sample_ok size_max_def)

subsection \<open>Properties\<close>

text \<open>C2 Insertion refines splicing a byte string: at a character boundary, with valid text and room
  below the size limit, \<open>text_insert\<close> terminates, returns true, keeps the store's invariant, and the
  contents are the old ones with the new bytes at the offset; at any other offset or for invalid text
  it returns false and changes nothing.\<close>

theorem insert_refines_splice:
  assumes "text_inv t" "length (added t) + length s < size_max"
  shows "\<exists>ok t'. text_insert t at s = Some (ok, t') \<and> text_inv t' \<and>
    ok = (boundary (text_content t) at \<and> utf8_valid s) \<and>
    text_content t' = (if ok then splice at 0 s (text_content t) else text_content t)"
  using text_insert_ok [OF assms(1) _ _ assms(2), of at] text_insert_refused [OF assms(1), of at s] assms(1)
  by (cases "boundary (text_content t) at \<and> utf8_valid s") auto

theorem insert_refines_splice_witness:
  "\<exists>t'. text_insert sample_text 4 [120] = Some (True, t') \<and>
     text_content t' = [97, 98, 0xC3, 0xA9, 120, 10, 99, 100]"
proof -
  have "utf8_valid [120]" by code_simp
  then show ?thesis
    using insert_refines_splice [OF sample_ok(2), of "[120]" 4] sample_room [of 1]
    by (auto simp: sample_ok sample_boundary splice_def) (simp add: sample_def)
qed

text \<open>C3 Deletion refines cutting a range out: between two character boundaries \<open>text_delete\<close> returns
  true, keeps the invariant and removes exactly that range; otherwise it returns false and changes nothing.\<close>

theorem delete_refines_splice:
  assumes "text_inv t"
  shows "\<exists>ok t'. text_delete t at n = (ok, t') \<and> text_inv t' \<and>
    ok = (boundary (text_content t) at \<and> boundary (text_content t) (at + n)) \<and>
    text_content t' = (if ok then splice at n [] (text_content t) else text_content t)"
  using text_delete_ok [OF assms, of at n] text_delete_refused [OF assms, of at n] assms
  by (cases "boundary (text_content t) at \<and> boundary (text_content t) (at + n)") auto

theorem delete_refines_splice_witness:
  "\<exists>t'. text_delete sample_text 2 2 = (True, t') \<and> text_content t' = [97, 98, 10, 99, 100]"
  using delete_refines_splice [OF sample_ok(2), of 2 2]
  by (auto simp: sample_ok sample_boundary splice_def) (simp add: sample_def)

text \<open>C38 Every store built from valid text by any sequence of insertions and deletions passes the code's own
  self check \<open>text_check\<close> (treap priorities, per-piece and per-subtree byte, newline and character
  counts) and holds valid UTF-8; no piece exceeds 4096 bytes and none is empty.\<close>

theorem reachable_text_checks:
  assumes "reachable_text t"
  shows "text_check t \<and> utf8_valid (text_content t) \<and> tree_ok (store t) (root t)"
  using reachable_text_inv [OF assms] by (simp add: text_check_ok text_inv_valid text_inv_tree)

theorem reachable_text_checks_witness: "text_check sample_text"
  using reachable_text_checks [OF reachable_text.init [OF sample_valid sample_ok(1)]] by blast

text \<open>Building a store from valid text always terminates and stores that text.\<close>

theorem init_total:
  assumes "utf8_valid s"
  shows "\<exists>t. text_init s = Some t \<and> text_inv t \<and> text_content t = s"
  using text_init_ok [OF assms] by blast

text \<open>Reading is reading the contents: size, single bytes and clipped slices of the tree are those of the
  byte string it stores.\<close>

theorem reads_refine_contents:
  assumes "text_inv t"
  shows "text_size t = length (text_content t) \<and> text_slice t at n = seg at n (text_content t) \<and>
    (at < length (text_content t) \<longrightarrow> text_byte t at = text_content t ! at) \<and>
    text_lines t = count_nl (text_content t) + 1 \<and> text_chars t = count_chars (text_content t)"
  using text_size_content [OF assms] text_slice_ok [OF assms] text_byte_content [OF assms]
    sums_flat(2,3) [OF text_inv_tree [OF assms]]
  by (simp add: text_lines_def text_chars_def text_content_def)

text \<open>The line index: a position lies on the line the code says, at or after that line's start and before
  the start of the next; a line's start follows a newline.\<close>

theorem line_index:
  assumes "text_inv t" "at \<le> text_size t"
  shows "text_line_start t (text_line_of t at) \<le> at \<and> text_line_of t at < text_lines t \<and>
    count_nl (take (text_line_start t k) (text_content t)) = min k (text_lines t - 1) \<and>
    (0 < k \<and> k < text_lines t \<longrightarrow> is_nl (text_byte t (text_line_start t k - 1)))"
proof -
  let ?xs = "text_content t"
  have n: "text_lines t = count_nl ?xs + 1"
    using sums_flat(2) [OF text_inv_tree [OF assms(1)]] by (simp add: text_lines_def text_content_def)
  have at: "at \<le> length ?xs" using assms by (simp add: text_size_content)
  have "count_nl (take at ?xs) \<le> count_nl ?xs"
    using count_nl_simps(3) [of "take at ?xs" "drop at ?xs"] by simp
  moreover have "is_nl (text_byte t (line_start ?xs k - 1))" if "0 < k" "k < text_lines t"
  proof -
    have "0 < line_start ?xs k \<and> is_nl (?xs ! (line_start ?xs k - 1))"
      using that n by (intro line_start_after) simp_all
    moreover have "line_start ?xs k - 1 < length ?xs"
      using calculation line_start_le [of ?xs k] by linarith
    ultimately show ?thesis using text_byte_content [OF assms(1)] by simp
  qed
  ultimately show ?thesis
    using assms(1) at line_start_count [OF at] n
    by (simp add: text_line_start_ok text_line_of_ok count_line_start)
qed

text \<open>Byte and character positions convert both ways: from a character boundary to its character
  number and back, and from a character number in range to its byte offset and back.\<close>

theorem char_byte_round_trip:
  assumes "text_inv t"
  shows "(text_boundary t at \<longrightarrow> text_char_to_byte t (text_byte_to_char t at) = at) \<and>
    (ch \<le> text_chars t \<longrightarrow> text_byte_to_char t (text_char_to_byte t ch) = ch)"
proof -
  let ?xs = "text_content t"
  have n: "text_chars t = count_chars ?xs"
    using sums_flat(3) [OF text_inv_tree [OF assms]] by (simp add: text_chars_def text_content_def)
  have "char_offset ?xs ch \<le> length ?xs" using char_offset_boundary [of ?xs ch] by (simp add: boundary_def)
  then show ?thesis
    using assms n text_byte_to_char_ok [OF assms]
    by (auto simp: text_boundary_content text_char_to_byte_ok char_offset_count count_char_offset boundary_def)
qed

end
