(* ===== verification/Editor_State.thy ===== *)
theory Editor_State
  imports Text_Correct
begin

section \<open>The editor's state (\<open>include/editor.h\<close>)\<close>

text \<open>
  The structs of \<open>editor.h\<close>, field by field. A C array with its count is a list
  (\<open>buffers\<close> with \<open>buffer_count\<close>, \<open>panes\<close> with \<open>pane_count\<close>, \<open>history\<close> with
  \<open>history_len\<close>, \<open>kill_ring\<close> with \<open>kill_count\<close>, \<open>macro_keys\<close> with \<open>macro_len\<close>), and its
  allocated capacity is left out. A \<open>char *\<close> or \<open>char[n]\<close> is the byte string before
  its NUL. The 64-bit counters (\<open>revision\<close>, \<open>state\<close>, \<open>group\<close>, \<open>next_state\<close>,
  \<open>kill_generation\<close>) only ever count up by one and are \<^typ>\<open>nat\<close>. The pointers to Python
  objects have no field: what plugins do is a parameter of the model. A field whose name
  two structs share carries a prefix here (\<open>ed_at\<close>, \<open>pane_point\<close>, \<open>buf_name\<close>).
\<close>

subsection \<open>String literals and formatting\<close>

definition lit :: "string \<Rightarrow> bytes" where
  "lit s = map (\<lambda>c. byte_of (of_char c)) s"

lemma byte_of_char_inj [simp]: "byte_of (of_char c) = byte_of (of_char d) \<longleftrightarrow> c = d"
  using unat_byte_of [OF nat_of_char_less_256, of c] unat_byte_of [OF nat_of_char_less_256, of d]
  by (metis of_char_eq_iff)

lemma lit_inj [simp]: "lit s = lit t \<longleftrightarrow> s = t"
  unfolding lit_def by (rule inj_map_eq_map) (simp add: inj_def)

lemma lit_Nil [simp]: "lit [] = []" "lit s = [] \<longleftrightarrow> s = []" "[] = lit s \<longleftrightarrow> s = []"
  by (auto simp: lit_def)

lemma length_lit [simp]: "length (lit s) = length s"
  by (simp add: lit_def)

text \<open>The digits \<open>%d\<close>, \<open>%ld\<close> and \<open>%zu\<close> print.\<close>

fun show_nat :: "nat \<Rightarrow> bytes" where
  "show_nat n = (if n < 10 then [byte_of (48 + n)]
     else show_nat (n div 10) @ [byte_of (48 + n mod 10)])"

declare show_nat.simps [simp del]

definition show_int :: "int \<Rightarrow> bytes" where
  "show_int i = (if i < 0 then lit ''-'' @ show_nat (nat (- i)) else show_nat (nat i))"

subsection \<open>The structs\<close>

record Edit =
  ed_at :: nat
  removed_len :: nat
  added_len :: nat
  before_point :: nat
  after_point :: nat
  before_mark :: nat
  after_mark :: nat
  ed_removed :: bytes
  ed_added :: bytes
  ed_group :: nat
  before_state :: nat
  after_state :: nat

record Syntax =
  syntax_name :: bytes
  keyword_list :: bytes
  builtin_list :: bytes
  kind :: int \<comment> \<open>0=text, 1=python, 2=C-family, 3=markup, 4=CSS, 5=Jinja\<close>

text \<open>The lexical states of \<open>syntax.c\<close>, one per line start.\<close>

datatype lex_state = NORMAL | SINGLE | DOUBLE | TRIPLE_SINGLE | TRIPLE_DOUBLE | BLOCK_COMMENT
  | HTML_COMMENT | JINJA_COMMENT | BACKTICK

record ColumnCache =
  cache_point :: nat
  cache_column :: nat
  cache_line_start :: nat
  valid :: bool

text \<open>What the code compares of a \<open>struct stat\<close>.\<close>

record Stat =
  st_dev :: nat
  st_ino :: nat
  st_size :: nat
  st_mtim :: "nat \<times> nat"

record Buffer =
  buf_id :: int
  path :: "bytes option" \<comment> \<open>\<open>None\<close> for a null pointer\<close>
  buf_name :: bytes
  buf_text :: Text
  point :: nat
  mark :: nat
  goal :: nat
  has_mark :: bool
  mark_active :: bool
  goal_valid :: bool
  readonly :: bool
  crlf :: bool
  bom :: bool
  revision :: nat
  buf_state :: nat
  saved_state :: nat
  history :: "Edit list"
  history_pos :: nat
  tab_width :: nat
  indent_width :: nat
  auto_indent :: bool
  buf_mode :: bytes
  buf_syntax :: Syntax
  lex_states :: "lex_state list"
  lex_valid :: nat
  column_cache :: ColumnCache
  seek_cache :: ColumnCache
  disk_stat :: Stat
  disk_known :: bool

record Pane =
  pane_buffer :: int
  pane_top :: nat
  pane_left :: nat
  pane_point :: nat

record Binding =
  bind_key :: bytes
  bind_command :: bytes
  bind_mode :: bytes

record Editor =
  buffers :: "Buffer list"
  current :: nat
  next_id :: int
  pending_buffer :: int
  panes :: "Pane list"
  active_pane :: nat
  split_vertical :: bool
  bindings :: "Binding list"
  kill_ring :: "bytes list"
  yank_index :: nat
  kill_generation :: nat
  yank_start :: nat
  yank_end :: nat
  last_kind :: nat \<comment> \<open>1=kill, 2=yank, 3=undo\<close>
  message :: bytes
  last_command :: bytes
  key_prefix :: bytes
  prompt_label :: bytes \<comment> \<open>the field \<open>prompt\<close>\<close>
  prompt_command :: bytes
  input :: bytes
  input_point :: nat
  search_origin :: nat
  search_backward :: bool
  search_failed :: bool
  search_wrapped :: bool
  search_good :: bytes
  last_search :: bytes
  replace_from :: bytes
  replace_to :: bytes
  replace_at :: nat
  prefix_set :: bool
  prefix_digits :: bool
  prefix_negative :: bool
  prefix_value :: int
  group :: nat
  next_state :: nat
  quit :: bool
  detach :: bool
  python_enabled :: bool
  show_line_numbers :: bool
  rows :: int
  cols :: int
  font_size :: int
  font :: bytes
  theme :: bytes
  show_highlight :: bool
  colors :: "nat list"
  command_depth :: nat
  macro_keys :: "bytes list"
  macro_recording :: bool
  macro_playing :: bool

definition CP_MAX_BUFFERS :: nat where "CP_MAX_BUFFERS = 256"
definition CP_KILL_RING :: nat where "CP_KILL_RING = 60"
definition CP_MAX_PANES :: nat where "CP_MAX_PANES = 8"
definition CP_PROMPT_MAX :: nat where "CP_PROMPT_MAX = 4096"

text \<open>
  What the code calls outside \<open>src/\<close>: the hooks plugins registered for an event (with the
  Python API they use), the plugin commands, and the C library's tables for the current locale.
\<close>

record World =
  hook :: "bytes \<Rightarrow> Editor \<Rightarrow> Editor"
  before_save_hook :: "Editor \<Rightarrow> Editor \<times> bool"
  python_command :: "bytes \<Rightarrow> bytes option \<Rightarrow> int \<Rightarrow> Editor \<Rightarrow> (Editor \<times> bool)"
  python_command_names :: "Editor \<Rightarrow> bytes list"
  wcwidth :: "32 word \<Rightarrow> int"
  iswalnum :: "32 word \<Rightarrow> bool"
  towupper :: "32 word \<Rightarrow> 32 word"
  towlower :: "32 word \<Rightarrow> 32 word"
  wcrtomb :: "32 word \<Rightarrow> bytes option"

subsection \<open>Access\<close>

text \<open>
  A \<open>Buffer *\<close> is the index of the buffer in \<open>buffers\<close>; \<open>upd_buf e i f\<close> writes through it.
\<close>

definition editor_buffer :: "Editor \<Rightarrow> Buffer" where
  "editor_buffer e = buffers e ! current e"

definition upd_buf :: "nat \<Rightarrow> (Buffer \<Rightarrow> Buffer) \<Rightarrow> Editor \<Rightarrow> Editor" where
  "upd_buf i f e = e\<lparr>buffers := (buffers e)[i := f (buffers e ! i)]\<rparr>"

abbreviation upd_current :: "(Buffer \<Rightarrow> Buffer) \<Rightarrow> Editor \<Rightarrow> Editor" where
  "upd_current f e \<equiv> upd_buf (current e) f e"

fun find_index :: "('a \<Rightarrow> bool) \<Rightarrow> 'a list \<Rightarrow> nat option" where
  "find_index p [] = None"
| "find_index p (x # xs) = (if p x then Some 0 else map_option Suc (find_index p xs))"

definition editor_by_id :: "Editor \<Rightarrow> int \<Rightarrow> nat option" where
  "editor_by_id e i = find_index (\<lambda>b. buf_id b = i) (buffers e)"

definition editor_message :: "bytes \<Rightarrow> Editor \<Rightarrow> Editor" where
  "editor_message s e = e\<lparr>message := take 2047 s\<rparr>"

definition editor_switch :: "Editor \<Rightarrow> nat \<Rightarrow> Editor" where
  "editor_switch e i = (if i < length (buffers e)
     then e\<lparr>current := i, panes := (panes e)[active_pane e :=
            (panes e ! active_pane e)\<lparr>pane_buffer := buf_id (buffers e ! i)\<rparr>]\<rparr>
     else e)"

definition plugins_event :: "World \<Rightarrow> Editor \<Rightarrow> bytes \<Rightarrow> Editor" where
  "plugins_event w e name = (if \<not> python_enabled e then e else hook w name e)"

definition plugins_before_save :: "World \<Rightarrow> Editor \<Rightarrow> Editor \<times> bool" where
  "plugins_before_save w e = (if \<not> python_enabled e then (e, True) else before_save_hook w e)"

definition plugins_command :: "World \<Rightarrow> Editor \<Rightarrow> bytes \<Rightarrow> bytes option \<Rightarrow> int \<Rightarrow> Editor \<times> bool" where
  "plugins_command w e name arg count =
     (if \<not> python_enabled e then (e, False) else python_command w name arg count e)"

subsection \<open>Creating buffers\<close>

definition blank_buffer :: "int \<Rightarrow> bytes \<Rightarrow> Text \<Rightarrow> Buffer" where
  "blank_buffer i name t = \<lparr>buf_id = i, path = None, buf_name = name, buf_text = t, point = 0, mark = 0,
     goal = 0, has_mark = False, mark_active = False, goal_valid = False, readonly = False,
     crlf = False, bom = False, revision = 0, buf_state = 0, saved_state = 0, history = [],
     history_pos = 0, tab_width = 4, indent_width = 4, auto_indent = False,
     buf_mode = lit ''fundamental-mode'',
     buf_syntax = \<lparr>syntax_name = lit ''text'', keyword_list = [], builtin_list = [], kind = 0\<rparr>,
     lex_states = [], lex_valid = 0,
     column_cache = \<lparr>cache_point = 0, cache_column = 0, cache_line_start = 0, valid = False\<rparr>,
     seek_cache = \<lparr>cache_point = 0, cache_column = 0, cache_line_start = 0, valid = False\<rparr>,
     disk_stat = \<lparr>st_dev = 0, st_ino = 0, st_size = 0, st_mtim = (0, 0)\<rparr>, disk_known = False\<rparr>"

text \<open>The new buffer's index, or no index when the table is full.\<close>

definition editor_new_buffer :: "Editor \<Rightarrow> bytes \<Rightarrow> (Editor \<times> nat option) option" where
  "editor_new_buffer e name =
     (if length (buffers e) \<ge> CP_MAX_BUFFERS
      then Some (editor_message (lit ''Buffer limit reached'') e, None)
      else do {
        t \<leftarrow> text_init [];
        let i = next_id e + 1;
        Some (e\<lparr>next_id := i, buffers := buffers e @ [blank_buffer i name t]\<rparr>, Some (length (buffers e))) })"

text \<open>\<open>editor_drop_buffer\<close> for the buffer at index \<open>i\<close>: panes that show it are moved to the first other buffer.\<close>

definition leave_panes :: "int \<Rightarrow> Buffer \<Rightarrow> Pane list \<Rightarrow> Pane list" where
  "leave_panes i fallback = map (\<lambda>p. if pane_buffer p = i
     then p\<lparr>pane_buffer := buf_id fallback, pane_point := point fallback, pane_top := 0, pane_left := 0\<rparr> else p)"

definition remove_index :: "nat \<Rightarrow> 'a list \<Rightarrow> 'a list" where
  "remove_index i xs = take i xs @ drop (i + 1) xs"

definition editor_drop_buffer :: "Editor \<Rightarrow> nat \<Rightarrow> Editor option" where
  "editor_drop_buffer e i = do {
     e \<leftarrow> (if length (buffers e) = 1 then map_option fst (editor_new_buffer e (lit ''*scratch*'')) else Some e);
     if i = 0 \<and> length (buffers e) \<le> 1 then Some e
     else
       let fallback = (if i = 0 then 1 else 0);
           selected = (if current e = i then fallback else current e);
           e = e\<lparr>panes := leave_panes (buf_id (buffers e ! i)) (buffers e ! fallback) (panes e),
                 buffers := remove_index i (buffers e)\<rparr>
       in Some (editor_switch e (if i < selected then selected - 1 else selected)) }"

subsection \<open>Key bindings and the initial state\<close>

definition builtin_names :: "string list" where
  "builtin_names = [
     ''backward-char'', ''backward-delete-char-untabify'', ''backward-kill-word'', ''backward-word'',
     ''beginning-of-buffer'', ''beginning-of-line'', ''copy-region-as-kill'', ''delete-char'',
     ''delete-horizontal-space'', ''delete-other-windows'', ''delete-window'',
     ''display-line-numbers-mode'', ''downcase-word'', ''end-of-buffer'', ''end-of-line'',
     ''exchange-point-and-mark'', ''execute-extended-command'', ''find-file'', ''force-save-buffer'',
     ''forward-char'', ''forward-word'', ''goto-char'', ''goto-line'', ''indent-for-tab-command'',
     ''isearch-backward'', ''isearch-forward'', ''keyboard-quit'', ''kill-buffer'', ''kill-emacs'',
     ''kill-line'', ''kill-region'', ''kill-word'', ''list-buffers'', ''mark-whole-buffer'', ''newline'',
     ''newline-and-indent'', ''next-buffer'', ''next-line'', ''open-line'', ''other-window'',
     ''previous-buffer'', ''previous-line'', ''query-replace'', ''recenter-top-bottom'', ''redo'',
     ''replace-string'', ''save-buffer'', ''save-buffers-kill-terminal'', ''scroll-down-command'',
     ''scroll-up-command'', ''set-mark-command'', ''split-window-below'', ''split-window-right'',
     ''switch-to-buffer'', ''text-scale-decrease'', ''text-scale-increase'', ''toggle-read-only'',
     ''transpose-chars'', ''undo'', ''undo-only'', ''undo-redo'', ''universal-argument'', ''upcase-word'',
     ''write-file'', ''yank'', ''yank-pop'', ''start-kbd-macro'', ''end-kbd-macro'',
     ''call-last-kbd-macro'', ''describe-bindings'', ''describe-mode'', ''detach-client'',
     ''capitalize-word'']"

definition editor_bind :: "Editor \<Rightarrow> bytes \<Rightarrow> bytes \<Rightarrow> bytes \<Rightarrow> Editor" where
  "editor_bind e key command mode =
     (if length key \<ge> 100 \<or> length command \<ge> 100 \<or> length mode \<ge> 80 then e
      else case find_index (\<lambda>b. bind_key b = key \<and> bind_mode b = mode) (bindings e) of
        Some i \<Rightarrow> e\<lparr>bindings := (bindings e)[i := (bindings e ! i)\<lparr>bind_command := command\<rparr>]\<rparr>
      | None \<Rightarrow> e\<lparr>bindings := bindings e @ [\<lparr>bind_key = key, bind_command = command, bind_mode = mode\<rparr>]\<rparr>)"

definition default_pairs :: "(string \<times> string) list" where
  "default_pairs = [
     (''C-f'', ''forward-char''), (''C-b'', ''backward-char''), (''C-p'', ''previous-line''),
     (''C-n'', ''next-line''), (''C-a'', ''beginning-of-line''), (''C-e'', ''end-of-line''),
     (''M-f'', ''forward-word''), (''M-b'', ''backward-word''), (''M-<'', ''beginning-of-buffer''),
     (''M->'', ''end-of-buffer''), (''C-d'', ''delete-char''), (''DEL'', ''backward-delete-char-untabify''),
     (''<delete>'', ''delete-char''), (''M-d'', ''kill-word''), (''M-DEL'', ''backward-kill-word''),
     (''C-k'', ''kill-line''), (''C-w'', ''kill-region''), (''M-w'', ''copy-region-as-kill''),
     (''C-y'', ''yank''), (''M-y'', ''yank-pop''), (''C-SPC'', ''set-mark-command''),
     (''C-@'', ''set-mark-command''), (''C-x h'', ''mark-whole-buffer''),
     (''C-x C-x'', ''exchange-point-and-mark''), (''RET'', ''newline''),
     (''TAB'', ''indent-for-tab-command''), (''C-o'', ''open-line''), (''C-j'', ''newline-and-indent''),
     (''C-t'', ''transpose-chars''), (''M-'' @ [CHR 0x5C], ''delete-horizontal-space''), (''C-/'', ''undo''),
     (''C-_'', ''undo''), (''C-x u'', ''undo''), (''C-?'', ''undo-redo''), (''C-s'', ''isearch-forward''),
     (''C-r'', ''isearch-backward''), (''M-%'', ''query-replace''), (''M-g g'', ''goto-line''),
     (''M-g M-g'', ''goto-line''), (''M-x'', ''execute-extended-command''), (''C-x C-f'', ''find-file''),
     (''C-x C-s'', ''save-buffer''), (''C-x C-w'', ''write-file''),
     (''C-x C-c'', ''save-buffers-kill-terminal''), (''C-x b'', ''switch-to-buffer''),
     (''C-x k'', ''kill-buffer''), (''C-x C-b'', ''list-buffers''), (''C-x <right>'', ''next-buffer''),
     (''C-x <left>'', ''previous-buffer''), (''C-x 2'', ''split-window-below''),
     (''C-x 3'', ''split-window-right''), (''C-x 0'', ''delete-window''),
     (''C-x 1'', ''delete-other-windows''), (''C-x o'', ''other-window''),
     (''C-x C-q'', ''toggle-read-only''), (''C-v'', ''scroll-up-command''),
     (''M-v'', ''scroll-down-command''), (''C-l'', ''recenter-top-bottom''), (''C-g'', ''keyboard-quit''),
     (''C-u'', ''universal-argument''), (''M-u'', ''upcase-word''), (''M-l'', ''downcase-word''),
     (''M-c'', ''capitalize-word''), (''<left>'', ''backward-char''), (''<right>'', ''forward-char''),
     (''<up>'', ''previous-line''), (''<down>'', ''next-line''), (''<home>'', ''beginning-of-line''),
     (''<end>'', ''end-of-line''), (''<prior>'', ''scroll-down-command''),
     (''<next>'', ''scroll-up-command''), (''C-x ('', ''start-kbd-macro''), (''C-x )'', ''end-kbd-macro''),
     (''C-x e'', ''call-last-kbd-macro''), (''C-h b'', ''describe-bindings''),
     (''C-h m'', ''describe-mode''), (''C-x +'', ''text-scale-increase''),
     (''C-x -'', ''text-scale-decrease'')]"

definition editor_default_bindings :: "Editor \<Rightarrow> Editor" where
  "editor_default_bindings e = foldl (\<lambda>e (k, c). editor_bind e (lit k) (lit c) []) e default_pairs"

definition editor_command_names :: "World \<Rightarrow> Editor \<Rightarrow> bytes list" where
  "editor_command_names w e = map lit builtin_names @ python_command_names w e"

text \<open>What \<open>memset\<close> and the assignments of \<open>editor_init\<close> leave before the scratch buffer is made.\<close>

definition blank_editor :: Editor where
  "blank_editor = \<lparr>buffers = [], current = 0, next_id = 0, pending_buffer = 0,
     panes = [\<lparr>pane_buffer = 0, pane_top = 0, pane_left = 0, pane_point = 0\<rparr>], active_pane = 0,
     split_vertical = False, bindings = [], kill_ring = [], yank_index = 0, kill_generation = 0,
     yank_start = 0, yank_end = 0, last_kind = 0, message = [], last_command = [], key_prefix = [],
     prompt_label = [], prompt_command = [], input = [], input_point = 0, search_origin = 0,
     search_backward = False, search_failed = False, search_wrapped = False, search_good = [],
     last_search = [], replace_from = [], replace_to = [], replace_at = 0, prefix_set = False,
     prefix_digits = False, prefix_negative = False, prefix_value = 0, group = 0, next_state = 0,
     quit = False, detach = False, python_enabled = False, show_line_numbers = False, rows = 24, cols = 80,
     font_size = 16, font = lit ''fixed'', theme = lit ''default'', show_highlight = True,
     colors = [0xd9e1eb, 0x15191f, 0x748292, 0xffca85, 0xb6dc86, 0xe699e6, 0x86c9ed, 0xe89d8b, 0x365070, 0x222a35],
     command_depth = 0, macro_keys = [], macro_recording = False, macro_playing = False\<rparr>"

definition editor_init :: "Editor option" where
  "editor_init = do {
     (e, i) \<leftarrow> editor_new_buffer blank_editor (lit ''*scratch*'');
     let e = e\<lparr>panes := (panes e)[0 := (panes e ! 0)\<lparr>pane_buffer := buf_id (buffers e ! the i)\<rparr>]\<rparr>;
         e = editor_default_bindings e
     in Some (editor_message
          (lit ''cpymacs | C-x C-f open | C-x C-s save | C-x C-c quit | M-x commands'') e) }"

text \<open>No plugins and an ASCII locale: the instance the examples run in.\<close>

definition sample_world :: World where
  "sample_world = \<lparr>hook = (\<lambda>_ e. e), before_save_hook = (\<lambda>e. (e, True)),
     python_command = (\<lambda>_ _ _ e. (e, False)), python_command_names = (\<lambda>_. []), wcwidth = (\<lambda>c. if c < 32 \<or> c = 127 then -1 else 1),
     iswalnum = (\<lambda>c. 48 \<le> c \<and> c \<le> 57 \<or> 65 \<le> c \<and> c \<le> 90 \<or> 97 \<le> c \<and> c \<le> 122),
     towupper = (\<lambda>c. if 97 \<le> c \<and> c \<le> 122 then c - 32 else c),
     towlower = (\<lambda>c. if 65 \<le> c \<and> c \<le> 90 then c + 32 else c),
     wcrtomb = (\<lambda>c. if c < 128 then Some [ucast c] else None)\<rparr>"

subsection \<open>First lemmas\<close>

lemma find_index_Some:
  "find_index p xs = Some i \<Longrightarrow> i < length xs \<and> p (xs ! i) \<and> (\<forall>j < i. \<not> p (xs ! j))"
proof (induction xs arbitrary: i)
  case (Cons x xs)
  then show ?case by (auto simp: nth_Cons split: if_splits nat.split)
qed simp

lemma find_index_None: "find_index p xs = None \<longleftrightarrow> (\<forall>x \<in> set xs. \<not> p x)"
  by (induction xs) auto

lemma editor_buffer_upd [simp]:
  "current e < length (buffers e) \<Longrightarrow> editor_buffer (upd_current f e) = f (editor_buffer e)"
  by (simp add: editor_buffer_def upd_buf_def)

lemma upd_buf_simps [simp]:
  "current (upd_buf i f e) = current e"
  "length (buffers (upd_buf i f e)) = length (buffers e)"
  "panes (upd_buf i f e) = panes e"
  "active_pane (upd_buf i f e) = active_pane e"
  "python_enabled (upd_buf i f e) = python_enabled e"
  "next_state (upd_buf i f e) = next_state e"
  "group (upd_buf i f e) = group e"
  by (simp_all add: upd_buf_def)

lemma upd_buf_twice: "upd_buf i f (upd_buf i g e) = upd_buf i (f \<circ> g) e"
  by (cases "i < length (buffers e)") (simp_all add: upd_buf_def list_update_beyond)

end
