(* ===== verification/Buffer_Edits.thy ===== *)
theory Buffer_Edits
  imports Editor_State
begin

section \<open>Edits and their history (\<open>src/buffer.c\<close>, \<open>undo\<close> in \<open>src/commands.c\<close>)\<close>

subsection \<open>The code\<close>

definition editor_lex_invalidate :: "nat \<Rightarrow> Buffer \<Rightarrow> Buffer" where
  "editor_lex_invalidate at b =
     (let b = (if at < cache_point (column_cache b)
               then b\<lparr>column_cache := (column_cache b)\<lparr>valid := False\<rparr>\<rparr> else b);
          b = (if at < cache_point (seek_cache b)
               then b\<lparr>seek_cache := (seek_cache b)\<lparr>valid := False\<rparr>\<rparr> else b);
          row = text_line_of (buf_text b) at
      in if lex_valid b > row + 1 then b\<lparr>lex_valid := row + 1\<rparr> else b)"

definition relocate :: "nat \<Rightarrow> nat \<Rightarrow> nat \<Rightarrow> nat \<Rightarrow> bool \<Rightarrow> nat" where
  "relocate pt at rem add right =
     (if pt < at \<or> (pt = at \<and> \<not> right) then pt
      else if pt \<le> at + rem then at + add
      else pt - rem + add)"

text \<open>The body of \<open>editor_replace\<close> after its checks, on the buffer; \<open>st\<close> is the new state number.\<close>

definition replace_in :: "nat \<Rightarrow> nat \<Rightarrow> bytes \<Rightarrow> nat \<Rightarrow> nat \<Rightarrow> Buffer \<Rightarrow> Buffer option" where
  "replace_in at count s grp st b =
     (let b = b\<lparr>history := take (history_pos b) (history b)\<rparr>;
          n = length s;
          d = \<lparr>ed_at = at, removed_len = count, added_len = n, before_point = point b, after_point = 0,
               before_mark = mark b, after_mark = 0, ed_removed = text_slice (buf_text b) at count,
               ed_added = s, ed_group = grp, before_state = buf_state b, after_state = st\<rparr>;
          b = editor_lex_invalidate at b;
          b = b\<lparr>buf_text := snd (text_delete (buf_text b) at count)\<rparr>
      in do {
        (_, t) \<leftarrow> text_insert (buf_text b) at s;
        let b = b\<lparr>buf_text := t, point := relocate (point b) at count n True,
                  mark := relocate (mark b) at count n False\<rparr>;
            d = d\<lparr>after_point := point b, after_mark := mark b\<rparr>;
            b = b\<lparr>history := history b @ [d], buf_state := after_state d, revision := revision b + 1\<rparr>;
            b = b\<lparr>history_pos := length (history b), mark_active := False, goal_valid := False\<rparr>
        in Some b })"

definition editor_replace :: "World \<Rightarrow> Editor \<Rightarrow> nat \<Rightarrow> nat \<Rightarrow> bytes \<Rightarrow> (Editor \<times> bool) option" where
  "editor_replace w e at count s =
     (let b = editor_buffer e; size = text_size (buf_text b) in
      if readonly b then Some (editor_message (lit ''Buffer is read-only'') e, False)
      else if at > size \<or> count > size - at \<or> \<not> text_boundary (buf_text b) at \<or>
              \<not> text_boundary (buf_text b) (at + count) \<or> \<not> utf8_valid s
      then Some (editor_message (lit ''Invalid UTF-8 edit or byte boundary'') e, False)
      else if count = 0 \<and> s = [] then Some (e, True)
      else do {
        let e = e\<lparr>next_state := next_state e + 1\<rparr>;
        b \<leftarrow> replace_in at count s (group e) (next_state e) b;
        Some (plugins_event w (upd_current (\<lambda>_. b) e) (lit ''text_changed''), True) })"

definition editor_insert :: "World \<Rightarrow> Editor \<Rightarrow> bytes \<Rightarrow> (Editor \<times> bool) option" where
  "editor_insert w e s = editor_replace w e (point (editor_buffer e)) 0 s"

text \<open>The four loops of \<open>editor_set_text\<close>.\<close>

fun common_head :: "bytes \<Rightarrow> bytes \<Rightarrow> nat" where
  "common_head (x # old) (y # s) = (if x = y then Suc (common_head old s) else 0)"
| "common_head _ _ = 0"

fun head_back :: "bytes \<Rightarrow> nat \<Rightarrow> nat" where
  "head_back s 0 = 0"
| "head_back s (Suc h) = (if Suc h < length s \<and> is_cont (s ! Suc h) then head_back s h else Suc h)"

definition common_tail :: "bytes \<Rightarrow> bytes \<Rightarrow> nat \<Rightarrow> nat" where
  "common_tail old s head = common_head (rev (drop head old)) (rev (drop head s))"

fun tail_back :: "bytes \<Rightarrow> nat \<Rightarrow> nat" where
  "tail_back s 0 = 0"
| "tail_back s (Suc k) = (if is_cont (s ! (length s - Suc k)) then tail_back s k else Suc k)"

definition editor_set_text :: "World \<Rightarrow> Editor \<Rightarrow> bytes \<Rightarrow> (Editor \<times> bool) option" where
  "editor_set_text w e s =
     (let b = editor_buffer e; size = text_size (buf_text b); n = length s in
      if \<not> utf8_valid s
      then Some (editor_message (lit ''Text must be UTF-8 without NUL bytes'') e, False)
      else
        let old = text_slice (buf_text b) 0 size;
            head = head_back s (common_head old s);
            tail = tail_back s (common_tail old s head)
        in if head = size \<and> head = n then Some (e, True)
           else editor_replace w e head (size - head - tail) (seg head (n - head - tail) s))"

text \<open>\<open>undo\<close>: one entry, then the entries of the same group.\<close>

definition undo_one :: "bool \<Rightarrow> Buffer \<Rightarrow> Buffer option" where
  "undo_one redo b =
     (let d = history b ! (if redo then history_pos b else history_pos b - 1);
          b = editor_lex_invalidate (ed_at d) b;
          b = b\<lparr>buf_text := snd (text_delete (buf_text b) (ed_at d)
                                  (if redo then removed_len d else added_len d))\<rparr>
      in do {
        (_, t) \<leftarrow> text_insert (buf_text b) (ed_at d) (if redo then ed_added d else ed_removed d);
        Some (b\<lparr>buf_text := t,
          point := (if redo then after_point d else before_point d),
          mark := (if redo then after_mark d else before_mark d),
          buf_state := (if redo then after_state d else before_state d),
          history_pos := (if redo then history_pos b + 1 else history_pos b - 1),
          revision := revision b + 1\<rparr>) })"

definition can_undo :: "bool \<Rightarrow> Buffer \<Rightarrow> bool" where
  "can_undo redo b \<longleftrightarrow> (if redo then history_pos b < length (history b) else history_pos b > 0)"

definition next_group :: "bool \<Rightarrow> Buffer \<Rightarrow> nat" where
  "next_group redo b = ed_group (history b ! (if redo then history_pos b else history_pos b - 1))"

definition undo_left :: "bool \<Rightarrow> Buffer \<Rightarrow> nat" where
  "undo_left redo b = (if redo then length (history b) - history_pos b else history_pos b)"

lemma lex_invalidate_simps [simp]:
  "history (editor_lex_invalidate at b) = history b"
  "history_pos (editor_lex_invalidate at b) = history_pos b"
  "buf_text (editor_lex_invalidate at b) = buf_text b"
  "point (editor_lex_invalidate at b) = point b"
  "mark (editor_lex_invalidate at b) = mark b"
  "buf_state (editor_lex_invalidate at b) = buf_state b"
  "saved_state (editor_lex_invalidate at b) = saved_state b"
  "readonly (editor_lex_invalidate at b) = readonly b"
  "revision (editor_lex_invalidate at b) = revision b"
  "buf_id (editor_lex_invalidate at b) = buf_id b"
  by (simp_all add: editor_lex_invalidate_def Let_def)

lemma undo_one_left:
  "can_undo redo b \<Longrightarrow> undo_one redo b = Some b' \<Longrightarrow> undo_left redo b' < undo_left redo b"
  by (auto simp: undo_one_def can_undo_def undo_left_def Let_def split: bind_splits if_splits)

text \<open>The \<open>do ... while\<close> runs \<open>undo_one\<close> once before it tests.\<close>

function undo_group :: "bool \<Rightarrow> nat \<Rightarrow> Buffer \<Rightarrow> Buffer option" where
  "undo_group redo grp b =
     (if \<not> can_undo redo b then None
      else case undo_one redo b of None \<Rightarrow> None
        | Some b \<Rightarrow> if can_undo redo b \<and> next_group redo b = grp then undo_group redo grp b else Some b)"
  by pat_completeness auto
termination
  by (relation "measure (\<lambda>(redo, grp, b). undo_left redo b)") (auto dest: undo_one_left)

declare undo_group.simps [simp del]

fun undo_loop :: "bool \<Rightarrow> nat \<Rightarrow> Buffer \<Rightarrow> (Buffer \<times> bool) option" where
  "undo_loop redo 0 b = Some (b, True)"
| "undo_loop redo (Suc n) b =
     (if \<not> can_undo redo b then Some (b, False)
      else do { b \<leftarrow> undo_group redo (next_group redo b) b; undo_loop redo n b })"

definition undo :: "World \<Rightarrow> Editor \<Rightarrow> bool \<Rightarrow> int \<Rightarrow> (Editor \<times> bool) option" where
  "undo w e redo n =
     (let b = editor_buffer e in
      if readonly b then Some (editor_message (lit ''Buffer is read-only'') e, False)
      else
        let (redo, n) = (if n < 0 then (\<not> redo, - n) else (redo, n)) in do {
          (b, ok) \<leftarrow> undo_loop redo (nat n) b;
          let e' = upd_current (\<lambda>_. b) e;
          if \<not> ok then Some (editor_message (lit (if redo then ''No further redo information''
                                                  else ''No further undo information'')) e', False)
          else
            let e' = upd_current (\<lambda>b. b\<lparr>mark_active := False\<rparr>) e';
                e' = plugins_event w e' (lit ''text_changed'')
            in Some (editor_message (lit (if redo then ''Redo'' else ''Undo'')) e', True) })"


subsection \<open>Histories\<close>

text \<open>A version of the buffer is its state number and its contents; an entry of the history
  leads from one version to the next.\<close>

abbreviation content :: "Buffer \<Rightarrow> bytes" where
  "content b \<equiv> text_content (buf_text b)"

definition apply_edit :: "Edit \<Rightarrow> bytes \<Rightarrow> bytes" where
  "apply_edit d xs = splice (ed_at d) (removed_len d) (ed_added d) xs"

definition unapply_edit :: "Edit \<Rightarrow> bytes \<Rightarrow> bytes" where
  "unapply_edit d xs = splice (ed_at d) (added_len d) (ed_removed d) xs"

definition edit_ok :: "Edit \<Rightarrow> bytes \<Rightarrow> bool" where
  "edit_ok d xs \<longleftrightarrow> utf8_valid xs \<and> boundary xs (ed_at d) \<and> boundary xs (ed_at d + removed_len d) \<and>
     seg (ed_at d) (removed_len d) xs = ed_removed d \<and> added_len d = length (ed_added d) \<and>
     utf8_valid (ed_added d) \<and> boundary xs (before_point d) \<and> boundary xs (before_mark d) \<and>
     boundary (apply_edit d xs) (after_point d) \<and> boundary (apply_edit d xs) (after_mark d)"

type_synonym version = "nat \<times> bytes"

definition advance :: "version \<Rightarrow> Edit \<Rightarrow> version" where
  "advance v d = (after_state d, apply_edit d (snd v))"

fun chain :: "version \<Rightarrow> Edit list \<Rightarrow> bool" where
  "chain v [] = True"
| "chain v (d # ds) \<longleftrightarrow> edit_ok d (snd v) \<and> before_state d = fst v \<and> chain (advance v d) ds"

text \<open>The version the history starts from: the present one with every entry before
  \<open>history_pos\<close> taken back.\<close>

definition retreat :: "Edit \<Rightarrow> version \<Rightarrow> version" where
  "retreat d v = (before_state d, unapply_edit d (snd v))"

definition origin :: "Buffer \<Rightarrow> version" where
  "origin b = foldr retreat (take (history_pos b) (history b)) (buf_state b, content b)"

definition version :: "Buffer \<Rightarrow> nat \<Rightarrow> version" where
  "version b k = foldl advance (origin b) (take k (history b))"

definition history_inv :: "Buffer \<Rightarrow> bool" where
  "history_inv b \<longleftrightarrow> history_pos b \<le> length (history b) \<and> chain (origin b) (history b) \<and>
     version b (history_pos b) = (buf_state b, content b)"

definition buf_inv :: "Buffer \<Rightarrow> bool" where
  "buf_inv b \<longleftrightarrow> text_inv (buf_text b) \<and> boundary (content b) (point b) \<and>
     boundary (content b) (mark b) \<and> history_inv b"

lemma edit_ok_unapply: "edit_ok d xs \<Longrightarrow> unapply_edit d (apply_edit d xs) = xs"
  using boundary_le [of xs "ed_at d + removed_len d"] splice_inverse [of "ed_at d" "removed_len d" xs "ed_added d"]
  by (simp add: edit_ok_def unapply_edit_def apply_edit_def)

lemma chain_append: "chain v (a @ b) \<longleftrightarrow> chain v a \<and> chain (foldl advance v a) b"
  by (induction a arbitrary: v) auto

interpretation edits: reversible "\<lambda>d v. edit_ok d (snd v) \<and> before_state d = fst v" advance retreat
  by unfold_locales (simp add: advance_def retreat_def edit_ok_unapply prod_eq_iff)

lemma chain_nth:
  "chain v ds \<Longrightarrow> k < length ds \<Longrightarrow>
     edit_ok (ds ! k) (snd (foldl advance v (take k ds))) \<and> before_state (ds ! k) = fst (foldl advance v (take k ds))"
  using chain_append [of v "take k ds" "ds ! k # drop (Suc k) ds"] id_take_nth_drop [of k ds] by simp

lemma chain_rewind: "chain v ds \<Longrightarrow> foldr retreat ds (foldl advance v ds) = v"
  by (rule edits.rewind) (simp add: chain_nth)

text \<open>A chain through the buffer's present version is the buffer's history.\<close>

lemma history_invI:
  assumes "chain v (history b)" "history_pos b \<le> length (history b)"
    "foldl advance v (take (history_pos b) (history b)) = (buf_state b, content b)"
  shows "history_inv b" "origin b = v"
proof -
  have "chain v (take (history_pos b) (history b))"
    using assms(1) chain_append [of v "take (history_pos b) (history b)" "drop (history_pos b) (history b)"]
    by simp
  then show "origin b = v"
    using chain_rewind [of v "take (history_pos b) (history b)"] assms(3) by (simp add: origin_def)
  with assms show "history_inv b" by (simp add: history_inv_def version_def)
qed

text \<open>None of this depends on the point, the mark, the goal column or the flags.\<close>

lemma origin_fields [simp]:
  "origin (b\<lparr>point := x\<rparr>) = origin b" "origin (b\<lparr>mark := x\<rparr>) = origin b"
  "origin (b\<lparr>goal := x\<rparr>) = origin b" "origin (b\<lparr>goal_valid := f\<rparr>) = origin b"
  "origin (b\<lparr>has_mark := f\<rparr>) = origin b" "origin (b\<lparr>mark_active := f\<rparr>) = origin b"
  "origin (b\<lparr>readonly := f\<rparr>) = origin b" "origin (b\<lparr>saved_state := x\<rparr>) = origin b"
  by (simp_all add: origin_def)

lemma version_fields [simp]:
  "version (b\<lparr>point := x\<rparr>) = version b" "version (b\<lparr>mark := x\<rparr>) = version b"
  "version (b\<lparr>goal := x\<rparr>) = version b" "version (b\<lparr>goal_valid := f\<rparr>) = version b"
  "version (b\<lparr>has_mark := f\<rparr>) = version b" "version (b\<lparr>mark_active := f\<rparr>) = version b"
  "version (b\<lparr>readonly := f\<rparr>) = version b" "version (b\<lparr>saved_state := x\<rparr>) = version b"
  by (simp_all add: version_def fun_eq_iff)

lemma history_inv_fields [simp]:
  "history_inv (b\<lparr>point := x\<rparr>) = history_inv b" "history_inv (b\<lparr>mark := x\<rparr>) = history_inv b"
  "history_inv (b\<lparr>goal := x\<rparr>) = history_inv b" "history_inv (b\<lparr>goal_valid := f\<rparr>) = history_inv b"
  "history_inv (b\<lparr>has_mark := f\<rparr>) = history_inv b" "history_inv (b\<lparr>mark_active := f\<rparr>) = history_inv b"
  "history_inv (b\<lparr>readonly := f\<rparr>) = history_inv b" "history_inv (b\<lparr>saved_state := x\<rparr>) = history_inv b"
  by (simp_all add: history_inv_def)

lemma buf_inv_fields [simp]:
  "buf_inv (b\<lparr>goal := x\<rparr>) = buf_inv b" "buf_inv (b\<lparr>goal_valid := f\<rparr>) = buf_inv b"
  "buf_inv (b\<lparr>has_mark := f\<rparr>) = buf_inv b" "buf_inv (b\<lparr>mark_active := f\<rparr>) = buf_inv b"
  "buf_inv (b\<lparr>readonly := f\<rparr>) = buf_inv b" "buf_inv (b\<lparr>saved_state := x\<rparr>) = buf_inv b"
  by (simp_all add: buf_inv_def)

lemma buf_inv_point [simp]: "buf_inv b \<Longrightarrow> buf_inv (b\<lparr>point := p\<rparr>) = boundary (content b) p"
  by (simp add: buf_inv_def)

lemma buf_inv_mark [simp]: "buf_inv b \<Longrightarrow> buf_inv (b\<lparr>mark := p\<rparr>) = boundary (content b) p"
  by (simp add: buf_inv_def)

lemma buf_invD:
  assumes "buf_inv b"
  shows "text_inv (buf_text b)" "boundary (content b) (point b)" "boundary (content b) (mark b)"
    "history_inv b" "utf8_valid (content b)"
  using assms by (simp_all add: buf_inv_def text_inv_valid)

subsection \<open>One edit\<close>

lemma relocate_boundary:
  assumes "boundary xs at" "boundary xs (at + n)" "utf8_valid xs" "utf8_valid s" "boundary xs p"
  shows "boundary (splice at n s xs) (relocate p at n (length s) right)"
  using boundary_splice [OF assms(1-4)] assms(5) by (auto simp: relocate_def)

theorem replace_in_ok:
  assumes inv: "buf_inv b" and at: "boundary (content b) at" and z: "boundary (content b) (at + n)"
    and s: "utf8_valid s" and room: "length (added (buf_text b)) + length s < size_max"
  shows "\<exists>b'. replace_in at n s g st b = Some b' \<and> buf_inv b' \<and>
    content b' = splice at n s (content b) \<and>
    point b' = relocate (point b) at n (length s) True \<and>
    mark b' = relocate (mark b) at n (length s) False \<and>
    buf_state b' = st \<and> saved_state b' = saved_state b \<and> readonly b' = readonly b \<and>
    buf_id b' = buf_id b \<and> history_pos b' = Suc (history_pos b) \<and>
    origin b' = origin b \<and> take (history_pos b) (history b') = take (history_pos b) (history b) \<and>
    length (history b') = Suc (history_pos b) \<and> length (added (buf_text b')) = length (added (buf_text b)) + length s \<and>
    (let d = history b' ! history_pos b in ed_group d = g \<and> before_point d = point b \<and>
       before_mark d = mark b \<and> length (ed_removed d) = n \<and> after_state d = st)"
proof -
  note I = buf_invD [OF inv]
  have "at + n \<le> length (content b)" using z by (rule boundary_le)
  then have ln: "length (seg at n (content b)) = n" by simp
  obtain t where t: "text_insert (snd (text_delete (buf_text b) at n)) at s = Some (True, t)"
    "text_inv t" "text_content t = splice at n s (content b)"
    "length (added t) = length (added (buf_text b)) + length s"
    using ts.replace_law [OF I(1) at z s room] by blast
  obtain b' where b': "replace_in at n s g st b = Some b'" "buf_text b' = t"
    "point b' = relocate (point b) at n (length s) True" "mark b' = relocate (mark b) at n (length s) False"
    "buf_state b' = st" "saved_state b' = saved_state b" "readonly b' = readonly b" "buf_id b' = buf_id b"
    "history_pos b' = length (history b')"
    "history b' = take (history_pos b) (history b) @ [\<lparr>ed_at = at, removed_len = n,
       added_len = length s, before_point = point b, after_point = point b', before_mark = mark b,
       after_mark = mark b', ed_removed = seg at n (content b), ed_added = s, ed_group = g,
       before_state = buf_state b, after_state = st\<rparr>]" (is "_ = _ @ [?d]")
    using t(1) by (auto simp: replace_in_def Let_def text_slice_ok [OF I(1)])
  have pm: "boundary (content b') (point b')" "boundary (content b') (mark b')"
    unfolding b'(2-4) t(3) using relocate_boundary [OF at z I(5) s] I(2,3) by blast+
  have "edit_ok ?d (content b)"
    using at z s I(2,3,5) pm unfolding b'(2) t(3) by (simp add: edit_ok_def apply_edit_def)
  moreover have H: "history_pos b \<le> length (history b)" "chain (origin b) (history b)"
    "version b (history_pos b) = (buf_state b, content b)"
    using I(4) by (simp_all add: history_inv_def)
  moreover have "chain (origin b) (take (history_pos b) (history b))"
    using H(2) chain_append [of "origin b" "take (history_pos b) (history b)" "drop (history_pos b) (history b)"]
    by simp
  ultimately have "chain (origin b) (history b')"
    using b'(10) by (simp add: chain_append version_def)
  moreover have "foldl advance (origin b) (take (history_pos b') (history b')) = (buf_state b', content b')"
    using b'(2,5,9,10) H(1,3) t(3) by (simp add: version_def advance_def apply_edit_def)
  ultimately have "history_inv b'" "origin b' = origin b"
    using history_invI [of "origin b" b'] b'(9) by simp_all
  moreover from this(1) have "buf_inv b'" using pm b'(2) t(2) by (simp add: buf_inv_def)
  moreover have "history b' ! history_pos b = ?d"
    using b'(10) H(1) by (simp add: nth_append)
  ultimately show ?thesis using b' t(3,4) H(1) ln by (intro exI [of _ b']) (simp add: Let_def)
qed


subsection \<open>Undo and redo\<close>

lemma history_step:
  assumes "history_inv b" "k < length (history b)"
  shows "edit_ok (history b ! k) (snd (version b k))" "before_state (history b ! k) = fst (version b k)"
    "version b (Suc k) = advance (version b k) (history b ! k)"
  using assms chain_nth [of "origin b" "history b" k]
  by (simp_all add: history_inv_def version_def take_Suc_conv_app_nth)

text \<open>The bytes that undoing (or redoing) everything would still append to the \<open>added\<close> store fit.\<close>

definition undo_bytes :: "bool \<Rightarrow> Buffer \<Rightarrow> nat" where
  "undo_bytes redo b = length (added (buf_text b)) +
     (if redo then sum_list (map (\<lambda>d. length (ed_added d)) (drop (history_pos b) (history b)))
      else sum_list (map (\<lambda>d. length (ed_removed d)) (take (history_pos b) (history b))))"

text \<open>The entry undo or redo takes back or repeats: what it puts in place of what, and the version it leads to.\<close>

lemma undo_entry:
  assumes inv: "buf_inv b" and can: "can_undo redo b"
  defines "k \<equiv> if redo then history_pos b else history_pos b - 1"
  defines "d \<equiv> history b ! k"
  defines "n \<equiv> if redo then removed_len d else added_len d" and "s \<equiv> if redo then ed_added d else ed_removed d"
  shows "history_pos b = (if redo then k else Suc k)" "k < length (history b)"
    "boundary (content b) (ed_at d)" "boundary (content b) (ed_at d + n)" "utf8_valid s"
    "version b (if redo then Suc k else k) = (if redo then after_state d else before_state d, splice (ed_at d) n s (content b))"
    "boundary (splice (ed_at d) n s (content b)) (if redo then after_point d else before_point d)"
    "boundary (splice (ed_at d) n s (content b)) (if redo then after_mark d else before_mark d)"
proof -
  note I = buf_invD [OF inv]
  define xs where "xs = snd (version b k)"
  show pos: "history_pos b = (if redo then k else Suc k)" and k: "k < length (history b)"
    using can I(4) by (auto simp: can_undo_def history_inv_def k_def)
  have cur: "version b (history_pos b) = (buf_state b, content b)" using I(4) by (auto simp: history_inv_def)
  note H = history_step [OF I(4) k, folded d_def xs_def]
  have ok: "utf8_valid xs" "boundary xs (ed_at d)" "boundary xs (ed_at d + removed_len d)"
    "seg (ed_at d) (removed_len d) xs = ed_removed d" "added_len d = length (ed_added d)"
    "utf8_valid (ed_added d)" "boundary xs (before_point d)" "boundary xs (before_mark d)"
    "boundary (apply_edit d xs) (after_point d)" "boundary (apply_edit d xs) (after_mark d)"
    using H(1) by (simp_all add: edit_ok_def)
  have c: "content b = (if redo then xs else apply_edit d xs)"
    using cur pos H(3) by (cases redo) (simp_all add: xs_def advance_def)
  show "boundary (content b) (ed_at d)" "boundary (content b) (ed_at d + n)" "utf8_valid s"
    using ok boundary_splice(1,2) [OF ok(2,3,1,6)] valid_seg [OF ok(1-3)]
    unfolding c n_def s_def apply_edit_def by auto
  have new: "splice (ed_at d) n s (content b) = (if redo then apply_edit d xs else xs)"
    using c edit_ok_unapply [OF H(1)] by (cases redo) (simp_all add: n_def s_def apply_edit_def unapply_edit_def)
  show "version b (if redo then Suc k else k) = (if redo then after_state d else before_state d, splice (ed_at d) n s (content b))"
    unfolding new using H(2,3) by (cases redo) (auto simp: advance_def xs_def prod_eq_iff)
  show "boundary (splice (ed_at d) n s (content b)) (if redo then after_point d else before_point d)"
    "boundary (splice (ed_at d) n s (content b)) (if redo then after_mark d else before_mark d)"
    unfolding new using ok by simp_all
qed

lemma undo_one_ok:
  assumes inv: "buf_inv b" and can: "can_undo redo b" and room: "undo_bytes redo b < size_max"
  shows "\<exists>b'. undo_one redo b = Some b' \<and> buf_inv b' \<and> history b' = history b \<and> origin b' = origin b \<and>
    history_pos b' = (if redo then history_pos b + 1 else history_pos b - 1) \<and>
    (buf_state b', content b') = version b (history_pos b') \<and> undo_bytes redo b' = undo_bytes redo b \<and>
    saved_state b' = saved_state b \<and> readonly b' = readonly b \<and> buf_id b' = buf_id b \<and>
    point b' = (let d = history b ! min (history_pos b) (history_pos b') in
                if redo then after_point d else before_point d)"
proof -
  note I = buf_invD [OF inv]
  define k where "k = (if redo then history_pos b else history_pos b - 1)"
  define d where "d = history b ! k"
  define n where "n = (if redo then removed_len d else added_len d)"
  define s where "s = (if redo then ed_added d else ed_removed d)"
  note E = undo_entry [OF inv can, folded k_def, folded d_def, folded n_def s_def]
  have left: "drop k (history b) = d # drop (Suc k) (history b)"
    "take (Suc k) (history b) = take k (history b) @ [d]"
    using E(2) by (simp_all add: d_def Cons_nth_drop_Suc take_Suc_conv_app_nth)
  have r: "length (added (buf_text b)) + length s < size_max"
    using room E(1) left by (cases redo) (simp_all add: undo_bytes_def s_def)
  obtain t where t: "text_insert (snd (text_delete (buf_text b) (ed_at d) n)) (ed_at d) s = Some (True, t)"
    "text_inv t" "text_content t = splice (ed_at d) n s (content b)"
    "length (added t) = length (added (buf_text b)) + length s"
    using ts.replace_law [OF I(1) E(3-5) r] by blast
  define b' where "b' = (editor_lex_invalidate (ed_at d) b)\<lparr>buf_text := t,
    point := (if redo then after_point d else before_point d),
    mark := (if redo then after_mark d else before_mark d),
    buf_state := (if redo then after_state d else before_state d),
    history_pos := (if redo then Suc k else k), revision := revision b + 1\<rparr>"
  have "undo_one redo b = Some b'"
    using t(1) E(1) unfolding undo_one_def b'_def Let_def k_def [symmetric] d_def [symmetric]
    by (cases redo) (simp_all add: n_def s_def)
  then have b': "undo_one redo b = Some b'" "buf_text b' = t"
    "point b' = (if redo then after_point d else before_point d)"
    "mark b' = (if redo then after_mark d else before_mark d)"
    "buf_state b' = (if redo then after_state d else before_state d)" "history b' = history b"
    "history_pos b' = (if redo then Suc k else k)"
    "saved_state b' = saved_state b" "readonly b' = readonly b" "buf_id b' = buf_id b"
    by (simp_all add: b'_def)
  have v: "version b (history_pos b') = (buf_state b', content b')" using E(6) t(3) by (simp add: b'(2,5,7))
  have hi: "history_inv b'" "origin b' = origin b"
    using history_invI [of "origin b" b'] I(4) E(2) v b'(6,7) by (simp_all add: history_inv_def version_def)
  have "buf_inv b'"
    using hi(1) t(2,3) E(7,8) by (simp add: buf_inv_def b'(2-4))
  moreover have "undo_bytes redo b' = undo_bytes redo b"
    using b'(2,6,7) E(1) t(4) left by (cases redo) (simp_all add: undo_bytes_def s_def)
  moreover have "history b ! min (history_pos b) (history_pos b') = d"
    using b'(7) E(1) by (cases redo) (simp_all add: d_def)
  ultimately show ?thesis
    using b'(1,3,6-10) v E(1) hi(2) by (intro exI [of _ b']) (cases redo, simp_all add: Let_def)
qed


text \<open>What undoing and redoing keep of a buffer.\<close>

definition same_history :: "Buffer \<Rightarrow> Buffer \<Rightarrow> bool" where
  "same_history b b' \<longleftrightarrow> buf_inv b' \<and> history b' = history b \<and> origin b' = origin b \<and>
     saved_state b' = saved_state b \<and> readonly b' = readonly b \<and> buf_id b' = buf_id b \<and>
     (buf_state b', content b') = version b (history_pos b')"

lemma same_history_refl: "buf_inv b \<Longrightarrow> same_history b b"
  by (auto simp: same_history_def buf_inv_def history_inv_def)

lemma same_history_trans: "same_history a b \<Longrightarrow> same_history b c \<Longrightarrow> same_history a c"
  by (simp add: same_history_def version_def)

text \<open>The entries a group undo passes: \<open>[z, a)\<close> backwards, \<open>[a, z)\<close> forwards.\<close>

definition group_run :: "bool \<Rightarrow> Edit list \<Rightarrow> nat \<Rightarrow> nat \<Rightarrow> nat \<Rightarrow> bool" where
  "group_run redo h g a z \<longleftrightarrow>
     (if redo then a < z \<and> z \<le> length h \<and> (\<forall>i. a \<le> i \<and> i < z \<longrightarrow> ed_group (h ! i) = g) \<and>
        (z < length h \<longrightarrow> ed_group (h ! z) \<noteq> g)
      else z < a \<and> a \<le> length h \<and> (\<forall>i. z \<le> i \<and> i < a \<longrightarrow> ed_group (h ! i) = g) \<and>
        (0 < z \<longrightarrow> ed_group (h ! (z - 1)) \<noteq> g))"

lemma group_run_one:
  assumes "redo \<Longrightarrow> a < length h" "\<not> redo \<Longrightarrow> 0 < a \<and> a \<le> length h"
    "ed_group (h ! (if redo then a else a - 1)) = g"
    "\<not> (if redo then Suc a < length h \<and> ed_group (h ! Suc a) = g
         else 0 < a - 1 \<and> ed_group (h ! (a - 1 - 1)) = g)"
  shows "group_run redo h g a (if redo then Suc a else a - 1)"
  using assms by (cases redo) (auto simp: group_run_def less_Suc_eq_le le_less_Suc_eq dest!: le_antisym)

lemma group_run_step:
  assumes "group_run redo h g (if redo then Suc a else a - 1) z"
    "ed_group (h ! (if redo then a else a - 1)) = g" "\<not> redo \<Longrightarrow> 0 < a \<and> a \<le> length h"
  shows "group_run redo h g a z"
proof (cases redo)
  case True
  have "ed_group (h ! i) = g" if "a \<le> i" "i < z" for i
    using assms True that by (cases "i = a") (auto simp: group_run_def)
  with assms True show ?thesis by (auto simp: group_run_def)
next
  case False
  have "ed_group (h ! i) = g" if "z \<le> i" "i < a" for i
    using assms False that by (cases "i = a - 1") (auto simp: group_run_def)
  with assms False show ?thesis by (auto simp: group_run_def)
qed

lemma undo_group_ok:
  assumes "buf_inv b" "can_undo redo b" "undo_bytes redo b < size_max" "next_group redo b = g"
  shows "\<exists>b'. undo_group redo g b = Some b' \<and> same_history b b' \<and> undo_bytes redo b' = undo_bytes redo b \<and>
    group_run redo (history b) g (history_pos b) (history_pos b')"
  using assms
proof (induction redo g b rule: undo_group.induct)
  case (1 redo g b)
  obtain c where c: "undo_one redo b = Some c" "buf_inv c" "history c = history b" "origin c = origin b"
    "history_pos c = (if redo then history_pos b + 1 else history_pos b - 1)"
    "(buf_state c, content c) = version b (history_pos c)" "undo_bytes redo c = undo_bytes redo b"
    "saved_state c = saved_state b" "readonly c = readonly b" "buf_id c = buf_id b"
    using undo_one_ok [OF "1.prems"(1-3)] by blast
  then have bc: "same_history b c" by (simp add: same_history_def)
  have pos: "redo \<Longrightarrow> history_pos b < length (history b)"
    "\<not> redo \<Longrightarrow> 0 < history_pos b \<and> history_pos b \<le> length (history b)"
    using "1.prems"(1,2) by (auto simp: can_undo_def buf_inv_def history_inv_def)
  have g: "ed_group (history b ! (if redo then history_pos b else history_pos b - 1)) = g"
    using "1.prems"(4) by (simp add: next_group_def)
  show ?case
  proof (cases "can_undo redo c \<and> next_group redo c = g")
    case True
    then obtain b' where b': "undo_group redo g c = Some b'" "same_history c b'"
      "undo_bytes redo b' = undo_bytes redo c" "group_run redo (history c) g (history_pos c) (history_pos b')"
      using "1.IH" [OF _ c(1) True c(2)] "1.prems" c(7) by auto
    have "group_run redo (history b) g (history_pos b) (history_pos b')"
      using group_run_step [OF _ g pos(2)] b'(4) c(3,5) by (cases redo) simp_all
    moreover have "undo_group redo g b = Some b'"
      using "1.prems"(2) c(1) True b'(1) by (simp add: undo_group.simps [of redo g b])
    ultimately show ?thesis using same_history_trans [OF bc b'(2)] b'(3) c(7) by auto
  next
    case False
    have "group_run redo (history b) g (history_pos b) (history_pos c)"
      using group_run_one [OF pos g] False c(3,5)
      by (cases redo) (auto simp: can_undo_def next_group_def)
    moreover have "undo_group redo g b = Some c"
      using "1.prems"(2) c(1) False by (auto simp: undo_group.simps [of redo g b])
    ultimately show ?thesis using bc c(7) by auto
  qed
qed

theorem undo_loop_ok:
  assumes "buf_inv b" "undo_bytes redo b < size_max"
  shows "\<exists>b' ok. undo_loop redo n b = Some (b', ok) \<and> same_history b b'"
  using assms
proof (induction redo n b rule: undo_loop.induct)
  case (2 redo n b)
  show ?case
  proof (cases "can_undo redo b")
    case True
    then obtain c where c: "undo_group redo (next_group redo b) b = Some c" "same_history b c"
      "undo_bytes redo c = undo_bytes redo b"
      using undo_group_ok [OF 2(2) _ 2(3) refl] by blast
    then have "\<exists>b' ok. undo_loop redo n c = Some (b', ok) \<and> same_history c b'"
      using "2.IH" 2(3) True by (auto simp: same_history_def)
    with c True show ?thesis by (auto intro: same_history_trans)
  qed (use 2 in \<open>auto intro: same_history_refl\<close>)
qed (auto intro: same_history_refl)


subsection \<open>\<open>editor_replace\<close>, \<open>editor_insert\<close> and \<open>undo\<close> on the editor\<close>

text \<open>The editor has a current buffer, and it is well formed.\<close>

definition ed_inv :: "Editor \<Rightarrow> bool" where
  "ed_inv e \<longleftrightarrow> current e < length (buffers e) \<and> (\<forall>b \<in> set (buffers e). buf_inv b)"

lemma ed_inv_buffer: "ed_inv e \<Longrightarrow> buf_inv (editor_buffer e)"
  by (simp add: ed_inv_def editor_buffer_def)

lemma ed_inv_upd: "ed_inv e \<Longrightarrow> buf_inv b \<Longrightarrow> ed_inv (upd_current (\<lambda>_. b) e)"
  by (auto simp: ed_inv_def upd_buf_def dest: set_update_subset_insert [THEN subsetD])

lemma ed_inv_message [simp]: "ed_inv (editor_message s e) = ed_inv e"
  by (simp add: ed_inv_def editor_message_def)

lemma ed_inv_next_state [simp]: "ed_inv (e\<lparr>next_state := n\<rparr>) = ed_inv e"
  by (simp add: ed_inv_def)

lemma buffers_message [simp]: "buffers (editor_message s e) = buffers e" "current (editor_message s e) = current e"
  by (simp_all add: editor_message_def)

lemma editor_buffer_simps [simp]:
  "editor_buffer (editor_message s e) = editor_buffer e"
  "editor_buffer (e\<lparr>next_state := n\<rparr>) = editor_buffer e"
  by (simp_all add: editor_buffer_def editor_message_def)

text \<open>The checks of \<open>editor_replace\<close>, as one predicate.\<close>

definition replace_ok :: "Buffer \<Rightarrow> nat \<Rightarrow> nat \<Rightarrow> bytes \<Rightarrow> bool" where
  "replace_ok b at n s \<longleftrightarrow> \<not> readonly b \<and> boundary (content b) at \<and> boundary (content b) (at + n) \<and> utf8_valid s"

lemma editor_replace_checks:
  assumes "buf_inv (editor_buffer e)"
  shows "replace_ok (editor_buffer e) at n s \<longleftrightarrow> \<not> readonly (editor_buffer e) \<and>
    \<not> (at > text_size (buf_text (editor_buffer e)) \<or> n > text_size (buf_text (editor_buffer e)) - at \<or>
       \<not> text_boundary (buf_text (editor_buffer e)) at \<or>
       \<not> text_boundary (buf_text (editor_buffer e)) (at + n) \<or> \<not> utf8_valid s)"
  using buf_invD(1) [OF assms]
  by (auto simp: replace_ok_def text_boundary_content text_size_content dest: boundary_le)

theorem editor_replace_ok:
  assumes inv: "ed_inv e" and plain: "\<not> python_enabled e"
    and ok: "replace_ok (editor_buffer e) at n s"
    and room: "length (added (buf_text (editor_buffer e))) + length s < size_max"
  shows "\<exists>e'. editor_replace w e at n s = Some (e', True) \<and> ed_inv e' \<and>
    content (editor_buffer e') = splice at n s (content (editor_buffer e)) \<and>
    (\<forall>i \<noteq> current e. i < length (buffers e) \<longrightarrow> buffers e' ! i = buffers e ! i) \<and>
    current e' = current e \<and> length (buffers e') = length (buffers e)"
proof (cases "n = 0 \<and> s = []")
  case True
  then show ?thesis
    using inv ok [unfolded editor_replace_checks [OF ed_inv_buffer [OF inv]]]
    by (intro exI [of _ e]) (simp add: editor_replace_def Let_def splice_def)
next
  case False
  let ?b = "editor_buffer e"
  have B: "buf_inv ?b" using inv by (rule ed_inv_buffer)
  obtain b where b: "replace_in at n s (group e) (next_state e + 1) ?b = Some b" "buf_inv b"
    "content b = splice at n s (content ?b)"
    using replace_in_ok [OF B _ _ _ room] ok unfolding replace_ok_def by meson
  let ?e = "e\<lparr>next_state := next_state e + 1\<rparr>"
  have cur: "current e < length (buffers e)" using inv by (simp add: ed_inv_def)
  have "editor_replace w e at n s = Some (upd_current (\<lambda>_. b) ?e, True)"
    using ok b(1) False plain unfolding editor_replace_checks [OF B]
    by (auto simp: editor_replace_def Let_def plugins_event_def)
  moreover have "ed_inv (upd_current (\<lambda>_. b) ?e)" using inv b(2) by (intro ed_inv_upd) simp_all
  ultimately show ?thesis
    using b(3) cur by (intro exI [of _ "upd_current (\<lambda>_. b) ?e"]) (simp add: upd_buf_def editor_buffer_def)
qed

theorem editor_replace_refused:
  assumes "ed_inv e" "\<not> replace_ok (editor_buffer e) at n s"
  shows "\<exists>m. editor_replace w e at n s = Some (editor_message m e, False)"
  using assms(2) unfolding editor_replace_checks [OF ed_inv_buffer [OF assms(1)]]
  by (auto simp: editor_replace_def Let_def)

theorem editor_undo_total:
  assumes inv: "ed_inv e" and plain: "\<not> python_enabled e"
    and room: "\<And>r. undo_bytes r (editor_buffer e) < size_max"
  shows "\<exists>e' ok. undo w e redo n = Some (e', ok) \<and> ed_inv e' \<and>
    same_history (editor_buffer e) (editor_buffer e' \<lparr>mark_active := mark_active (editor_buffer e)\<rparr>)"
proof (cases "readonly (editor_buffer e)")
  case True
  with inv same_history_refl [OF ed_inv_buffer [OF inv]] show ?thesis
    by (auto simp: undo_def)
next
  case False
  let ?b = "editor_buffer e"
  define r where "r = (if n < 0 then \<not> redo else redo)"
  define m where "m = nat (if n < 0 then - n else n)"
  obtain b ok where b: "undo_loop r m ?b = Some (b, ok)" "same_history ?b b"
    using undo_loop_ok [OF ed_inv_buffer [OF inv] room] by blast
  have cur: "current e < length (buffers e)" using inv by (simp add: ed_inv_def)
  have hb: "buf_inv b" using b(2) by (simp add: same_history_def)
  have ma: "buf_inv (b\<lparr>mark_active := x\<rparr>) = buf_inv b" "same_history ?b (b\<lparr>mark_active := x\<rparr>) = same_history ?b b" for x
    by (simp_all add: same_history_def)
  let ?e = "upd_current (\<lambda>_. b) e"
  show ?thesis
  proof (cases ok)
    case False
    then have "\<exists>msg. undo w e redo n = Some (editor_message msg ?e, False)"
      using \<open>\<not> readonly ?b\<close> b(1) by (auto simp: undo_def r_def m_def Let_def)
    then show ?thesis using ed_inv_upd [OF inv hb] b(2) cur ma by auto
  next
    case True
    let ?e' = "upd_current (\<lambda>b. b\<lparr>mark_active := False\<rparr>) ?e"
    have "\<exists>msg. undo w e redo n = Some (editor_message msg ?e', True)"
      using True \<open>\<not> readonly ?b\<close> b(1) plain by (auto simp: undo_def r_def m_def Let_def plugins_event_def)
    moreover have "?e' = upd_current (\<lambda>_. b\<lparr>mark_active := False\<rparr>) e"
      by (simp add: upd_buf_twice comp_def)
    moreover have "ed_inv (upd_current (\<lambda>_. b\<lparr>mark_active := False\<rparr>) e)"
      using inv hb ma by (intro ed_inv_upd) simp_all
    ultimately show ?thesis using b(2) cur ma by auto
  qed
qed

subsection \<open>Setting the whole text\<close>

lemma valid_append_left: "utf8_valid a \<Longrightarrow> utf8_valid (a @ b) \<Longrightarrow> utf8_valid b"
  by (induction rule: utf8_valid_induct) (simp_all add: decode_valid_step)

lemma common_head_le: "common_head old s \<le> length old" "common_head old s \<le> length s"
  by (induction old s rule: common_head.induct) auto

lemma common_head_take: "k \<le> common_head old s \<Longrightarrow> take k old = take k s"
proof (induction old s arbitrary: k rule: common_head.induct)
  case (1 x old y s)
  then show ?case by (cases k) (auto split: if_splits)
qed simp_all

lemma head_back_le: "head_back s h \<le> h"
  by (induction h) auto

lemma head_back_boundary: "utf8_valid s \<Longrightarrow> h \<le> length s \<Longrightarrow> boundary s (head_back s h)"
  by (induction h) (auto simp: boundary_def[of _ "Suc _"])

lemma tail_back_le: "tail_back s k \<le> k"
  by (induction k) auto

lemma tail_back_boundary: "k \<le> length s \<Longrightarrow> boundary s (length s - tail_back s k)"
  by (induction k) (auto simp: boundary_def[of _ "_ - Suc _"])

lemma common_tail_drop:
  assumes "k \<le> common_tail old s h" "h \<le> length old" "h \<le> length s"
  shows "k \<le> length old - h" "k \<le> length s - h" "drop (length old - k) old = drop (length s - k) s"
proof -
  show k: "k \<le> length old - h" "k \<le> length s - h"
    using assms(1) common_head_le [of "rev (drop h old)" "rev (drop h s)"] by (auto simp: common_tail_def)
  have "take k (rev (drop h old)) = take k (rev (drop h s))"
    using common_head_take assms(1) by (simp add: common_tail_def)
  then show "drop (length old - k) old = drop (length s - k) s"
    using k assms(2,3) by (simp add: take_rev)
qed

text \<open>The differing middle of two valid texts: \<open>h\<close> bytes are kept before it and \<open>k\<close> after it.\<close>

definition same_ends :: "bytes \<Rightarrow> bytes \<Rightarrow> nat \<Rightarrow> nat \<Rightarrow> bool" where
  "same_ends old s h k \<longleftrightarrow> h + k \<le> length old \<and> h + k \<le> length s \<and> take h old = take h s \<and>
     drop (length old - k) old = drop (length s - k) s \<and>
     boundary old h \<and> boundary old (length old - k) \<and> boundary s h \<and> boundary s (length s - k)"

lemma set_text_ends:
  assumes "utf8_valid old" "utf8_valid s"
  defines "h \<equiv> head_back s (common_head old s)"
  defines "k \<equiv> tail_back s (common_tail old s h)"
  shows "same_ends old s h k"
proof -
  have h: "h \<le> common_head old s" by (simp add: h_def head_back_le)
  have hl: "h \<le> length old" "h \<le> length s" using h common_head_le [of old s] by simp_all
  have th: "take h old = take h s" using h by (rule common_head_take)
  have bs: "boundary s h" unfolding h_def
    using assms(2) by (rule head_back_boundary) (rule common_head_le)
  have "utf8_valid (take h old)" using valid_take [OF assms(2) bs] th by simp
  then have "utf8_valid (drop h old)"
    using assms(1) by (metis append_take_drop_id valid_append_left)
  then have bo: "boundary old h"
    using boundary_append [of "drop h old" "take h old"] hl by simp
  have "k \<le> common_tail old s h" by (simp add: k_def tail_back_le)
  note T = common_tail_drop [OF this hl]
  have "common_tail old s h \<le> length s"
    using common_tail_drop(2) [OF order_refl hl] by simp
  then have bk: "boundary s (length s - k)" unfolding k_def by (rule tail_back_boundary)
  have "boundary old (length old - k)"
  proof (cases "k = 0")
    case False
    then have "hd (drop (length old - k) old) = old ! (length old - k)"
      "hd (drop (length s - k) s) = s ! (length s - k)"
      using T(1,2) hl by (auto intro!: hd_drop_conv_nth)
    then show ?thesis using T bk False hl by (auto simp: boundary_def)
  qed simp
  with T th bo bs bk hl show ?thesis by (auto simp: same_ends_def)
qed

lemma same_ends_splice:
  assumes "same_ends old s h k"
  shows "splice h (length old - h - k) (seg h (length s - h - k) s) old = s"
proof -
  have "splice h (length old - h - k) (seg h (length s - h - k) s) old =
      take h s @ seg h (length s - h - k) s @ drop (length s - k) s"
    using assms by (simp add: same_ends_def splice_def)
  also have "\<dots> = s"
    using take_drop_split3 [of h "length s - h - k" s] assms by (simp add: same_ends_def)
  finally show ?thesis .
qed

theorem editor_set_text_ok:
  assumes inv: "ed_inv e" and plain: "\<not> python_enabled e" and s: "utf8_valid s"
    and rw: "\<not> readonly (editor_buffer e)"
    and room: "length (added (buf_text (editor_buffer e))) + length s < size_max"
  shows "\<exists>e'. editor_set_text w e s = Some (e', True) \<and> ed_inv e' \<and> content (editor_buffer e') = s"
proof -
  let ?t = "buf_text (editor_buffer e)"
  let ?old = "text_content ?t"
  note I = buf_invD [OF ed_inv_buffer [OF inv]]
  have size: "text_size ?t = length ?old" using I(1) by (rule text_size_content)
  have old: "text_slice ?t 0 (length ?old) = ?old"
    using te.slice_all [OF I(1)] by (simp add: size)
  define h where "h = head_back s (common_head ?old s)"
  define k where "k = tail_back s (common_tail ?old s h)"
  have E: "same_ends ?old s h k"
    unfolding h_def k_def using I(5) s by (rule set_text_ends)
  have eq: "editor_set_text w e s =
    (if h = length ?old \<and> h = length s then Some (e, True)
     else editor_replace w e h (length ?old - h - k) (seg h (length s - h - k) s))"
    using s by (simp only: editor_set_text_def Let_def old size h_def k_def not_not if_True if_False simp_thms)
  show ?thesis
  proof (cases "h = length ?old \<and> h = length s")
    case True
    then have "?old = s" using E by (simp add: same_ends_def)
    with True eq inv show ?thesis by auto
  next
    case False
    have ok: "replace_ok (editor_buffer e) h (length ?old - h - k) (seg h (length s - h - k) s)"
      using E rw valid_seg [OF s, of h "length s - h - k"] by (auto simp: replace_ok_def same_ends_def)
    have "length (added ?t) + length (seg h (length s - h - k) s) < size_max"
      using room by simp
    from editor_replace_ok [OF inv plain ok this, of w] show ?thesis
      using eq False same_ends_splice [OF E] by auto
  qed
qed

subsection \<open>Undoing a command\<close>

text \<open>An edit of a group of its own is taken back by one undo, and undo then redo is the edit again.\<close>

theorem undo_replace:
  assumes inv: "buf_inv b" and at: "boundary (content b) at" and z: "boundary (content b) (at + n)"
    and s: "utf8_valid s" and room: "undo_bytes False b + length s + n < size_max"
    and own: "0 < history_pos b \<Longrightarrow> ed_group (history b ! (history_pos b - 1)) \<noteq> g"
  shows "\<exists>c d. replace_in at n s g st b = Some c \<and> undo_group False g c = Some d \<and> buf_inv d \<and>
    content d = content b \<and> buf_state d = buf_state b \<and> point d = point b"
proof -
  have "length (added (buf_text b)) + length s < size_max" using room by (simp add: undo_bytes_def)
  from replace_in_ok [OF inv at z s this, of g st]
  obtain c where c: "replace_in at n s g st b = Some c" "buf_inv c" "origin c = origin b"
    "take (history_pos b) (history c) = take (history_pos b) (history b)"
    "history_pos c = Suc (history_pos b)" "length (history c) = Suc (history_pos b)"
    "length (added (buf_text c)) = length (added (buf_text b)) + length s" "ed_group (history c ! history_pos b) = g"
    "before_point (history c ! history_pos b) = point b" "length (ed_removed (history c ! history_pos b)) = n"
    by (auto simp: Let_def)
  have can: "can_undo False c" using c(5) by (simp add: can_undo_def)
  have "take (Suc (history_pos b)) (history c) = take (history_pos b) (history b) @ [history c ! history_pos b]"
    using take_Suc_conv_app_nth [of "history_pos b" "history c"] c(4,6) by simp
  then have "undo_bytes False c < size_max"
    using room c(5,7,10) by (simp add: undo_bytes_def)
  from undo_one_ok [OF c(2) can this]
  obtain d where d: "undo_one False c = Some d" "buf_inv d" "history d = history c"
    "history_pos d = history_pos b" "(buf_state d, content d) = version c (history_pos b)"
    "point d = point b"
    using c(5,9) by (auto simp: Let_def)
  have "\<not> (can_undo False d \<and> next_group False d = g)"
  proof
    assume "can_undo False d \<and> next_group False d = g"
    then have pos: "0 < history_pos b" and "ed_group (history c ! (history_pos b - 1)) = g"
      using d(3,4) by (auto simp: can_undo_def next_group_def)
    moreover have "history c ! (history_pos b - 1) = history b ! (history_pos b - 1)"
      using pos c(4) by (metis diff_less nth_take zero_less_one)
    ultimately show False using own by simp
  qed
  then have "undo_group False g c = Some d"
    using can d(1) by (auto simp: undo_group.simps [of False g c])
  moreover have "version c (history_pos b) = (buf_state b, content b)"
    using buf_invD(4) [OF inv] c(3,4) by (simp add: version_def history_inv_def)
  ultimately show ?thesis using c(1) d by auto
qed

subsection \<open>The modified flag\<close>

text \<open>What can happen to a buffer between two saves: edits with fresh state numbers, undo and redo
  steps, and motion. The first component counts the states given out (\<open>next_state\<close>).\<close>

inductive edit_step :: "nat \<times> Buffer \<Rightarrow> nat \<times> Buffer \<Rightarrow> bool" where
  replace: "boundary (content b) at \<Longrightarrow> boundary (content b) (at + n) \<Longrightarrow> utf8_valid s \<Longrightarrow>
    length (added (buf_text b)) + length s < size_max \<Longrightarrow>
    replace_in at n s g (k + 1) b = Some b' \<Longrightarrow> edit_step (k, b) (k + 1, b')"
| undo: "can_undo redo b \<Longrightarrow> undo_bytes redo b < size_max \<Longrightarrow> undo_one redo b = Some b' \<Longrightarrow>
    edit_step (k, b) (k, b')"
| move: "boundary (content b) p \<Longrightarrow> edit_step (k, b) (k, b\<lparr>point := p\<rparr>)"
| save: "edit_step (k, b) (k, b\<lparr>saved_state := buf_state b\<rparr>)"
| other: "edit_step (k, b) (k + 1, b)"


text \<open>State numbers grow along the history, and none exceeds the count.\<close>

definition state_inv :: "nat \<times> Buffer \<Rightarrow> bool" where
  "state_inv x \<longleftrightarrow> (let (k, b) = x in buf_inv b \<and> saved_state b \<le> k \<and>
     (\<forall>j \<le> length (history b). fst (version b j) \<le> k \<and> (\<forall>i < j. fst (version b i) < fst (version b j))))"

lemma version_replace:
  assumes "origin c = origin b" "take (history_pos b) (history c) = take (history_pos b) (history b)"
    "j \<le> history_pos b"
  shows "version c j = version b j"
  using assms by (metis min.absorb1 take_take version_def)

lemma state_inv_step: "edit_step x y \<Longrightarrow> state_inv x \<Longrightarrow> state_inv y"
proof (induction rule: edit_step.induct)
  case (replace b at n s g k b')
  then have inv: "buf_inv b" "saved_state b \<le> k" and V: "\<And>j. j \<le> length (history b) \<Longrightarrow> fst (version b j) \<le> k"
    "\<And>i j. j \<le> length (history b) \<Longrightarrow> i < j \<Longrightarrow> fst (version b i) < fst (version b j)"
    by (auto simp: state_inv_def)
  obtain c where c: "replace_in at n s g (k + 1) b = Some c" "buf_inv c" "buf_state c = k + 1"
    "saved_state c = saved_state b" "history_pos c = Suc (history_pos b)" "origin c = origin b"
    "take (history_pos b) (history c) = take (history_pos b) (history b)"
    "length (history c) = Suc (history_pos b)"
    using replace_in_ok [OF inv(1) replace.hyps(1-4), of g "k + 1"] by blast
  have b': "b' = c" using c(1) replace.hyps(5) by simp
  have pos: "history_pos b \<le> length (history b)" using inv(1) by (simp add: buf_inv_def history_inv_def)
  note ver = version_replace [OF c(6,7)]
  have last: "fst (version c (Suc (history_pos b))) = k + 1"
    using c(2,3,5) by (simp add: buf_inv_def history_inv_def)
  have "fst (version c j) \<le> k + 1 \<and> (\<forall>i < j. fst (version c i) < fst (version c j))"
    if "j \<le> Suc (history_pos b)" for j
  proof (cases "j = Suc (history_pos b)")
    case True
    with last V(1) pos show ?thesis by (auto simp: ver less_Suc_eq_le)
  next
    case False
    with that V pos show ?thesis by (auto simp: ver intro: le_SucI)
  qed
  with inv(2) c(2,4,8) show ?case by (simp add: b' state_inv_def)
next
  case (undo redo b b' k)
  then have inv: "buf_inv b" by (simp add: state_inv_def)
  from undo_one_ok [OF this undo.hyps(1,2)] undo.hyps(3)
  have "buf_inv b'" "history b' = history b" "origin b' = origin b" "saved_state b' = saved_state b" by auto
  with undo.prems show ?case by (simp add: state_inv_def version_def)
next
  case (save k b)
  then have "buf_state b \<le> k"
    by (auto simp: state_inv_def buf_inv_def history_inv_def dest: spec [of _ "history_pos b"])
  with save show ?case by (simp add: state_inv_def)
qed (auto simp: state_inv_def le_SucI)

interpretation edit_steps: step_system edit_step state_inv
  by unfold_locales (rule state_inv_step)

text \<open>With \<open>saved\<close> the contents at the last save: a version with the saved number has them.\<close>

definition saved_inv :: "bytes \<Rightarrow> Buffer \<Rightarrow> bool" where
  "saved_inv saved b \<longleftrightarrow>
     (\<forall>j \<le> length (history b). fst (version b j) = saved_state b \<longrightarrow> snd (version b j) = saved)"

inductive no_save :: "nat \<times> Buffer \<Rightarrow> nat \<times> Buffer \<Rightarrow> bool" where
  "edit_step (k, b) (k', b') \<Longrightarrow> saved_state b' = saved_state b \<Longrightarrow> no_save (k, b) (k', b')"

lemma saved_inv_step:
  assumes "no_save x y" "state_inv x" "saved_inv saved (snd x)"
  shows "saved_inv saved (snd y)"
  using assms(1)
proof cases
  case (1 k b k' b')
  from 1(3) show ?thesis
  proof cases
    case (replace at n s g)
    have inv: "buf_inv b" "saved_state b \<le> k" "history_pos b \<le> length (history b)"
      using assms(2) 1 by (auto simp: state_inv_def buf_inv_def history_inv_def)
    obtain c where c: "replace_in at n s g (k + 1) b = Some c" "buf_inv c" "buf_state c = k + 1"
      "saved_state c = saved_state b" "history_pos c = Suc (history_pos b)" "origin c = origin b"
      "take (history_pos b) (history c) = take (history_pos b) (history b)"
      "length (history c) = Suc (history_pos b)"
      using replace_in_ok [OF inv(1) replace(2-5), of g "k + 1"] by blast
    have b': "b' = c" using c(1) replace(6) by simp
    have "fst (version c (Suc (history_pos b))) = k + 1"
      using c(2,3,5) by (simp add: buf_inv_def history_inv_def)
    then have "snd (version c j) = saved" if "j \<le> Suc (history_pos b)" "fst (version c j) = saved_state b" for j
      using that version_replace [OF c(6,7), of j] assms(3) inv(2,3) 1(1)
      by (cases "j = Suc (history_pos b)") (auto simp: saved_inv_def)
    then show ?thesis using 1(2) b' c(4,8) by (simp add: saved_inv_def)
  next
    case (undo redo)
    have "buf_inv b" using assms(2) 1(1) by (simp add: state_inv_def)
    from undo_one_ok [OF this undo(2,3)] undo(4) 1 assms(3) show ?thesis
      by (auto simp: saved_inv_def version_def)
  qed (use 1 assms(3) in \<open>auto simp: saved_inv_def\<close>)
qed

interpretation unsaved: step_system no_save "\<lambda>x. state_inv x \<and> saved_inv saved (snd x)" for saved
proof
  fix x y assume "no_save x y" "state_inv x \<and> saved_inv saved (snd x)"
  moreover from this(1) have "edit_step x y" by cases simp
  ultimately show "state_inv y \<and> saved_inv saved (snd y)"
    by (auto intro: state_inv_step saved_inv_step)
qed

theorem modified_flag_sound:
  assumes start: "state_inv (k, b)" "saved_state b = buf_state b"
    and steps: "no_save\<^sup>*\<^sup>* (k, b) (k', b')" and clean: "buf_state b' = saved_state b'"
  shows "content b' = content b"
proof -
  have ver: "history_pos c \<le> length (history c) \<and> version c (history_pos c) = (buf_state c, content c)"
    if "state_inv (m, c)" for m c
    using that by (simp add: state_inv_def buf_inv_def history_inv_def)
  have base: "saved_inv (content b) b"
    unfolding saved_inv_def
  proof (intro allI impI)
    fix j assume j: "j \<le> length (history b)" "fst (version b j) = saved_state b"
    have "j = history_pos b"
      using start j ver [OF start(1)] unfolding state_inv_def
      by (metis (mono_tags, lifting) case_prod_conv fst_conv linorder_neqE_nat nat_neq_iff)
    then show "snd (version b j) = content b" using ver [OF start(1)] by simp
  qed
  have "state_inv (k', b') \<and> saved_inv (content b) b'"
    using unsaved.reachable [OF steps, of "content b"] start base by simp
  then show ?thesis using ver [of k' b'] clean by (auto simp: saved_inv_def dest: spec [of _ "history_pos b'"])
qed

subsection \<open>A sample editor\<close>

lemma blank_buffer_inv:
  assumes "text_inv t" "text_content t = s"
  shows "buf_inv (blank_buffer i name t)"
proof -
  have "utf8_valid s" using assms text_inv_valid by blast
  with assms show ?thesis
    by (simp add: buf_inv_def blank_buffer_def history_inv_def origin_def version_def)
qed

text \<open>An editor with one buffer, which holds the sample text.\<close>

definition sample_buffer :: Buffer where
  "sample_buffer = blank_buffer 1 (lit ''sample'') sample_text"

definition sample_editor :: Editor where
  "sample_editor = blank_editor\<lparr>buffers := [sample_buffer], next_id := 1,
     panes := [\<lparr>pane_buffer = 1, pane_top = 0, pane_left = 0, pane_point = 0\<rparr>]\<rparr>"

lemma sample_buffer_simps:
  "buf_text sample_buffer = sample_text" "point sample_buffer = 0" "\<not> readonly sample_buffer"
  "history sample_buffer = []" "history_pos sample_buffer = 0" "buf_state sample_buffer = 0"
  "saved_state sample_buffer = 0" "bom sample_buffer = False" "crlf sample_buffer = False"
  "path sample_buffer = None" "tab_width sample_buffer = 4" "mark sample_buffer = 0"
  by (simp_all add: sample_buffer_def blank_buffer_def)

lemma sample_content: "content sample_buffer = sample"
  by (simp add: sample_buffer_simps sample_ok)

lemma sample_buffer_inv: "buf_inv sample_buffer"
  unfolding sample_buffer_def by (rule blank_buffer_inv [OF sample_ok(2,3)])

lemma sample_editor_simps:
  "editor_buffer sample_editor = sample_buffer" "\<not> python_enabled sample_editor"
  "current sample_editor = 0" "buffers sample_editor = [sample_buffer]"
  by (simp_all add: sample_editor_def blank_editor_def editor_buffer_def)

lemma sample_editor_inv: "ed_inv sample_editor"
  by (simp add: ed_inv_def sample_editor_simps sample_buffer_inv)

lemma sample_undo_bytes: "undo_bytes r sample_buffer = 0"
  by (simp add: undo_bytes_def sample_buffer_simps sample_ok)

subsection \<open>Properties\<close>

text \<open>C1 \<open>editor_replace\<close> returns for every argument. It succeeds exactly when the buffer is writable, the
  range lies between character boundaries and the new bytes are valid text; then the buffer holds the
  old contents with the range replaced, else the contents it had. In both cases every other buffer is
  untouched and every buffer's invariant (text store, point, mark and undo history) is kept.\<close>

theorem editor_replace_correct:
  assumes "ed_inv e" "\<not> python_enabled e"
    and "length (added (buf_text (editor_buffer e))) + length s < size_max"
  shows "\<exists>e' ok. editor_replace w e at n s = Some (e', ok) \<and> ed_inv e' \<and>
    ok = (\<not> readonly (editor_buffer e) \<and> boundary (content (editor_buffer e)) at \<and>
          boundary (content (editor_buffer e)) (at + n) \<and> utf8_valid s) \<and>
    content (editor_buffer e') =
      (if ok then splice at n s (content (editor_buffer e)) else content (editor_buffer e)) \<and>
    (\<forall>i \<noteq> current e. i < length (buffers e) \<longrightarrow> buffers e' ! i = buffers e ! i)"
proof (cases "replace_ok (editor_buffer e) at n s")
  case True
  with editor_replace_ok [OF assms(1,2) True assms(3), of w] show ?thesis
    unfolding replace_ok_def by auto
next
  case False
  then obtain m where "editor_replace w e at n s = Some (editor_message m e, False)"
    using editor_replace_refused [OF assms(1)] by blast
  with False assms(1) show ?thesis unfolding replace_ok_def by auto
qed

theorem editor_replace_correct_witness:
  "\<exists>e'. editor_replace sample_world sample_editor 2 2 [120] = Some (e', True) \<and>
     content (editor_buffer e') = [97, 98, 120, 10, 99, 100]"
proof -
  have "utf8_valid [120]" by code_simp
  moreover have "splice 2 2 [120] sample = [97, 98, 120, 10, 99, 100]" by (simp add: splice_def sample_def)
  ultimately show ?thesis
    using editor_replace_correct [OF sample_editor_inv sample_editor_simps(2), of "[120]" sample_world 2 2] sample_room [of 1]
    by (auto simp: sample_editor_simps sample_buffer_simps sample_ok sample_boundary)
qed

text \<open>C35 \<open>editor_set_text\<close>, which replaces only the middle the two texts do not share, leaves exactly the text
  it was given, whatever the two texts are.\<close>

theorem set_text_correct:
  assumes "ed_inv e" "\<not> python_enabled e" "utf8_valid s" "\<not> readonly (editor_buffer e)"
    and "length (added (buf_text (editor_buffer e))) + length s < size_max"
  shows "\<exists>e'. editor_set_text w e s = Some (e', True) \<and> ed_inv e' \<and> content (editor_buffer e') = s"
  using assms by (rule editor_set_text_ok)

theorem set_text_correct_witness:
  "\<exists>e'. editor_set_text sample_world sample_editor [97, 0xC3, 0xA8, 100] = Some (e', True) \<and>
     content (editor_buffer e') = [97, 0xC3, 0xA8, 100]"
proof -
  have "utf8_valid [97, 0xC3, 0xA8, 100]" by code_simp
  then show ?thesis
    using set_text_correct [OF sample_editor_inv sample_editor_simps(2), of "[97, 0xC3, 0xA8, 100]" sample_world]
      sample_room [of 4]
    by (auto simp: sample_editor_simps sample_buffer_simps)
qed

text \<open>C5 Undo takes an edit back: after a replacement in a group of its own, one undo group restores the
  contents, the point and the state number the modified flag is read from.\<close>

theorem undo_restores:
  assumes "buf_inv b" "boundary (content b) at" "boundary (content b) (at + n)" "utf8_valid s"
    and "undo_bytes False b + length s + n < size_max"
    and "0 < history_pos b \<longrightarrow> ed_group (history b ! (history_pos b - 1)) \<noteq> g"
  shows "\<exists>c d. replace_in at n s g st b = Some c \<and> undo_group False g c = Some d \<and> buf_inv d \<and>
    content d = content b \<and> buf_state d = buf_state b \<and> point d = point b"
  using assms by (intro undo_replace) auto

theorem undo_restores_witness:
  "\<exists>c d. replace_in 2 3 [120, 121] 7 1 sample_buffer = Some c \<and> undo_group False 7 c = Some d \<and>
     content d = sample \<and> buf_state d = 0"
proof -
  have "utf8_valid [120, 121]" by code_simp
  then show ?thesis
    using undo_restores [OF sample_buffer_inv, of 2 3 "[120, 121]" 7 1]
    by (auto simp: sample_buffer_simps sample_ok sample_boundary sample_undo_bytes size_max_def)
qed

text \<open>The undo command returns for every count of either sign: it never runs off the history, and leaves
  every invariant, with the buffer at a version of its own history.\<close>

theorem undo_total:
  assumes "ed_inv e" "\<not> python_enabled e" "\<forall>r. undo_bytes r (editor_buffer e) < size_max"
  shows "\<exists>e' ok. undo w e redo n = Some (e', ok) \<and> ed_inv e' \<and>
    (let b = editor_buffer e; b' = editor_buffer e' in
       history b' = history b \<and> history_pos b' \<le> length (history b) \<and>
       (buf_state b', content b') = version b (history_pos b'))"
proof -
  obtain e' ok where "undo w e redo n = Some (e', ok)" "ed_inv e'"
    "same_history (editor_buffer e) (editor_buffer e' \<lparr>mark_active := mark_active (editor_buffer e)\<rparr>)"
    using editor_undo_total [OF assms(1,2), of w redo n] assms(3) by blast
  moreover from this(2) have "history_pos (editor_buffer e') \<le> length (history (editor_buffer e'))"
    using ed_inv_buffer by (auto simp: buf_inv_def history_inv_def)
  ultimately show ?thesis by (auto simp: same_history_def Let_def)
qed

text \<open>C4 The modified flag is sound: from a saved state, after any sequence of edits, undos, redos and moves
  with no save between, a buffer shown as unmodified holds exactly the saved contents.\<close>

theorem unmodified_means_saved:
  assumes "state_inv (k, b)" "saved_state b = buf_state b"
    and "no_save\<^sup>*\<^sup>* (k, b) (k', b')" "buf_state b' = saved_state b'"
  shows "content b' = content b"
  using assms by (rule modified_flag_sound)

theorem unmodified_means_saved_witness:
  "content (sample_buffer\<lparr>point := 4\<rparr>) = content sample_buffer"
proof (rule unmodified_means_saved [of 0 sample_buffer 0])
  show "state_inv (0, sample_buffer)"
    using sample_buffer_inv
    by (simp add: state_inv_def sample_buffer_simps version_def origin_def)
  have "boundary (content sample_buffer) 4" using sample_boundary [of 4] sample_content by simp
  then have "edit_step (0, sample_buffer) (0, sample_buffer\<lparr>point := 4\<rparr>)" by (rule edit_step.move)
  then have "no_save (0, sample_buffer) (0, sample_buffer\<lparr>point := 4\<rparr>)" by (rule no_save.intros) simp
  then show "no_save\<^sup>*\<^sup>* (0, sample_buffer) (0, sample_buffer\<lparr>point := 4\<rparr>)" by blast
qed (simp_all add: sample_buffer_simps)

end
