(* ===== verification/Columns.thy ===== *)
theory Columns
  imports Buffer_Edits
begin

section \<open>Display columns (\<open>scan_columns\<close>, \<open>editor_column\<close>, \<open>editor_at_column_ex\<close> in \<open>src/buffer.c\<close>)\<close>

subsection \<open>The code\<close>

text \<open>The column after a character: tabs go to the next stop, control characters take two columns.\<close>

definition char_width :: "World \<Rightarrow> 32 word \<Rightarrow> nat" where
  "char_width w c = (let width = wcwidth w c in
     if width < 0 then (if c < 32 \<or> c = 127 then 2 else 1) else nat width)"

definition next_column :: "World \<Rightarrow> nat \<Rightarrow> 32 word \<Rightarrow> nat \<Rightarrow> nat" where
  "next_column w tab c column = column + (if c = 9 then tab - column mod tab else char_width w c)"

text \<open>\<open>while(n && !text_boundary(&b->text,at+n)) n--\<close>\<close>

fun bound_back :: "Text \<Rightarrow> nat \<Rightarrow> nat \<Rightarrow> nat" where
  "bound_back t at 0 = 0"
| "bound_back t at (Suc n) = (if text_boundary t (at + Suc n) then Suc n else bound_back t at n)"

text \<open>The inner loop over a chunk, from offset \<open>i\<close>: \<open>Inr\<close> is the early return of a limited scan.\<close>

function scan_chunk :: "World \<Rightarrow> nat \<Rightarrow> bytes \<Rightarrow> nat \<Rightarrow> nat \<Rightarrow> nat \<Rightarrow> bool \<Rightarrow> nat + nat \<times> nat" where
  "scan_chunk w tab s i column target limit =
     (if s = [] then Inl column
      else
        let (c, k) = utf8_decode s; nxt = next_column w tab c column in
        if limit \<and> nxt > target then Inr (i, column)
        else scan_chunk w tab (drop k s) (i + k) nxt target limit)"
  by pat_completeness auto
termination
proof (relation "measure (\<lambda>(w, tab, s, i, column, target, limit). length s)", goal_cases)
  case (2 w tab s i column target limit x c k nxt)
  then have "1 \<le> k" using utf8_decode_used [of s] by (metis snd_conv)
  with 2 show ?case by (cases s) auto
qed simp

declare scan_chunk.simps [simp del]

text \<open>The offset reached and the column there. When no character ends in the range the chunk is
  cut to nothing and the loop runs for ever: \<open>None\<close>.\<close>

function scan_columns :: "World \<Rightarrow> Text \<Rightarrow> nat \<Rightarrow> nat \<Rightarrow> nat \<Rightarrow> nat \<Rightarrow> nat \<Rightarrow> bool \<Rightarrow> (nat \<times> nat) option" where
  "scan_columns w t tab at stop column target limit =
     (if at < stop then
        let n = (if stop - at > 4096 then 4096 else stop - at); n = bound_back t at n in
        if n = 0 then None
        else (case scan_chunk w tab (text_copy t at n) 0 column target limit of
          Inr (i, column) \<Rightarrow> Some (at + i, column)
        | Inl column \<Rightarrow> scan_columns w t tab (at + n) stop column target limit)
      else Some (at, column))"
  by pat_completeness auto
termination
  by (relation "measure (\<lambda>(w, t, tab, at, stop, column, target, limit). stop - at)") auto

declare scan_columns.simps [simp del]

definition editor_column :: "World \<Rightarrow> Buffer \<Rightarrow> nat \<Rightarrow> (nat \<times> Buffer) option" where
  "editor_column w b pt =
     (let line = text_line_of (buf_text b) pt; start = text_line_start (buf_text b) line;
          cache = column_cache b;
          (at, col) = (if valid cache \<and> cache_line_start cache = start \<and> cache_point cache \<le> pt
                       then (cache_point cache, cache_column cache) else (start, 0)) in do {
        (_, col) \<leftarrow> scan_columns w (buf_text b) (tab_width b) at pt col 0 False;
        Some (col, if pt - start > 4096
          then b\<lparr>column_cache := \<lparr>cache_point = pt, cache_column = col, cache_line_start = start, valid = True\<rparr>\<rparr>
          else b) })"

text \<open>The end of a line, without its newline.\<close>

definition line_end :: "Text \<Rightarrow> nat \<Rightarrow> nat" where
  "line_end t line =
     (let start = text_line_start t line; z = text_line_start t (line + 1) in
      if z > start \<and> is_nl (text_byte t (z - 1)) then z - 1 else z)"

text \<open>The offset and the actual column there.\<close>

definition editor_at_column_ex :: "World \<Rightarrow> Buffer \<Rightarrow> nat \<Rightarrow> nat \<Rightarrow> ((nat \<times> nat) \<times> Buffer) option" where
  "editor_at_column_ex w b line column =
     (let start = text_line_start (buf_text b) line; z = line_end (buf_text b) line;
          cache = seek_cache b;
          (at, col) = (if valid cache \<and> cache_line_start cache = start \<and> cache_column cache \<le> column
                       then (cache_point cache, cache_column cache) else (start, 0)) in do {
        (at, col) \<leftarrow> scan_columns w (buf_text b) (tab_width b) at z col column True;
        Some ((at, col), if at - start > 4096
          then b\<lparr>seek_cache := \<lparr>cache_point = at, cache_column = col, cache_line_start = start, valid = True\<rparr>\<rparr>
          else b) })"

definition editor_at_column :: "World \<Rightarrow> Buffer \<Rightarrow> nat \<Rightarrow> nat \<Rightarrow> (nat \<times> Buffer) option" where
  "editor_at_column w b line column = do {
     ((at, _), b) \<leftarrow> editor_at_column_ex w b line column;
     Some (at, b) }"

subsection \<open>The reference: columns of a text\<close>

text \<open>What the scans compute, with no chunks and no caches: the column after \<open>s\<close>, and how far a line
  reaches without passing \<open>target\<close>.\<close>

function columns :: "World \<Rightarrow> nat \<Rightarrow> bytes \<Rightarrow> nat \<Rightarrow> nat" where
  "columns w tab s column =
     (if s = [] then column
      else columns w tab (drop (snd (utf8_decode s)) s) (next_column w tab (fst (utf8_decode s)) column))"
  by pat_completeness auto
termination
proof (relation "measure (\<lambda>(w, tab, s, column). length s)", goal_cases)
  case (2 w tab s column)
  then show ?case using utf8_decode_used [of s] by (cases s) auto
qed simp

declare columns.simps [simp del]

function seek :: "World \<Rightarrow> nat \<Rightarrow> bytes \<Rightarrow> nat \<Rightarrow> nat \<Rightarrow> nat \<times> nat" where
  "seek w tab s column target =
     (if s = [] then (0, column)
      else
        let (c, k) = utf8_decode s; nxt = next_column w tab c column in
        if nxt > target then (0, column)
        else let (i, col) = seek w tab (drop k s) nxt target in (k + i, col))"
  by pat_completeness auto
termination
proof (relation "measure (\<lambda>(w, tab, s, column, target). length s)", goal_cases)
  case (2 w tab s column target x c k nxt)
  then have "1 \<le> k" using utf8_decode_used [of s] by (metis snd_conv)
  with 2 show ?case by (cases s) auto
qed simp

declare seek.simps [simp del]

lemma encode_nonempty: "utf8_encode c \<noteq> []"
  by (simp add: utf8_encode_def)

lemma columns_Nil [simp]: "columns w tab [] column = column"
  by (simp add: columns.simps)

lemma columns_char:
  "text_scalar c \<Longrightarrow> columns w tab (utf8_encode c @ s) column = columns w tab s (next_column w tab (word_of_nat c) column)"
  by (subst columns.simps) (simp add: encode_nonempty decode_encode text_scalar_def)

lemma columns_append:
  "utf8_valid s \<Longrightarrow> columns w tab (s @ t) column = columns w tab t (columns w tab s column)"
  by (induction arbitrary: column rule: utf8_valid_induct) (simp_all add: columns_char)

lemma seek_Nil [simp]: "seek w tab [] column target = (0, column)"
  by (simp add: seek.simps)

lemma seek_char:
  "text_scalar c \<Longrightarrow> seek w tab (utf8_encode c @ s) column target =
     (let nxt = next_column w tab (word_of_nat c) column in
      if nxt > target then (0, column)
      else let (i, col) = seek w tab s nxt target in (length (utf8_encode c) + i, col))"
  by (subst seek.simps) (simp add: encode_nonempty decode_encode text_scalar_def Let_def)

lemma scan_chunk_Nil [simp]: "scan_chunk w tab [] i column target limit = Inl column"
  by (simp add: scan_chunk.simps)

lemma scan_chunk_char:
  "text_scalar c \<Longrightarrow> scan_chunk w tab (utf8_encode c @ s) i column target limit =
     (let nxt = next_column w tab (word_of_nat c) column in
      if limit \<and> nxt > target then Inr (i, column)
      else scan_chunk w tab s (i + length (utf8_encode c)) nxt target limit)"
  by (subst scan_chunk.simps) (simp add: encode_nonempty decode_encode text_scalar_def Let_def)

lemma scan_chunk_unlimited: "utf8_valid s \<Longrightarrow> scan_chunk w tab s i column target False = Inl (columns w tab s column)"
  by (induction arbitrary: i column rule: utf8_valid_induct) (simp_all add: scan_chunk_char columns_char)


text \<open>A limited scan of a chunk stops where \<open>seek\<close> does, or passes the chunk.\<close>

lemma scan_chunk_limited:
  "utf8_valid s \<Longrightarrow> scan_chunk w tab s i column target True =
     (let (k, col) = seek w tab s column target in if k < length s then Inr (i + k, col) else Inl col)"
proof (induction arbitrary: i column rule: utf8_valid_induct)
  case (Char c s)
  have "0 < length (utf8_encode c)" using encode_nonempty by simp
  with Char show ?case
    by (auto simp: scan_chunk_char seek_char Let_def split: prod.splits)
qed simp

lemma seek_le: "utf8_valid s \<Longrightarrow> fst (seek w tab s column target) \<le> length s"
proof (induction arbitrary: column rule: utf8_valid_induct)
  case (Char c s)
  then show ?case by (auto simp: seek_char Let_def split: prod.splits) (metis fst_conv)
qed simp

lemma seek_append:
  "utf8_valid s \<Longrightarrow> seek w tab (s @ t) column target =
     (let (k, col) = seek w tab s column target in
      if k < length s then (k, col) else let (i, col) = seek w tab t col target in (length s + i, col))"
proof (induction arbitrary: column rule: utf8_valid_induct)
  case (Char c s)
  have "0 < length (utf8_encode c)" using encode_nonempty by simp
  with Char show ?case by (auto simp: seek_char Let_def split: prod.splits)
qed (simp split: prod.split)

subsection \<open>The chunks\<close>

lemma bound_back_le: "bound_back t at n \<le> n"
  by (induction n) auto

lemma bound_back_boundary: "bound_back t at n \<noteq> 0 \<Longrightarrow> text_boundary t (at + bound_back t at n)"
  by (induction n) (auto split: if_splits)

lemma bound_back_pos: "0 < j \<Longrightarrow> j \<le> n \<Longrightarrow> text_boundary t (at + j) \<Longrightarrow> 0 < bound_back t at n"
  by (induction n) (auto simp: le_Suc_eq)

lemma bound_back_whole: "text_boundary t (at + n) \<Longrightarrow> bound_back t at n = n"
  by (cases n) auto

lemma bound_back_zero: "bound_back t at n = 0 \<longleftrightarrow> (\<forall>j. 0 < j \<and> j \<le> n \<longrightarrow> \<not> text_boundary t (at + j))"
  using bound_back_pos [of _ n t at] bound_back_boundary [of t at n] bound_back_le [of t at n]
  by (metis bot_nat_0.not_eq_extremum)

text \<open>A chunk between two boundaries is not empty and ends at a boundary.\<close>

lemma chunk_ok:
  assumes inv: "text_inv t" and at: "boundary (text_content t) at" and z: "boundary (text_content t) z"
    and lt: "at < z" and n: "n = bound_back t at (if z - at > 4096 then 4096 else z - at)"
  shows "0 < n" "n \<le> z - at" "boundary (text_content t) (at + n)" "utf8_valid (seg at n (text_content t))"
proof -
  let ?xs = "text_content t" and ?m = "if z - at > 4096 then 4096 else z - at"
  have xs: "utf8_valid ?xs" using inv by (rule text_inv_valid)
  have zl: "z \<le> length ?xs" using z by (rule boundary_le)
  show le: "n \<le> z - at" using bound_back_le [of t at ?m] n by (simp split: if_splits)
  show pos: "0 < n"
  proof (cases "z - at > 4096")
    case True
    then have "4 < length (drop at ?xs)" using zl by simp
    then obtain j where j: "0 < j" "j \<le> 4" "\<not> is_cont (drop at ?xs ! j)"
      using valid_start_near [OF valid_drop [OF xs at]] by blast
    have "boundary ?xs (at + j)" using j True zl by (auto simp: boundary_def)
    then show ?thesis
      unfolding n using True j by (intro bound_back_pos [of j]) (simp_all add: text_boundary_content [OF inv])
  next
    case False
    then show ?thesis
      using lt z n by (simp add: bound_back_whole text_boundary_content [OF inv])
  qed
  show b: "boundary ?xs (at + n)"
    using bound_back_boundary [of t at ?m] pos n by (simp add: text_boundary_content [OF inv])
  show "utf8_valid (seg at n ?xs)" using xs at b by (rule valid_seg)
qed

lemma scan_columns_unlimited:
  assumes "text_inv t" "boundary (text_content t) at" "boundary (text_content t) z" "at \<le> z"
  shows "scan_columns w t tab at z column target False =
    Some (z, columns w tab (seg at (z - at) (text_content t)) column)"
  using assms(2,4)
proof (induction "z - at" arbitrary: at column rule: less_induct)
  case less
  show ?case
  proof (cases "at < z")
    case True
    define n where "n = bound_back t at (if z - at > 4096 then 4096 else z - at)"
    note C = chunk_ok [OF assms(1) less.prems(1) assms(3) True n_def]
    let ?s = "seg at n (text_content t)"
    have "scan_columns w t tab at z column target False =
        scan_columns w t tab (at + n) z (columns w tab ?s column) target False"
      using True C(1) assms(1)
      by (subst scan_columns.simps)
        (simp add: Let_def text_copy_ok scan_chunk_unlimited [OF C(4)] flip: n_def)
    also have "\<dots> = Some (z, columns w tab (seg (at + n) (z - (at + n)) (text_content t)) (columns w tab ?s column))"
      using C(1,2) True by (intro less.hyps C(3)) auto
    also have "\<dots> = Some (z, columns w tab (seg at (z - at) (text_content t)) column)"
      using seg_split [OF C(2), of at "text_content t"] C(4) by (simp add: columns_append diff_diff_left)
    finally show ?thesis .
  next
    case False
    with less.prems have "at = z" by simp
    then show ?thesis by (subst scan_columns.simps) simp
  qed
qed

lemma scan_columns_limited:
  assumes "text_inv t" "boundary (text_content t) at" "boundary (text_content t) z" "at \<le> z"
  shows "scan_columns w t tab at z column target True =
    (let (k, col) = seek w tab (seg at (z - at) (text_content t)) column target in Some (at + k, col))"
  using assms(2,4)
proof (induction "z - at" arbitrary: at column rule: less_induct)
  case less
  show ?case
  proof (cases "at < z")
    case True
    define n where "n = bound_back t at (if z - at > 4096 then 4096 else z - at)"
    note C = chunk_ok [OF assms(1) less.prems(1) assms(3) True n_def]
    let ?s = "seg at n (text_content t)" and ?r = "seg (at + n) (z - (at + n)) (text_content t)"
    obtain k col where k: "seek w tab ?s column target = (k, col)" by fastforce
    have le: "n \<le> length (text_content t) - at" using C(2) True boundary_le [OF assms(3)] by simp
    then have len: "length ?s = n" by simp
    have split: "seg at (z - at) (text_content t) = ?s @ ?r"
      using seg_split [OF C(2), of at "text_content t"] by (simp add: diff_diff_left)
    have step: "scan_columns w t tab at z column target True =
        (if k < n then Some (at + k, col) else scan_columns w t tab (at + n) z col target True)"
      using True C(1) assms(1) k len
      by (subst scan_columns.simps)
        (simp add: Let_def text_copy_ok scan_chunk_limited [OF C(4)] flip: n_def)
    show ?thesis
    proof (cases "k < n")
      case True
      then show ?thesis unfolding step split by (simp add: seek_append [OF C(4)] k le min_absorb1)
    next
      case False
      have "k \<le> n" using seek_le [OF C(4), of w tab column target] k len by simp
      have "scan_columns w t tab (at + n) z col target True =
          (let (i, c) = seek w tab ?r col target in Some (at + n + i, c))"
        using C(1,2) True by (intro less.hyps C(3)) auto
      with False show ?thesis
        unfolding step split by (simp add: seek_append [OF C(4)] k le min_absorb1 Let_def split: prod.splits)
    qed
  next
    case False
    with less.prems have "at = z" by simp
    then show ?thesis by (subst scan_columns.simps) simp
  qed
qed

text \<open>Where no character ends in a range the scan does not return.\<close>

theorem scan_columns_hangs:
  assumes inv: "text_inv t" and "boundary (text_content t) at" "at < z"
    and z: "\<not> boundary (text_content t) z" "z < length (text_content t)"
  shows "scan_columns w t tab at z column target False = None"
  using assms(2,3)
proof (induction "z - at" arbitrary: at column rule: less_induct)
  case less
  let ?m = "if z - at > 4096 then 4096 else z - at"
  define n where "n = bound_back t at ?m"
  have n: "n \<le> z - at" using bound_back_le [of t at ?m] by (simp add: n_def split: if_splits)
  show ?case
  proof (cases "n = 0")
    case True
    then show ?thesis using less.prems(2) by (subst scan_columns.simps) (simp flip: n_def)
  next
    case False
    then have b: "boundary (text_content t) (at + n)"
      using bound_back_boundary [of t at ?m] by (simp add: n_def text_boundary_content [OF inv])
    then have "at + n \<noteq> z" using z(1) by metis
    with n less.prems(2) have lt: "at + n < z" by simp
    have v: "utf8_valid (seg at n (text_content t))"
      using text_inv_valid [OF inv] less.prems(1) b by (rule valid_seg)
    have "scan_columns w t tab (at + n) z (columns w tab (seg at n (text_content t)) column) target False = None"
      using False less.prems(2) by (intro less.hyps b lt) auto
    then show ?thesis
      using False less.prems(2) inv
      by (subst scan_columns.simps)
        (simp add: Let_def text_copy_ok scan_chunk_unlimited [OF v] flip: n_def)
  qed
qed

subsection \<open>The caches\<close>

text \<open>A valid cache holds a position on the line that starts at \<open>cache_line_start\<close> and its column.\<close>

definition cache_ok :: "World \<Rightarrow> nat \<Rightarrow> bytes \<Rightarrow> ColumnCache \<Rightarrow> bool" where
  "cache_ok w tab xs c \<longleftrightarrow> (valid c \<longrightarrow>
     cache_line_start c \<le> cache_point c \<and> boundary xs (cache_line_start c) \<and> boundary xs (cache_point c) \<and>
     count_nl (seg (cache_line_start c) (cache_point c - cache_line_start c) xs) = 0 \<and>
     columns w tab (seg (cache_line_start c) (cache_point c - cache_line_start c) xs) 0 = cache_column c)"

definition caches_ok :: "World \<Rightarrow> Buffer \<Rightarrow> bool" where
  "caches_ok w b \<longleftrightarrow> cache_ok w (tab_width b) (content b) (column_cache b) \<and>
     cache_ok w (tab_width b) (content b) (seek_cache b)"

text \<open>An edit at or after the cached position leaves it right.\<close>

lemma cache_ok_prefix:
  assumes "cache_ok w tab xs c" "valid c \<Longrightarrow> take (cache_point c) ys = take (cache_point c) xs"
    "valid c \<Longrightarrow> boundary ys (cache_line_start c) \<and> boundary ys (cache_point c)"
  shows "cache_ok w tab ys c"
proof (cases "valid c")
  case True
  have "seg (cache_line_start c) (cache_point c - cache_line_start c) ys =
      seg (cache_line_start c) (cache_point c - cache_line_start c) xs"
    using assms(2) True assms(1) unfolding seg_def
    by (simp add: cache_ok_def take_drop)
  with assms True show ?thesis by (simp add: cache_ok_def)
qed (simp add: cache_ok_def)

lemma take_splice: "p \<le> at \<Longrightarrow> at \<le> length xs \<Longrightarrow> take p (splice at n s xs) = take p xs"
  by (simp add: splice_def)

lemma cache_ok_splice:
  assumes "cache_ok w tab xs c" "valid c \<Longrightarrow> cache_point c \<le> at" "boundary xs at" "boundary xs (at + n)"
    "utf8_valid xs" "utf8_valid s"
  shows "cache_ok w tab (splice at n s xs) c"
proof (rule cache_ok_prefix [OF assms(1)])
  note B = boundary_splice [OF assms(3-6)]
  assume v: "valid c"
  have "boundary xs p \<Longrightarrow> p \<le> at \<Longrightarrow> boundary (splice at n s xs) p" for p
    using B(1,3) by (cases "p = at") auto
  with v assms(1,2) show "boundary (splice at n s xs) (cache_line_start c) \<and> boundary (splice at n s xs) (cache_point c)"
    by (auto simp: cache_ok_def)
  show "take (cache_point c) (splice at n s xs) = take (cache_point c) xs"
    using assms(2) [OF v] boundary_le [OF assms(3)] by (rule take_splice)
qed


subsection \<open>Lines\<close>

lemma line_start_boundary: "utf8_valid xs \<Longrightarrow> boundary xs (line_start xs k)"
proof (cases "0 < k \<and> k \<le> count_nl xs")
  case True
  assume v: "utf8_valid xs"
  note L = line_start_after [OF True [THEN conjunct1] True [THEN conjunct2]]
  then have i: "line_start xs k - 1 < length xs" "Suc (line_start xs k - 1) = line_start xs k"
    using line_start_le [of xs k] by linarith+
  have "unat (xs ! (line_start xs k - 1)) < 128" using L by (simp add: is_nl_def)
  from ascii_boundary(2) [OF v i(1) this] i(2) show ?thesis by simp
next
  case False
  assume v: "utf8_valid xs"
  from False v show ?thesis by (cases k) (auto simp: line_start_past)
qed

lemma count_nl_take_le: "count_nl (take n xs) \<le> count_nl xs"
  using count_nl_simps(3) [of "take n xs" "drop n xs"] by simp

text \<open>Between the start of its line and a position there is no newline.\<close>

lemma line_no_newline:
  assumes "pt \<le> length xs"
  defines "start \<equiv> line_start xs (count_nl (take pt xs))"
  shows "start \<le> pt" "count_nl (seg start (pt - start) xs) = 0"
proof -
  show le: "start \<le> pt" unfolding start_def using assms(1) by (rule line_start_count)
  have "count_nl (take start xs) = count_nl (take pt xs)"
    unfolding start_def using count_nl_take_le [of pt xs] by (simp add: count_line_start)
  moreover have "take pt xs = take start xs @ seg start (pt - start) xs"
    using le unfolding seg_def by (metis le_add_diff_inverse take_add)
  ultimately show "count_nl (seg start (pt - start) xs) = 0" by simp
qed

theorem editor_column_ok:
  assumes inv: "text_inv (buf_text b)" and pt: "boundary (content b) pt" and ok: "caches_ok w b"
  defines "start \<equiv> line_start (content b) (count_nl (take pt (content b)))"
  shows "\<exists>b'. editor_column w b pt = Some (columns w (tab_width b) (seg start (pt - start) (content b)) 0, b') \<and>
    caches_ok w b' \<and> (\<exists>c. b' = b\<lparr>column_cache := c\<rparr>)"
proof -
  let ?xs = "content b" and ?c = "column_cache b" and ?tab = "tab_width b"
  have xs: "utf8_valid ?xs" using inv by (rule text_inv_valid)
  have ptl: "pt \<le> length ?xs" using pt by (rule boundary_le)
  note L = line_no_newline [OF ptl, folded start_def]
  have bs: "boundary ?xs start" unfolding start_def using xs by (rule line_start_boundary)
  have start: "text_line_start (buf_text b) (text_line_of (buf_text b) pt) = start"
    using inv ptl by (simp add: text_line_start_ok text_line_of_ok start_def)
  define hit where "hit \<longleftrightarrow> valid ?c \<and> cache_line_start ?c = start \<and> cache_point ?c \<le> pt"
  define at col where "at = (if hit then cache_point ?c else start)" and "col = (if hit then cache_column ?c else 0)"
  have at: "boundary ?xs at" "start \<le> at" "at \<le> pt" "columns w ?tab (seg start (at - start) ?xs) 0 = col"
    using ok bs L(1) by (auto simp: at_def col_def hit_def caches_ok_def cache_ok_def)
  have "utf8_valid (seg start (at - start) ?xs)" using xs bs at(1,2) by (intro valid_seg) simp_all
  then have full: "columns w ?tab (seg at (pt - at) ?xs) col = columns w ?tab (seg start (pt - start) ?xs) 0"
    using seg_split [of "at - start" "pt - start" start ?xs] at(2-4) by (simp add: columns_append)
  have scan: "scan_columns w (buf_text b) ?tab at pt col 0 False = Some (pt, columns w ?tab (seg start (pt - start) ?xs) 0)"
    using scan_columns_unlimited [OF inv at(1) pt at(3)] full by simp
  define new where "new = \<lparr>cache_point = pt, cache_column = columns w ?tab (seg start (pt - start) ?xs) 0,
      cache_line_start = start, valid = True\<rparr>"
  have "cache_ok w ?tab ?xs new" using L bs pt by (simp add: cache_ok_def new_def)
  then have ok': "caches_ok w (b\<lparr>column_cache := new\<rparr>)" using ok by (simp add: caches_ok_def)
  have "(if hit then (cache_point ?c, cache_column ?c) else (start, 0)) = (at, col)"
    by (simp add: at_def col_def)
  then have "editor_column w b pt = Some (columns w ?tab (seg start (pt - start) ?xs) 0,
      if pt - start > 4096 then b\<lparr>column_cache := new\<rparr> else b)"
    unfolding editor_column_def Let_def start hit_def [symmetric] by (simp add: scan new_def)
  moreover have "\<exists>c. b = b\<lparr>column_cache := c\<rparr>" by (rule exI [of _ ?c]) simp
  ultimately show ?thesis using ok ok' by (cases "pt - start > 4096") (simp_all, blast?)
qed

text \<open>Seeking a column on a line: the reference scan from the line's start.\<close>

lemma seek_columns: "utf8_valid s \<Longrightarrow> snd (seek w tab s column target) = columns w tab (take (fst (seek w tab s column target)) s) column"
proof (induction arbitrary: column rule: utf8_valid_induct)
  case (Char c s)
  show ?case
  proof (cases "next_column w tab (word_of_nat c) column > target")
    case False
    obtain i col where e: "seek w tab s (next_column w tab (word_of_nat c) column) target = (i, col)" by fastforce
    show ?thesis
      using False Char.hyps(1) Char.IH [of "next_column w tab (word_of_nat c) column"]
      by (simp add: seek_char columns_char e)
  qed (use Char.hyps in \<open>simp add: seek_char\<close>)
qed simp

lemma next_column_le: "column \<le> next_column w tab c column"
  by (simp add: next_column_def)

lemma columns_mono: "utf8_valid s \<Longrightarrow> column \<le> columns w tab s column"
proof (induction arbitrary: column rule: utf8_valid_induct)
  case (Char c s)
  show ?case
    using Char.IH [of "next_column w tab (word_of_nat c) column"] next_column_le [of column w tab "word_of_nat c"]
    by (simp add: columns_char [OF Char.hyps(1)])
qed simp

text \<open>A prefix whose columns stay within the target is passed by the scan.\<close>

lemma seek_skip:
  "utf8_valid s \<Longrightarrow> columns w tab s column \<le> target \<Longrightarrow>
     seek w tab (s @ t) column target =
     (let (i, col) = seek w tab t (columns w tab s column) target in (length s + i, col))"
proof (induction arbitrary: column rule: utf8_valid_induct)
  case (Char c s)
  have "next_column w tab (word_of_nat c) column \<le> target"
    using Char.prems columns_mono [OF Char.hyps(2)] order.trans by (simp add: columns_char [OF Char.hyps(1)]) blast
  with Char show ?case
    by (simp add: seek_char columns_char split: prod.splits)
qed (simp split: prod.split)


lemma line_end_ok:
  assumes "text_inv t"
  defines "xs \<equiv> text_content t"
  shows "boundary xs (line_end t line)" "line_start xs line \<le> line_end t line"
proof -
  let ?s = "line_start xs line" and ?z = "line_start xs (line + 1)"
  have xs: "utf8_valid xs" unfolding xs_def using assms(1) by (rule text_inv_valid)
  have le: "?s \<le> ?z" by (rule line_start_mono) simp
  have e: "line_end t line = (if ?z > ?s \<and> is_nl (text_byte t (?z - 1)) then ?z - 1 else ?z)"
    using assms(1) by (simp add: line_end_def Let_def text_line_start_ok xs_def)
  have "boundary xs (?z - 1)" if "?z > ?s" "is_nl (text_byte t (?z - 1))"
  proof -
    have i: "?z - 1 < length xs" using that(1) line_start_le [of xs "line + 1"] by linarith
    then have "unat (xs ! (?z - 1)) < 128"
      using that(2) text_byte_content [OF assms(1)] by (simp add: is_nl_def xs_def)
    then show ?thesis using ascii_boundary(1) [OF xs i] by simp
  qed
  then show "boundary xs (line_end t line)"
    unfolding e using line_start_boundary [OF xs] by simp
  show "?s \<le> line_end t line" unfolding e using le by auto
qed

lemma count_nl_zero: "count_nl s = 0 \<longleftrightarrow> (\<forall>c \<in> set s. \<not> is_nl c)"
  by (induction s) auto

lemma seg_no_newline: "count_nl (seg at n xs) = 0 \<Longrightarrow> at \<le> i \<Longrightarrow> i < at + n \<Longrightarrow> i < length xs \<Longrightarrow> \<not> is_nl (xs ! i)"
proof -
  assume a: "count_nl (seg at n xs) = 0" "at \<le> i" "i < at + n" "i < length xs"
  then have "i - at < length (seg at n xs)" unfolding length_seg by linarith
  moreover have "seg at n xs ! (i - at) = xs ! i" using a by (simp add: seg_def)
  ultimately have "xs ! i \<in> set (seg at n xs)" by (metis nth_mem)
  with a(1) show ?thesis by (simp add: count_nl_zero)
qed

lemma count_take_seg: "a \<le> z \<Longrightarrow> count_nl (take z xs) = count_nl (take a xs) + count_nl (seg a (z - a) xs)"
  by (metis count_nl_simps(3) le_add_diff_inverse seg_def take_add)

lemma line_end_count:
  assumes "text_inv t"
  defines "xs \<equiv> text_content t"
  shows "count_nl (seg (line_start xs line) (line_end t line - line_start xs line) xs) = 0"
    and "p \<le> length xs \<Longrightarrow> line_start xs line \<le> p \<Longrightarrow>
      count_nl (seg (line_start xs line) (p - line_start xs line) xs) = 0 \<Longrightarrow> p \<le> line_end t line"
proof -
  let ?s = "line_start xs line" and ?z = "line_start xs (line + 1)" and ?e = "line_end t line"
  let ?nl = "?z > ?s \<and> is_nl (text_byte t (?z - 1))"
  have le: "?s \<le> ?z" by (rule line_start_mono) simp
  have zl: "?z \<le> length xs" by (rule line_start_le)
  have e: "?e = (if ?nl then ?z - 1 else ?z)"
    using assms(1) by (simp add: line_end_def Let_def text_line_start_ok xs_def)
  have cs: "count_nl (take ?s xs) = min line (count_nl xs)"
    and cz: "count_nl (take ?z xs) = min (line + 1) (count_nl xs)" by (rule count_line_start)+
  have byte: "is_nl (text_byte t (?z - 1)) \<longleftrightarrow> is_nl (xs ! (?z - 1))" if "?z > ?s"
  proof -
    have "?z - 1 < length xs" using that zl by linarith
    then show ?thesis using text_byte_content [OF assms(1)] by (simp add: xs_def)
  qed
  have last: "?nl" if "line + 1 \<le> count_nl xs"
  proof -
    have "?z \<noteq> ?s" using cs cz that by auto
    then show ?thesis using line_start_after [OF _ that] le byte by simp
  qed
  have "count_nl (take ?e xs) \<le> count_nl (take ?s xs)"
  proof (cases ?nl)
    case True
    then have z: "Suc (?z - 1) = ?z" "?z - 1 < length xs" "is_nl (xs ! (?z - 1))"
      using zl byte by auto
    then have "take ?z xs = take (?z - 1) xs @ [xs ! (?z - 1)]"
      by (metis take_Suc_conv_app_nth)
    then have "count_nl (take ?z xs) = Suc (count_nl (take (?z - 1) xs))" using z(3) by simp
    then show ?thesis using cs cz True e by auto
  next
    case False
    then have "count_nl xs \<le> line" using last by fastforce
    with False show ?thesis using cs cz e by (auto simp: min_def)
  qed
  then show "count_nl (seg ?s (?e - ?s) xs) = 0"
    using count_take_seg [OF line_end_ok(2) [OF assms(1), of line], folded xs_def] by simp
  show "p \<le> ?e" if p: "p \<le> length xs" "?s \<le> p" "count_nl (seg ?s (p - ?s) xs) = 0"
  proof (rule ccontr)
    assume "\<not> p \<le> ?e"
    then have lt: "?e < p" by simp
    show False
    proof (cases ?nl)
      case True
      then have "is_nl (xs ! ?e)" "?s \<le> ?e" using e byte by auto
      with seg_no_newline [OF p(3), of ?e] lt p(1,2) show False by simp
    next
      case False
      then have "\<not> line + 1 \<le> count_nl xs" using last by blast
      then have "?z = length xs" by (simp add: line_start_past)
      moreover have "?e = ?z" using e False by (simp only: if_False)
      ultimately show False using lt p(1) by linarith
    qed
  qed
qed

lemma seek_boundary: "utf8_valid s \<Longrightarrow> boundary s (fst (seek w tab s column target))"
proof (induction arbitrary: column rule: utf8_valid_induct)
  case (Char c s)
  obtain i col where e: "seek w tab s (next_column w tab (word_of_nat c) column) target = (i, col)" by fastforce
  have "utf8_valid (utf8_encode c @ s)" using Char.hyps by (simp add: decode_valid_step)
  moreover have "boundary s i" using Char.IH [of "next_column w tab (word_of_nat c) column"] e by simp
  ultimately show ?case
    using Char.hyps(1) by (simp add: seek_char e Let_def boundary_suffix)
qed simp

lemma boundary_of_seg:
  assumes "boundary (seg at n xs) i" "at + n \<le> length xs" "boundary xs (at + n)"
  shows "boundary xs (at + i)"
proof (cases "i = n")
  case False
  have len: "length (seg at n xs) = n" using assms(2) by simp
  with assms(1) False have "i < n" using boundary_le by fastforce
  then have "seg at n xs ! i = xs ! (at + i)" using assms(2) by simp
  with assms(1,2) False len \<open>i < n\<close> show ?thesis by (auto simp: boundary_def)
qed (use assms in simp)

theorem editor_at_column_ok:
  assumes inv: "text_inv (buf_text b)" and ok: "caches_ok w b"
    and start: "start = line_start (content b) line" and z: "z = line_end (buf_text b) line"
  shows "\<exists>b'. editor_at_column_ex w b line column =
      (let (i, col) = seek w (tab_width b) (seg start (z - start) (content b)) 0 column in Some ((start + i, col), b')) \<and>
    caches_ok w b' \<and> (\<exists>c. b' = b\<lparr>seek_cache := c\<rparr>)"
proof -
  let ?xs = "content b" and ?c = "seek_cache b" and ?tab = "tab_width b"
  have xs: "utf8_valid ?xs" using inv by (rule text_inv_valid)
  have bs: "boundary ?xs start" unfolding start using xs by (rule line_start_boundary)
  have bz: "boundary ?xs z" and sz: "start \<le> z" unfolding start z using line_end_ok [OF inv] by simp_all
  note E = line_end_count [OF inv, where line = line, folded start z]
  have v: "utf8_valid (seg start (z - start) ?xs)" using xs bs bz sz by (intro valid_seg) simp_all
  define hit where "hit \<longleftrightarrow> valid ?c \<and> cache_line_start ?c = start \<and> cache_column ?c \<le> column"
  define at col where "at = (if hit then cache_point ?c else start)" and "col = (if hit then cache_column ?c else 0)"
  have at: "boundary ?xs at" "start \<le> at" "columns w ?tab (seg start (at - start) ?xs) 0 = col"
    "hit \<Longrightarrow> col \<le> column" "count_nl (seg start (at - start) ?xs) = 0"
    using ok bs by (auto simp: at_def col_def hit_def caches_ok_def cache_ok_def)
  have az: "at \<le> z" using E(2) [OF boundary_le [OF at(1)] at(2,5)] .
  have v1: "utf8_valid (seg start (at - start) ?xs)" using xs bs at(1,2) by (intro valid_seg) simp_all
  obtain i c where s: "seek w ?tab (seg at (z - at) ?xs) col column = (i, c)" by fastforce
  have whole: "seek w ?tab (seg start (z - start) ?xs) 0 column = (at - start + i, c)"
  proof (cases hit)
    case True
    have "seg start (z - start) ?xs = seg start (at - start) ?xs @ seg at (z - at) ?xs"
      using seg_split [of "at - start" "z - start" start ?xs] at(2) az by simp
    moreover have "length (seg start (at - start) ?xs) = at - start" using boundary_le [OF at(1)] by simp
    ultimately show ?thesis
      using seek_skip [OF v1, of w ?tab 0 column] at(3,4) True s by simp
  next
    case False
    then show ?thesis using s by (simp add: at_def col_def)
  qed
  have scan: "scan_columns w (buf_text b) ?tab at z col column True = Some (at + i, c)"
    using scan_columns_limited [OF inv at(1) bz az] s by simp
  define new where "new = \<lparr>cache_point = at + i, cache_column = c, cache_line_start = start, valid = True\<rparr>"
  have bi: "boundary (seg start (z - start) ?xs) (at - start + i)"
    using seek_boundary [OF v, of w ?tab 0 column] whole by simp
  have bnew: "boundary ?xs (at + i)"
    using boundary_of_seg [OF bi] bz sz at(2) boundary_le [OF bz] by simp
  have tk: "seg start (at + i - start) ?xs = take (at - start + i) (seg start (z - start) ?xs)"
    using boundary_le [OF bi] at(2) by (simp add: min_absorb1)
  then have "count_nl (seg start (at + i - start) ?xs) = 0"
    using E(1) count_nl_take_le [of "at - start + i" "seg start (z - start) ?xs"] by (metis le_zero_eq)
  with tk have "cache_ok w ?tab ?xs new"
    using bs bnew at(2) seek_columns [OF v, of w ?tab 0 column] whole by (simp add: cache_ok_def new_def)
  then have ok': "caches_ok w (b\<lparr>seek_cache := new\<rparr>)" using ok by (simp add: caches_ok_def)
  have ls: "text_line_start (buf_text b) line = start"
    using text_line_start_ok [OF inv] start by simp
  have "(if hit then (cache_point ?c, cache_column ?c) else (start, 0)) = (at, col)"
    by (simp add: at_def col_def)
  then have "editor_at_column_ex w b line column = Some ((at + i, c),
      if at + i - start > 4096 then b\<lparr>seek_cache := new\<rparr> else b)"
    unfolding editor_at_column_ex_def Let_def z [symmetric] ls hit_def [symmetric]
    by (simp add: scan new_def)
  moreover have "\<exists>c. b = b\<lparr>seek_cache := c\<rparr>" by (rule exI [of _ ?c]) simp
  ultimately show ?thesis
    using ok ok' whole at(2) by (cases "at + i - start > 4096") (simp_all, blast?)
qed


text \<open>Every edit, undo and redo keeps the caches right, because it invalidates the ones past it.\<close>

lemma invalidate_caches:
  "column_cache (editor_lex_invalidate at b) =
     (if at < cache_point (column_cache b) then (column_cache b)\<lparr>valid := False\<rparr> else column_cache b)"
  "seek_cache (editor_lex_invalidate at b) =
     (if at < cache_point (seek_cache b) then (seek_cache b)\<lparr>valid := False\<rparr> else seek_cache b)"
  "tab_width (editor_lex_invalidate at b) = tab_width b"
  by (simp_all add: editor_lex_invalidate_def Let_def)

lemma cache_ok_invalidated:
  assumes "cache_ok w tab xs c" "boundary xs at" "boundary xs (at + n)" "utf8_valid xs" "utf8_valid s"
  shows "cache_ok w tab (splice at n s xs) (if at < cache_point c then c\<lparr>valid := False\<rparr> else c)"
proof (cases "at < cache_point c")
  case False
  then show ?thesis using cache_ok_splice [OF assms(1) _ assms(2-5)] by simp
qed (simp add: cache_ok_def)

lemma replace_in_caches:
  "replace_in at n s g st b = Some b' \<Longrightarrow> column_cache b' = column_cache (editor_lex_invalidate at b) \<and>
     seek_cache b' = seek_cache (editor_lex_invalidate at b) \<and> tab_width b' = tab_width b"
  by (auto simp: replace_in_def Let_def invalidate_caches split: bind_splits)

theorem replace_keeps_caches:
  assumes "buf_inv b" "caches_ok w b" "boundary (content b) at" "boundary (content b) (at + n)" "utf8_valid s"
    "length (added (buf_text b)) + length s < size_max" "replace_in at n s g st b = Some b'"
  shows "caches_ok w b'"
proof -
  have "content b' = splice at n s (content b)"
    using replace_in_ok [OF assms(1,3-6), of g st] assms(7) by auto
  then show ?thesis
    using cache_ok_invalidated [OF _ assms(3,4) buf_invD(5) [OF assms(1)] assms(5)]
      replace_in_caches [OF assms(7)] assms(2)
    by (simp add: caches_ok_def invalidate_caches)
qed

lemma undo_one_caches:
  "undo_one redo b = Some b' \<Longrightarrow>
     (let at = ed_at (history b ! (if redo then history_pos b else history_pos b - 1)) in
      column_cache b' = column_cache (editor_lex_invalidate at b) \<and>
      seek_cache b' = seek_cache (editor_lex_invalidate at b) \<and> tab_width b' = tab_width b)"
  by (auto simp: undo_one_def Let_def invalidate_caches split: bind_splits)

text \<open>Undo and redo splice the contents where the caches are invalidated.\<close>

lemma undo_one_splice:
  assumes inv: "buf_inv b" and can: "can_undo redo b"
    and room: "undo_bytes redo b < size_max" and u: "undo_one redo b = Some b'"
  obtains n s where
    "boundary (content b) (ed_at (history b ! (if redo then history_pos b else history_pos b - 1)))"
    "boundary (content b) (ed_at (history b ! (if redo then history_pos b else history_pos b - 1)) + n)"
    "utf8_valid s"
    "content b' = splice (ed_at (history b ! (if redo then history_pos b else history_pos b - 1))) n s (content b)"
proof -
  define k where "k = (if redo then history_pos b else history_pos b - 1)"
  define d where "d = history b ! k"
  have b': "(buf_state b', content b') = version b (history_pos b')"
    "history_pos b' = (if redo then history_pos b + 1 else history_pos b - 1)"
    using undo_one_ok [OF inv can room] u by auto
  have pos: "history_pos b = (if redo then k else Suc k)" "k < length (history b)"
    and cur: "version b (history_pos b) = (buf_state b, content b)"
    using can buf_invD(4) [OF inv] by (auto simp: can_undo_def history_inv_def k_def)
  note H = history_step [OF buf_invD(4) [OF inv] pos(2), folded d_def]
  let ?old = "snd (version b k)"
  have E: "utf8_valid ?old" "boundary ?old (ed_at d)" "boundary ?old (ed_at d + removed_len d)"
    "utf8_valid (ed_added d)" "seg (ed_at d) (removed_len d) ?old = ed_removed d" "added_len d = length (ed_added d)"
    using H(1) by (simp_all add: edit_ok_def)
  have at: "boundary (content b) (ed_at d)" "boundary (content b) (ed_at d + (if redo then removed_len d else added_len d))"
    and s: "utf8_valid (if redo then ed_added d else ed_removed d)"
    and new: "content b' = splice (ed_at d) (if redo then removed_len d else added_len d)
      (if redo then ed_added d else ed_removed d) (content b)"
  proof -
    have c: "content b = (if redo then ?old else apply_edit d ?old)"
      "content b' = (if redo then apply_edit d ?old else ?old)"
      using cur b' pos(1) H(3) by (cases redo; simp add: advance_def prod_eq_iff)+
    show "boundary (content b) (ed_at d)" "boundary (content b) (ed_at d + (if redo then removed_len d else added_len d))"
      using E boundary_splice(1,2) [OF E(2,3,1,4)] unfolding c(1) apply_edit_def by auto
    show "utf8_valid (if redo then ed_added d else ed_removed d)"
      using E valid_seg [OF E(1-3)] by simp
    show "content b' = splice (ed_at d) (if redo then removed_len d else added_len d)
        (if redo then ed_added d else ed_removed d) (content b)"
      using edit_ok_unapply [OF H(1)] unfolding c by (simp add: apply_edit_def unapply_edit_def)
  qed
  from that [unfolded k_def [symmetric] d_def [symmetric], OF at s new] show thesis .
qed

theorem undo_keeps_caches:
  assumes inv: "buf_inv b" and ok: "caches_ok w b" and can: "can_undo redo b"
    and room: "undo_bytes redo b < size_max" and u: "undo_one redo b = Some b'"
  shows "caches_ok w b'"
proof (rule undo_one_splice [OF inv can room u])
  let ?at = "ed_at (history b ! (if redo then history_pos b else history_pos b - 1))"
  fix n s
  assume at: "boundary (content b) ?at" "boundary (content b) (?at + n)" and s: "utf8_valid s"
    and new: "content b' = splice ?at n s (content b)"
  show "caches_ok w b'"
    using cache_ok_invalidated [OF _ at buf_invD(5) [OF inv] s] undo_one_caches [OF u] ok
    by (simp add: caches_ok_def invalidate_caches new Let_def)
qed

subsection \<open>Properties\<close>

text \<open>C39 The display column \<open>editor_column\<close> computes in chunks and from its cache is the column of the plain
  character-by-character reference from the start of the line, and the caches stay right.\<close>

theorem column_is_reference:
  assumes "text_inv (buf_text b)" "boundary (content b) pt" "caches_ok w b"
  shows "\<exists>b'. editor_column w b pt =
      (let start = line_start (content b) (count_nl (take pt (content b)))
       in Some (columns w (tab_width b) (seg start (pt - start) (content b)) 0, b')) \<and>
    caches_ok w b' \<and> (\<exists>c. b' = b\<lparr>column_cache := c\<rparr>)"
  using editor_column_ok [OF assms] by (simp add: Let_def)

lemma sample_caches_ok: "caches_ok w sample_buffer"
  by (simp add: caches_ok_def cache_ok_def sample_buffer_def blank_buffer_def)

theorem column_is_reference_witness:
  "\<exists>b'. editor_column sample_world sample_buffer 4 = Some (3, b')"
proof -
  have "boundary (content sample_buffer) 4" using sample_boundary [of 4] sample_content by simp
  moreover have "line_start sample (count_nl (take 4 sample)) = 0" "columns sample_world 4 (seg 0 4 sample) 0 = 3"
    by code_simp+
  ultimately show ?thesis
    using column_is_reference [of sample_buffer 4 sample_world] sample_caches_ok sample_ok(2)
    by (auto simp: sample_buffer_simps sample_ok)
qed

text \<open>Moving to a column stops at the last character boundary of the line whose column does not pass the
  target, as the reference does, and reports the column reached.\<close>

theorem at_column_is_reference:
  assumes "text_inv (buf_text b)" "caches_ok w b"
  shows "\<exists>b'. editor_at_column_ex w b line column =
      (let start = line_start (content b) line; z = line_end (buf_text b) line;
           (i, col) = seek w (tab_width b) (seg start (z - start) (content b)) 0 column
       in Some ((start + i, col), b')) \<and> caches_ok w b'"
  using editor_at_column_ok [OF assms refl refl, of line column] by (auto simp: Let_def)

text \<open>The column caches survive edits: after any replacement both caches still agree with the reference on
  the new contents, or have been dropped.\<close>

theorem edits_keep_caches:
  assumes "buf_inv b" "caches_ok w b" "boundary (content b) at" "boundary (content b) (at + n)" "utf8_valid s"
    and "length (added (buf_text b)) + length s < size_max" "replace_in at n s g st b = Some b'"
  shows "caches_ok w b'"
  using assms by (rule replace_keeps_caches)

text \<open>Asked for the column of an offset inside a character, \<open>editor_column\<close> never returns: its scan cuts the
  chunk back to nothing and makes no progress. (Window points are not moved when a buffer they show is
  edited, so they can come to stand there.)\<close>

theorem column_inside_character_hangs:
  assumes "text_inv (buf_text b)" "\<not> boundary (content b) pt" "pt < length (content b)" "\<not> valid (column_cache b)"
  shows "editor_column w b pt = None"
proof -
  let ?s = "line_start (content b) (count_nl (take pt (content b)))"
  have start: "text_line_start (buf_text b) (text_line_of (buf_text b) pt) = ?s"
    using assms(1,3) by (simp add: text_line_start_ok text_line_of_ok)
  have s: "boundary (content b) ?s" "?s \<le> pt"
    using line_start_boundary [OF text_inv_valid [OF assms(1)]] line_start_count [of pt "content b"] assms(3)
    by simp_all
  with assms(2) have "?s < pt" by (metis le_neq_implies_less)
  with scan_columns_hangs [OF assms(1) s(1) this assms(2,3)] start assms(4) show ?thesis
    by (simp add: editor_column_def Let_def)
qed

end
