(* ===== verification/Motion.thy ===== *)
theory Motion
  imports Columns
begin

section \<open>Motion commands (\<open>src/commands.c\<close>)\<close>

subsection \<open>The code\<close>

definition eol :: "Text \<Rightarrow> nat \<Rightarrow> nat" where
  "eol t at = (let start = text_line_start t (text_line_of t at + 1) in
     if start \<noteq> 0 \<and> is_nl (text_byte t (start - 1)) then start - 1 else start)"

definition word_at :: "World \<Rightarrow> Text \<Rightarrow> nat \<Rightarrow> bool" where
  "word_at w t at = (if at \<ge> text_size t then False
     else let n = text_next t at - at; s = text_copy t at n in iswalnum w (fst (utf8_decode s)))"

lemma next_loop_gt: "at < next_loop t n at"
proof (induction t n at rule: next_loop.induct)
  case (1 t n at)
  then show ?case by (subst next_loop.simps) (auto simp: Let_def)
qed

lemma text_next_gt: "at < text_size t \<Longrightarrow> at < text_next t at"
  by (simp add: text_next_def Let_def next_loop_gt)

lemma prev_loop_lt: "0 < at \<Longrightarrow> prev_loop t at < at"
proof (induction t at rule: prev_loop.induct)
  case (1 t at)
  then show ?case by (subst prev_loop.simps) (auto simp: Let_def)
qed

lemma text_prev_lt: "0 < at \<Longrightarrow> text_prev t at < at"
  using prev_loop_lt [of "text_size t" t] prev_loop_lt [of at t] by (auto simp: text_prev_def Let_def)

text \<open>\<open>while(at<size && word_at(b,at)==p) at=text_next(at)\<close> and its mirror image.\<close>

function skip_forward :: "World \<Rightarrow> Text \<Rightarrow> bool \<Rightarrow> nat \<Rightarrow> nat" where
  "skip_forward w t p at =
     (if at < text_size t \<and> word_at w t at = p then skip_forward w t p (text_next t at) else at)"
  by pat_completeness auto
termination
  by (relation "measure (\<lambda>(w, t, p, at). text_size t - at)") (auto simp: text_next_gt intro: diff_less_mono2)

declare skip_forward.simps [simp del]

function skip_backward :: "World \<Rightarrow> Text \<Rightarrow> bool \<Rightarrow> nat \<Rightarrow> nat" where
  "skip_backward w t p at =
     (if at \<noteq> 0 \<and> word_at w t (text_prev t at) = p then skip_backward w t p (text_prev t at) else at)"
  by pat_completeness auto
termination
  by (relation "measure (\<lambda>(w, t, p, at). at)") (auto simp: text_prev_lt)

declare skip_backward.simps [simp del]

fun words_forward :: "World \<Rightarrow> Text \<Rightarrow> nat \<Rightarrow> nat \<Rightarrow> nat" where
  "words_forward w t at 0 = at"
| "words_forward w t at (Suc n) = words_forward w t (skip_forward w t True (skip_forward w t False at)) n"

fun words_backward :: "World \<Rightarrow> Text \<Rightarrow> nat \<Rightarrow> nat \<Rightarrow> nat" where
  "words_backward w t at 0 = at"
| "words_backward w t at (Suc n) = words_backward w t (skip_backward w t True (skip_backward w t False at)) n"

definition move_word :: "World \<Rightarrow> Text \<Rightarrow> nat \<Rightarrow> int \<Rightarrow> nat" where
  "move_word w t at n = (if n \<ge> 0 then words_forward w t at (nat n) else words_backward w t at (nat (- n)))"

fun chars_forward :: "Text \<Rightarrow> nat \<Rightarrow> nat \<Rightarrow> nat" where
  "chars_forward t at 0 = at"
| "chars_forward t at (Suc n) = (if at < text_size t then chars_forward t (text_next t at) n else at)"

fun chars_backward :: "Text \<Rightarrow> nat \<Rightarrow> nat \<Rightarrow> nat" where
  "chars_backward t at 0 = at"
| "chars_backward t at (Suc n) = (if at \<noteq> 0 then chars_backward t (text_prev t at) n else at)"

definition move_char :: "Text \<Rightarrow> nat \<Rightarrow> int \<Rightarrow> nat" where
  "move_char t at n = (if n > 0 then chars_forward t at (nat n) else chars_backward t at (nat (- n)))"

text \<open>The commands. \<open>i\<close> is the buffer \<open>b\<close> points to, \<open>count\<close> and \<open>explicit\<close> the argument.\<close>

definition set_point :: "nat \<Rightarrow> nat \<Rightarrow> Editor \<Rightarrow> Editor" where
  "set_point i p e = upd_buf i (\<lambda>b. b\<lparr>point := p\<rparr>) e"

abbreviation buf_of :: "Editor \<Rightarrow> nat \<Rightarrow> Buffer" where
  "buf_of e i \<equiv> buffers e ! i"

definition cmd_char :: "nat \<Rightarrow> int \<Rightarrow> Editor \<Rightarrow> Editor" where
  "cmd_char i n e = (let b = buf_of e i in set_point i (move_char (buf_text b) (point b) n) e)"

definition cmd_word :: "World \<Rightarrow> nat \<Rightarrow> int \<Rightarrow> Editor \<Rightarrow> Editor" where
  "cmd_word w i n e = (let b = buf_of e i in set_point i (move_word w (buf_text b) (point b) n) e)"

definition cmd_line_edge :: "nat \<Rightarrow> bool \<Rightarrow> int \<Rightarrow> Editor \<Rightarrow> Editor" where
  "cmd_line_edge i at_end count e =
     (let b = buf_of e i; t = buf_text b; line = int (text_line_of t (point b)) + count - 1;
          line = (if line < 0 then 0 else line); p = text_line_start t (nat line)
      in set_point i (if at_end then eol t p else p) e)"

definition cmd_buffer_edge :: "nat \<Rightarrow> bool \<Rightarrow> int \<Rightarrow> bool \<Rightarrow> Editor \<Rightarrow> Editor" where
  "cmd_buffer_edge i beginning count explicit e =
     (let b = buf_of e i; t = buf_text b;
          e = upd_buf i (\<lambda>b. b\<lparr>mark := point b, has_mark := True\<rparr>) e;
          part = nat (if count < 0 then 0 else if count > 10 then 10 else count);
          ch = text_chars t * part div 10
      in set_point i
           (if explicit then text_char_to_byte t (if beginning then ch else text_chars t - ch)
            else if beginning then 0 else text_size t) e)"

text \<open>Rows are clipped to the lines there are.\<close>

definition clip_row :: "Text \<Rightarrow> int \<Rightarrow> nat" where
  "clip_row t row = (let row = (if row < 0 then 0 else row) in
     if nat row \<ge> text_lines t then nat (int (text_lines t) - 1) else nat row)"

definition cmd_line :: "World \<Rightarrow> nat \<Rightarrow> int \<Rightarrow> Editor \<Rightarrow> Editor option" where
  "cmd_line w i n e = do {
     let b = buf_of e i;
     b \<leftarrow> (if goal_valid b then Some b
          else do { (col, b) \<leftarrow> editor_column w b (point b); Some (b\<lparr>goal := col, goal_valid := True\<rparr>) });
     let row = clip_row (buf_text b) (int (text_line_of (buf_text b) (point b)) + n);
     (p, b) \<leftarrow> editor_at_column w b row (goal b);
     Some (upd_buf i (\<lambda>_. b\<lparr>point := p\<rparr>) e) }"

definition upd_pane :: "nat \<Rightarrow> (Pane \<Rightarrow> Pane) \<Rightarrow> Editor \<Rightarrow> Editor" where
  "upd_pane k f e = e\<lparr>panes := (panes e)[k := f (panes e ! k)]\<rparr>"

definition cmd_scroll :: "World \<Rightarrow> nat \<Rightarrow> bool \<Rightarrow> int \<Rightarrow> bool \<Rightarrow> Editor \<Rightarrow> Editor option" where
  "cmd_scroll w i down count explicit e = do {
     let b = buf_of e i;
     let amount = (if explicit then count else rows e - 4);
     let amount = (if amount < 1 \<and> \<not> explicit then 1 else amount);
     let amount = (if down then - amount else amount);
     let row = clip_row (buf_text b) (int (text_line_of (buf_text b) (point b)) + amount);
     (col, b) \<leftarrow> editor_column w b (point b);
     (p, b) \<leftarrow> editor_at_column w b row col;
     let e = upd_buf i (\<lambda>_. b\<lparr>point := p\<rparr>) e;
     Some (upd_pane (active_pane e) (\<lambda>p. p\<lparr>pane_top := nat (int (pane_top p) + amount)\<rparr>) e) }"

definition cmd_recenter :: "nat \<Rightarrow> Editor \<Rightarrow> Editor" where
  "cmd_recenter i e =
     (let b = buf_of e i; line = text_line_of (buf_text b) (point b);
          half = (if rows e > 4 then nat (rows e div 2) else 1)
      in upd_pane (active_pane e) (\<lambda>p. p\<lparr>pane_top := (if line > half then line - half else 0)\<rparr>) e)"

subsection \<open>Motion ends at character boundaries\<close>

lemma text_next_boundary: "text_inv t \<Longrightarrow> boundary (text_content t) (text_next t at)"
  using text_next_ok(2) [of t at] by (cases "at < text_size t") (simp_all add: text_next_end not_less text_size_content)

lemma text_prev_boundary: "text_inv t \<Longrightarrow> at \<le> text_size t \<Longrightarrow> boundary (text_content t) (text_prev t at)"
  using text_prev_ok(2) [of t at] text_inv_valid [of t] by (cases "at = 0") simp_all

lemma chars_forward_boundary:
  "text_inv t \<Longrightarrow> boundary (text_content t) at \<Longrightarrow> boundary (text_content t) (chars_forward t at n)"
  by (induction n arbitrary: at) (simp_all add: text_next_boundary)

lemma boundary_size: "text_inv t \<Longrightarrow> boundary (text_content t) at \<Longrightarrow> at \<le> text_size t"
  by (simp add: boundary_le text_size_content)

lemma chars_backward_boundary:
  "text_inv t \<Longrightarrow> boundary (text_content t) at \<Longrightarrow> boundary (text_content t) (chars_backward t at n)"
  by (induction n arbitrary: at) (auto simp: text_prev_boundary boundary_size)

lemma move_char_boundary [inv_intros]:
  "text_inv t \<Longrightarrow> boundary (text_content t) at \<Longrightarrow> boundary (text_content t) (move_char t at n)"
  by (simp add: move_char_def chars_forward_boundary chars_backward_boundary)

lemma skip_forward_boundary:
  "text_inv t \<Longrightarrow> boundary (text_content t) at \<Longrightarrow> boundary (text_content t) (skip_forward w t p at)"
proof (induction w t p at rule: skip_forward.induct)
  case (1 w t p at)
  then show ?case by (subst skip_forward.simps) (simp add: text_next_boundary)
qed

lemma skip_backward_boundary:
  "text_inv t \<Longrightarrow> boundary (text_content t) at \<Longrightarrow> boundary (text_content t) (skip_backward w t p at)"
proof (induction w t p at rule: skip_backward.induct)
  case (1 w t p at)
  then show ?case by (subst skip_backward.simps) (simp add: text_prev_boundary boundary_size)
qed

lemma move_word_boundary [inv_intros]:
  assumes "text_inv t" "boundary (text_content t) at"
  shows "boundary (text_content t) (move_word w t at n)"
proof -
  have "boundary (text_content t) (words_forward w t at k)" for k
    using assms by (induction k arbitrary: at) (simp_all add: skip_forward_boundary)
  moreover have "boundary (text_content t) (words_backward w t at k)" for k
    using assms by (induction k arbitrary: at) (simp_all add: skip_backward_boundary)
  ultimately show ?thesis by (simp add: move_word_def)
qed


subsection \<open>Motion counts characters\<close>

lemma count_chars_conts: "\<forall>c \<in> set s. is_cont c \<Longrightarrow> count_chars s = 0"
  by (induction s) auto

lemma count_chars_next:
  assumes "boundary xs at" "at < z" "boundary xs z" "\<And>i. at < i \<Longrightarrow> i < z \<Longrightarrow> \<not> boundary xs i"
  shows "count_chars (take z xs) = Suc (count_chars (take at xs))"
proof -
  have zl: "z \<le> length xs" using assms(3) by (rule boundary_le)
  have "take z xs = take at xs @ seg at (z - at) xs"
    using assms(2) unfolding seg_def by (metis le_add_diff_inverse less_imp_le take_add)
  moreover have "seg at (z - at) xs = xs ! at # seg (Suc at) (z - Suc at) xs"
    using assms(2) zl unfolding seg_def
    by (metis Cons_nth_drop_Suc Suc_diff_Suc less_le_trans take_Suc_Cons)
  moreover have "\<not> is_cont (xs ! at)" using assms(1,2) zl by (auto simp: boundary_def)
  moreover have "count_chars (seg (Suc at) (z - Suc at) xs) = 0"
  proof (rule count_chars_conts, rule ballI)
    fix c assume "c \<in> set (seg (Suc at) (z - Suc at) xs)"
    then obtain j where j: "j < length (seg (Suc at) (z - Suc at) xs)" "c = seg (Suc at) (z - Suc at) xs ! j"
      by (auto simp: in_set_conv_nth)
    then have "j < z - Suc at" "c = xs ! (Suc at + j)" using zl by (auto simp: seg_def)
    moreover from this(1) have "\<not> boundary xs (Suc at + j)" by (intro assms(4)) auto
    ultimately show "is_cont c" using zl by (auto simp: boundary_def)
  qed
  ultimately show ?thesis by simp
qed

text \<open>The position counted in characters.\<close>

abbreviation char_pos :: "Text \<Rightarrow> nat \<Rightarrow> nat" where
  "char_pos t at \<equiv> count_chars (take at (text_content t))"

lemma char_pos_next:
  assumes "text_inv t" "boundary (text_content t) at" "at < text_size t"
  shows "char_pos t (text_next t at) = Suc (char_pos t at)"
  using count_chars_next [OF assms(2)] text_next_ok [OF assms(1,3)] by blast

lemma char_pos_prev:
  assumes "text_inv t" "boundary (text_content t) at" "0 < at"
  shows "char_pos t at = Suc (char_pos t (text_prev t at))"
  using count_chars_next [OF _ _ assms(2)]
    text_prev_ok [OF assms(1,3) boundary_size [OF assms(1,2)]] by blast

lemma char_pos_le: "char_pos t at \<le> count_chars (text_content t)"
  using count_chars_simps(3) [of "take at (text_content t)" "drop at (text_content t)"] by simp

lemma char_pos_size: "text_inv t \<Longrightarrow> char_pos t (text_size t) = count_chars (text_content t)"
  by (simp add: text_size_content)

lemma char_pos_forward:
  "text_inv t \<Longrightarrow> boundary (text_content t) at \<Longrightarrow>
     char_pos t (chars_forward t at n) = min (char_pos t at + n) (count_chars (text_content t))"
proof (induction n arbitrary: at)
  case 0
  then show ?case using char_pos_le [of at t] by simp
next
  case (Suc n)
  show ?case
  proof (cases "at < text_size t")
    case True
    with Suc show ?thesis by (simp add: text_next_boundary char_pos_next)
  next
    case False
    then have "at = text_size t" using boundary_size [OF Suc.prems] by simp
    then show ?thesis using char_pos_size [OF Suc.prems(1)] by simp
  qed
qed

lemma char_pos_backward:
  "text_inv t \<Longrightarrow> boundary (text_content t) at \<Longrightarrow> char_pos t (chars_backward t at n) = char_pos t at - n"
proof (induction n arbitrary: at)
  case (Suc n)
  show ?case
  proof (cases "at = 0")
    case False
    with Suc show ?thesis by (simp add: text_prev_boundary boundary_size char_pos_prev [of t at])
  qed simp
qed simp

theorem move_char_count:
  assumes "text_inv t" "boundary (text_content t) at"
  shows "int (char_pos t (move_char t at n)) =
    max 0 (min (int (char_pos t at) + n) (int (count_chars (text_content t))))"
  using char_pos_forward [OF assms, of "nat n"] char_pos_backward [OF assms, of "nat (- n)"] char_pos_le [of at t]
  by (auto simp: move_char_def min_def max_def)

subsection \<open>Properties\<close>

text \<open>\<open>forward-char\<close> and \<open>backward-char\<close> count characters: from a character boundary a count of either sign
  moves by that many characters, stopping at either end of the text, and ends on a boundary.\<close>

theorem move_char_counts:
  assumes "text_inv t" "boundary (text_content t) at"
  shows "boundary (text_content t) (move_char t at n) \<and>
    int (count_chars (take (move_char t at n) (text_content t))) =
      max 0 (min (int (count_chars (take at (text_content t))) + n) (int (count_chars (text_content t))))"
  using move_char_count [OF assms] move_char_boundary [OF assms] by simp

end
