(* ===== verification/Edit_Commands.thy ===== *)
theory Edit_Commands
  imports Motion
begin

section \<open>Editing commands and the kill ring (\<open>src/commands.c\<close>)\<close>

subsection \<open>The kill ring\<close>

text \<open>Appending joins the text to the newest entry; otherwise it becomes the newest of at most
  \<open>CP_KILL_RING\<close>.\<close>

definition push_kill :: "bytes \<Rightarrow> bool \<Rightarrow> bool \<Rightarrow> Editor \<Rightarrow> Editor" where
  "push_kill s backwards join e =
     (let ring = kill_ring e;
          ring = (if join \<and> ring \<noteq> []
                  then (if backwards then s @ hd ring else hd ring @ s) # tl ring
                  else s # (if length ring = CP_KILL_RING then butlast ring else ring))
      in e\<lparr>kill_ring := ring, yank_index := 0, kill_generation := kill_generation e + 1\<rparr>)"

text \<open>Results: the editor and the C function's return value.\<close>

type_synonym result = "(Editor \<times> bool) option"

definition done_ok :: "Editor \<Rightarrow> result" where
  "done_ok e = Some (e, True)"

definition refuse :: "string \<Rightarrow> Editor \<Rightarrow> result" where
  "refuse m e = Some (editor_message (lit m) e, False)"

definition if_ok :: "result \<Rightarrow> (Editor \<Rightarrow> result) \<Rightarrow> result" where
  "if_ok r f = (case r of None \<Rightarrow> None | Some (e, ok) \<Rightarrow> if ok then f e else Some (e, False))"

definition kill_range :: "World \<Rightarrow> nat \<Rightarrow> nat \<Rightarrow> bool \<Rightarrow> bool \<Rightarrow> bool \<Rightarrow> Editor \<Rightarrow> result" where
  "kill_range w a z backward only_copy join e =
     (let i = current e; b = buf_of e i; (a, z) = (if z < a then (z, a) else (a, z)) in
      if a = z then done_ok e
      else
        let s = text_slice (buf_text b) a (z - a) in
        if_ok (if only_copy then done_ok e else editor_replace w e a (z - a) []) (\<lambda>e.
          let e = push_kill s backward join e;
              e = upd_buf i (\<lambda>b. b\<lparr>mark_active := False\<rparr>) e
          in done_ok (if only_copy then e else set_point i a e)))"

subsection \<open>Inserting\<close>

definition spaces :: "nat \<Rightarrow> bytes" where
  "spaces n = replicate n 32"

definition is_blank :: "byte \<Rightarrow> bool" where
  "is_blank c \<longleftrightarrow> c = 32 \<or> c = 9"

text \<open>\<open>while(start+indent<b->point && text_byte(start+indent)==' ') indent++\<close>\<close>

function count_spaces :: "Text \<Rightarrow> nat \<Rightarrow> nat \<Rightarrow> nat" where
  "count_spaces t at pt = (if at < pt \<and> text_byte t at = 32 then Suc (count_spaces t (at + 1) pt) else 0)"
  by pat_completeness auto
termination
  by (relation "measure (\<lambda>(t, at, pt). pt - at)") auto

declare count_spaces.simps [simp del]

text \<open>Back over blanks, down to \<open>start\<close>, and forward over blanks, up to \<open>size\<close>.\<close>

function blank_start :: "Text \<Rightarrow> nat \<Rightarrow> nat \<Rightarrow> nat" where
  "blank_start t start p = (if p > start \<and> is_blank (text_byte t (p - 1)) then blank_start t start (p - 1) else p)"
  by pat_completeness auto
termination
  by (relation "measure (\<lambda>(t, start, p). p)") auto

declare blank_start.simps [simp del]

function blank_end :: "Text \<Rightarrow> nat \<Rightarrow> nat \<Rightarrow> nat" where
  "blank_end t lim z = (if z < lim \<and> is_blank (text_byte t z) then blank_end t lim (z + 1) else z)"
  by pat_completeness auto
termination
  by (relation "measure (\<lambda>(t, lim, z). lim - z)") auto

declare blank_end.simps [simp del]

definition line_indent :: "Buffer \<Rightarrow> nat" where
  "line_indent b =
     (let t = buf_text b; start = text_line_start t (text_line_of t (point b));
          indent = count_spaces t start (point b); p = blank_start t start (point b)
      in if kind (buf_syntax b) = 1 \<and> p > start \<and> text_byte t (p - 1) = 58
         then indent + indent_width b else indent)"

fun insert_lines :: "World \<Rightarrow> nat \<Rightarrow> nat \<Rightarrow> Editor \<Rightarrow> result" where
  "insert_lines w indent 0 e = done_ok e"
| "insert_lines w indent (Suc n) e =
     if_ok (editor_insert w e [10]) (\<lambda>e.
       if_ok (if indent \<noteq> 0 then editor_insert w e (spaces indent) else done_ok e)
         (insert_lines w indent n))"

text \<open>\<open>newline\<close>, \<open>newline-and-indent\<close> and \<open>open-line\<close>; \<open>indents\<close> tells whether to indent.\<close>

definition cmd_newline :: "World \<Rightarrow> nat \<Rightarrow> bool \<Rightarrow> bool \<Rightarrow> int \<Rightarrow> Editor \<Rightarrow> result" where
  "cmd_newline w i indents open_line count e =
     (if count < 0 \<or> count > 100000 then refuse ''Invalid newline count'' e
      else
        let b = buf_of e i; old = point b; indent = (if indents then line_indent b else 0) in
        if_ok (insert_lines w indent (nat count) e) (\<lambda>e.
          done_ok (if open_line then set_point i old e else e)))"

definition cmd_indent :: "World \<Rightarrow> nat \<Rightarrow> int \<Rightarrow> Editor \<Rightarrow> result" where
  "cmd_indent w i count e =
     (if count < 0 \<or> count > 100000 then refuse ''Invalid indentation count'' e
      else editor_insert w e (spaces (indent_width (buf_of e i) * nat count)))"

subsection \<open>Deleting and killing\<close>

definition cmd_delete_char :: "World \<Rightarrow> nat \<Rightarrow> bool \<Rightarrow> int \<Rightarrow> bool \<Rightarrow> nat \<Rightarrow> Editor \<Rightarrow> result" where
  "cmd_delete_char w i forward count explicit previous_kind e =
     (let b = buf_of e i; n = (if forward then count else - count);
          at = move_char (buf_text b) (point b) n;
          a = (if at < point b then at else point b); z = (if at > point b then at else point b)
      in if explicit \<and> forward
         then kill_range w a z (n < 0) False (previous_kind = 1) (e\<lparr>last_kind := 1\<rparr>)
         else editor_replace w e a (z - a) [])"

definition cmd_set_mark :: "nat \<Rightarrow> bool \<Rightarrow> Editor \<Rightarrow> Editor" where
  "cmd_set_mark i explicit e =
     (if \<not> explicit \<and> mark_active (buf_of e i)
      then editor_message (lit ''Mark deactivated'') (upd_buf i (\<lambda>b. b\<lparr>mark_active := False\<rparr>) e)
      else editor_message (lit ''Mark set'')
             (upd_buf i (\<lambda>b. b\<lparr>mark := point b, has_mark := True, mark_active := True\<rparr>) e))"

definition cmd_mark_whole :: "nat \<Rightarrow> Editor \<Rightarrow> Editor" where
  "cmd_mark_whole i e = upd_buf i (\<lambda>b. b\<lparr>mark := text_size (buf_text b), has_mark := True,
     mark_active := True, point := 0\<rparr>) e"

definition cmd_exchange :: "nat \<Rightarrow> Editor \<Rightarrow> result" where
  "cmd_exchange i e =
     (if \<not> has_mark (buf_of e i) then refuse ''No mark set in this buffer'' e
      else done_ok (upd_buf i (\<lambda>b. b\<lparr>point := mark b, mark := point b, mark_active := True\<rparr>) e))"

definition cmd_kill_region :: "World \<Rightarrow> nat \<Rightarrow> bool \<Rightarrow> nat \<Rightarrow> Editor \<Rightarrow> result" where
  "cmd_kill_region w i copy previous_kind e =
     (let b = buf_of e i in
      if \<not> has_mark b then refuse ''The mark is not set'' e
      else kill_range w (point b) (mark b) (point b > mark b) copy (\<not> copy \<and> previous_kind = 1)
             (e\<lparr>last_kind := (if copy then 0 else 1)\<rparr>))"

definition all_blank :: "Text \<Rightarrow> nat \<Rightarrow> nat \<Rightarrow> bool" where
  "all_blank t a z \<longleftrightarrow> list_all (\<lambda>i. is_blank (text_byte t i)) [a..<z]"

definition cmd_kill_line :: "World \<Rightarrow> nat \<Rightarrow> int \<Rightarrow> bool \<Rightarrow> nat \<Rightarrow> Editor \<Rightarrow> result" where
  "cmd_kill_line w i count explicit previous_kind e =
     (let b = buf_of e i; t = buf_text b; a = point b;
          z = (if explicit
               then let row = int (text_line_of t a); target = row + count in
                    text_line_start t (nat (if count > 0 then target else if target < 0 then 0 else target))
               else let z = eol t a in
                    if all_blank t a z \<and> z < text_size t then z + 1 else z)
      in kill_range w a z (z < a) False (previous_kind = 1) (e\<lparr>last_kind := 1\<rparr>))"

definition cmd_kill_word :: "World \<Rightarrow> nat \<Rightarrow> int \<Rightarrow> nat \<Rightarrow> Editor \<Rightarrow> result" where
  "cmd_kill_word w i n previous_kind e =
     (let b = buf_of e i; at = move_word w (buf_text b) (point b) n in
      kill_range w (point b) at (at < point b) False (previous_kind = 1) (e\<lparr>last_kind := 1\<rparr>))"

text \<open>The insertion both \<open>yank\<close> and \<open>yank-pop\<close> end with. C's \<open>%\<close> followed by the correction of a
  negative remainder is \<open>mod\<close>.\<close>

definition yank_insert :: "World \<Rightarrow> nat \<Rightarrow> Editor \<Rightarrow> result" where
  "yank_insert w i e =
     (let e = upd_buf i (\<lambda>b. b\<lparr>mark := point b, has_mark := True\<rparr>) e in
      if_ok (editor_insert w e (kill_ring e ! yank_index e)) (\<lambda>e.
        done_ok (e\<lparr>yank_end := point (buf_of e i), last_kind := 2\<rparr>)))"

definition cmd_yank :: "World \<Rightarrow> nat \<Rightarrow> int \<Rightarrow> bool \<Rightarrow> Editor \<Rightarrow> result" where
  "cmd_yank w i count explicit e =
     (if kill_ring e = [] then refuse ''Kill ring is empty'' e
      else yank_insert w i (e\<lparr>yank_index := (if explicit
             then nat (if count > 0 then count - 1 else 0) mod length (kill_ring e) else 0),
             yank_start := point (buf_of e i)\<rparr>))"

definition cmd_yank_pop :: "World \<Rightarrow> nat \<Rightarrow> int \<Rightarrow> nat \<Rightarrow> Editor \<Rightarrow> result" where
  "cmd_yank_pop w i count previous_kind e =
     (if kill_ring e = [] then refuse ''Kill ring is empty'' e
      else if previous_kind \<noteq> 2 then refuse ''Previous command was not a yank'' e
      else
        let e = e\<lparr>yank_index := nat ((int (yank_index e) + count) mod int (length (kill_ring e)))\<rparr> in
        if_ok (editor_replace w e (yank_start e) (yank_end e - yank_start e) []) (\<lambda>e.
          yank_insert w i (set_point i (yank_start e) e)))"

text \<open>\<open>transpose-chars\<close>: the loop body, repeated.\<close>

fun transpose_loop :: "World \<Rightarrow> nat \<Rightarrow> bool \<Rightarrow> nat \<Rightarrow> Editor \<Rightarrow> result" where
  "transpose_loop w i forward 0 e = done_ok e"
| "transpose_loop w i forward (Suc n) e =
     (let t = buf_text (buf_of e i); p = point (buf_of e i) in
      if p = 0 \<or> p \<ge> text_size t then Some (e, False)
      else
        let a = text_prev t p; z = text_next t p; s = text_slice t a (z - a);
            out = drop (p - a) s @ take (p - a) s in
        if_ok (editor_replace w e a (z - a) out) (\<lambda>e.
          transpose_loop w i forward n (set_point i (if forward then z else a) e)))"

definition cmd_transpose :: "World \<Rightarrow> nat \<Rightarrow> int \<Rightarrow> Editor \<Rightarrow> result" where
  "cmd_transpose w i count e =
     (if count = 0 then refuse ''Zero-argument transposition at mark is not supported'' e
      else
        let b = buf_of e i; n = text_size (buf_text b);
            e = (if point b = n \<and> n \<noteq> 0 then set_point i (text_prev (buf_text b) n) e else e)
        in transpose_loop w i (count > 0) (nat (abs count)) e)"

definition cmd_delete_space :: "World \<Rightarrow> nat \<Rightarrow> Editor \<Rightarrow> result" where
  "cmd_delete_space w i e =
     (let t = buf_text (buf_of e i); a = blank_start t 0 (point (buf_of e i));
          z = blank_end t (text_size t) (point (buf_of e i))
      in editor_replace w e a (z - a) [])"

text \<open>The case commands: \<open>upper\<close> and \<open>capital\<close> select among the three.\<close>

function recase :: "World \<Rightarrow> bool \<Rightarrow> bool \<Rightarrow> bool \<Rightarrow> bytes \<Rightarrow> bytes" where
  "recase w upper capital first s =
     (if s = [] then []
      else
        let (c, k) = utf8_decode s; alnum = iswalnum w c;
            c' = (if alnum then (if upper \<or> capital \<and> first then towupper w c else towlower w c) else c)
        in (case wcrtomb w c' of Some m \<Rightarrow> m | None \<Rightarrow> take k s) @ recase w upper capital (\<not> alnum) (drop k s))"
  by pat_completeness auto
termination
proof (relation "measure (\<lambda>(w, upper, capital, first, s). length s)", goal_cases)
  case (2 w upper capital first s x c k alnum c')
  then have "1 \<le> k" using utf8_decode_used [of s] by (metis snd_conv)
  with 2 show ?case by (cases s) auto
qed simp

declare recase.simps [simp del]

definition cmd_case_word :: "World \<Rightarrow> nat \<Rightarrow> bool \<Rightarrow> bool \<Rightarrow> int \<Rightarrow> Editor \<Rightarrow> result" where
  "cmd_case_word w i upper capital count e = do {
     let b = buf_of e i;
     let old = point b;
     let at = move_word w (buf_text b) old count;
     let (a, z) = (if at < old then (at, old) else (old, at));
     let out = recase w upper capital True (text_slice (buf_text b) a (z - a));
     (e, ok) \<leftarrow> editor_replace w e a (z - a) out;
     Some (set_point i (if count < 0 then old else a + length out) e, ok) }"

subsection \<open>One edit of the current buffer\<close>

text \<open>The bytes the current buffer has ever stored: what limits further insertions.\<close>

definition stored_bytes :: "Editor \<Rightarrow> nat" where
  "stored_bytes e = length (added (buf_text (editor_buffer e)))"

text \<open>\<open>edited e e'\<close>: only the current buffer and the state counter differ.\<close>

definition edited :: "Editor \<Rightarrow> Editor \<Rightarrow> bool" where
  "edited e e' \<longleftrightarrow> (\<exists>b k. e' = upd_current (\<lambda>_. b) (e\<lparr>next_state := k\<rparr>))"

lemma editedD:
  assumes "edited e e'"
  shows "current e' = current e" "length (buffers e') = length (buffers e)" "kill_ring e' = kill_ring e"
    "python_enabled e' = python_enabled e" "yank_index e' = yank_index e" "panes e' = panes e"
    "yank_start e' = yank_start e" "last_kind e' = last_kind e" "group e' = group e"
  using assms by (auto simp: edited_def upd_buf_def)

lemma relocate_nothing [simp]: "relocate p at 0 0 r = p"
  by (auto simp: relocate_def)

lemma replace_step:
  assumes inv: "ed_inv e" and plain: "\<not> python_enabled e"
    and ok: "replace_ok (editor_buffer e) at n s" and room: "stored_bytes e + length s < size_max"
  obtains e' where "editor_replace w e at n s = Some (e', True)" "ed_inv e'" "edited e e'"
    "content (editor_buffer e') = splice at n s (content (editor_buffer e))"
    "point (editor_buffer e') = relocate (point (editor_buffer e)) at n (length s) True"
    "mark (editor_buffer e') = relocate (mark (editor_buffer e)) at n (length s) False"
    "stored_bytes e' = stored_bytes e + length s" "readonly (editor_buffer e') = readonly (editor_buffer e)"
proof (cases "n = 0 \<and> s = []")
  case True
  have "e = upd_current (\<lambda>_. editor_buffer e) (e\<lparr>next_state := next_state e\<rparr>)"
    by (simp add: upd_buf_def editor_buffer_def)
  then have "edited e e" unfolding edited_def by blast
  with True show thesis
    using that [of e] inv ok [unfolded editor_replace_checks [OF ed_inv_buffer [OF inv]]]
    by (simp add: editor_replace_def Let_def splice_def)
next
  case False
  let ?b = "editor_buffer e"
  have B: "buf_inv ?b" using inv by (rule ed_inv_buffer)
  obtain b where b: "replace_in at n s (group e) (next_state e + 1) ?b = Some b" "buf_inv b"
    "content b = splice at n s (content ?b)" "point b = relocate (point ?b) at n (length s) True"
    "mark b = relocate (mark ?b) at n (length s) False" "readonly b = readonly ?b"
    "length (added (buf_text b)) = length (added (buf_text ?b)) + length s"
    using replace_in_ok [OF B, of at n s "group e" "next_state e + 1"] ok room
    unfolding replace_ok_def stored_bytes_def by blast
  define e' where "e' = upd_current (\<lambda>_. b) (e\<lparr>next_state := next_state e + 1\<rparr>)"
  have cur: "current e < length (buffers e)" using inv by (simp add: ed_inv_def)
  have eb: "editor_buffer e' = b" using cur by (simp add: e'_def upd_buf_def editor_buffer_def)
  have "editor_replace w e at n s = Some (e', True)"
    using ok b(1) False plain unfolding editor_replace_checks [OF B]
    by (auto simp: editor_replace_def Let_def plugins_event_def e'_def)
  moreover have "ed_inv e'" unfolding e'_def using inv b(2) by (intro ed_inv_upd) simp_all
  moreover have "edited e e'" unfolding edited_def e'_def by blast
  ultimately show thesis using that [of e'] b by (simp add: eb stored_bytes_def)
qed

lemma set_point_current:
  assumes "ed_inv e" "boundary (content (editor_buffer e)) p"
  shows "ed_inv (set_point (current e) p e)"
    "editor_buffer (set_point (current e) p e) = (editor_buffer e)\<lparr>point := p\<rparr>"
proof -
  have cur: "current e < length (buffers e)" using assms(1) by (simp add: ed_inv_def)
  then show eb: "editor_buffer (set_point (current e) p e) = (editor_buffer e)\<lparr>point := p\<rparr>"
    by (simp add: set_point_def)
  have "buf_inv ((editor_buffer e)\<lparr>point := p\<rparr>)"
    using ed_inv_buffer [OF assms(1)] assms(2) by (simp add: buf_inv_def history_inv_def version_def origin_def)
  then have "ed_inv (upd_current (\<lambda>_. (editor_buffer e)\<lparr>point := p\<rparr>) e)" using assms(1) by (intro ed_inv_upd)
  then show "ed_inv (set_point (current e) p e)"
    by (simp add: set_point_def upd_buf_def editor_buffer_def)
qed

text \<open>Fields outside the text and the positions do not matter to the invariant.\<close>

lemma buf_inv_flags [simp]:
  "buf_inv (b\<lparr>mark_active := x\<rparr>) = buf_inv b" "buf_inv (b\<lparr>has_mark := y\<rparr>) = buf_inv b"
  "buf_inv (b\<lparr>goal_valid := x\<rparr>) = buf_inv b" "buf_inv (b\<lparr>readonly := x\<rparr>) = buf_inv b"
  by (simp_all add: buf_inv_def history_inv_def version_def origin_def)

lemma ed_inv_update:
  assumes "ed_inv e" "buf_inv (f (editor_buffer e))"
  shows "ed_inv (upd_current f e)" "editor_buffer (upd_current f e) = f (editor_buffer e)"
proof -
  have "upd_current f e = upd_current (\<lambda>_. f (editor_buffer e)) e"
    by (simp add: upd_buf_def editor_buffer_def)
  then show "ed_inv (upd_current f e)" using assms by (simp add: ed_inv_upd)
  show "editor_buffer (upd_current f e) = f (editor_buffer e)"
    using assms(1) by (simp add: ed_inv_def)
qed

subsection \<open>Killing and yanking\<close>

lemma push_kill_simps [simp]:
  "buffers (push_kill s back1 join e) = buffers e" "current (push_kill s back1 join e) = current e"
  "editor_buffer (push_kill s back1 join e) = editor_buffer e"
  "python_enabled (push_kill s back1 join e) = python_enabled e" "yank_index (push_kill s back1 join e) = 0"
  "ed_inv (push_kill s back1 join e) = ed_inv e" "stored_bytes (push_kill s back1 join e) = stored_bytes e"
  by (simp_all add: push_kill_def Let_def editor_buffer_def ed_inv_def stored_bytes_def)

lemma push_kill_new: "kill_ring (push_kill s back1 False e) =
    s # (if length (kill_ring e) = CP_KILL_RING then butlast (kill_ring e) else kill_ring e)"
  by (simp add: push_kill_def Let_def)

text \<open>Killing \<open>a\<close> to \<open>z\<close>: the text goes, the ring gets it, the point is where it was.\<close>

lemma kill_range_ok:
  assumes inv: "ed_inv e" and plain: "\<not> python_enabled e" and rw: "\<not> readonly (editor_buffer e)"
    and a: "boundary (content (editor_buffer e)) a" and z: "boundary (content (editor_buffer e)) z" and "a < z"
    and room: "stored_bytes e < size_max"
  obtains e' where "kill_range w a z backward False join e = Some (e', True)" "ed_inv e'"
    "content (editor_buffer e') = splice a (z - a) [] (content (editor_buffer e))"
    "point (editor_buffer e') = a" "stored_bytes e' = stored_bytes e" "current e' = current e"
    "readonly (editor_buffer e') = readonly (editor_buffer e)" "python_enabled e' = python_enabled e"
    "kill_ring e' = kill_ring (push_kill (seg a (z - a) (content (editor_buffer e))) backward join e)"
proof -
  let ?xs = "content (editor_buffer e)" and ?i = "current e"
  let ?s = "text_slice (buf_text (editor_buffer e)) a (z - a)"
  have s: "?s = seg a (z - a) ?xs"
    using buf_invD(1) [OF ed_inv_buffer [OF inv]] by (rule text_slice_ok)
  have ok: "replace_ok (editor_buffer e) a (z - a) []"
    using rw a z \<open>a < z\<close> by (simp add: replace_ok_def)
  have r: "stored_bytes e + length ([] :: bytes) < size_max" using room by simp
  obtain e1 where e1: "editor_replace w e a (z - a) [] = Some (e1, True)" "ed_inv e1" "edited e e1"
    "content (editor_buffer e1) = splice a (z - a) [] ?xs" "stored_bytes e1 = stored_bytes e"
    "readonly (editor_buffer e1) = readonly (editor_buffer e)"
    using replace_step [OF inv plain ok r, of w] by auto
  define e2 where "e2 = upd_current (\<lambda>b. b\<lparr>mark_active := False\<rparr>) (push_kill ?s backward join e1)"
  have e2: "ed_inv e2" "editor_buffer e2 = (editor_buffer e1)\<lparr>mark_active := False\<rparr>"
    using ed_inv_update [of "push_kill ?s backward join e1" "\<lambda>b. b\<lparr>mark_active := False\<rparr>"] e1(2)
    by (simp_all add: e2_def ed_inv_buffer)
  have ba: "boundary (content (editor_buffer e2)) a"
    using boundary_splice(1) [of ?xs a "z - a" "[]"] a z \<open>a < z\<close> e2(2) e1(4)
      buf_invD(5) [OF ed_inv_buffer [OF inv]] by simp
  note D = editedD [OF e1(3)]
  have cur: "current e2 = ?i" by (simp add: e2_def D)
  note P = set_point_current [OF e2(1) ba, unfolded cur]
  have "kill_range w a z backward False join e = Some (set_point ?i a e2, True)"
    using \<open>a < z\<close> e1(1) D(1) by (simp add: kill_range_def Let_def if_ok_def done_ok_def e2_def editor_buffer_def)
  moreover have "kill_ring (set_point ?i a e2) = kill_ring (push_kill ?s backward join e)"
    by (simp add: set_point_def e2_def upd_buf_def push_kill_def Let_def D)
  moreover have "python_enabled (set_point ?i a e2) = python_enabled e"
    by (simp add: set_point_def e2_def D)
  ultimately show thesis
    using that [of "set_point ?i a e2"] P e1 e2(2) s cur
    by (simp add: stored_bytes_def set_point_def)
qed

lemma yank_insert_ok:
  assumes inv: "ed_inv e" and plain: "\<not> python_enabled e" and rw: "\<not> readonly (editor_buffer e)"
    and s: "kill_ring e ! yank_index e = s" "utf8_valid s"
    and room: "stored_bytes e + length s < size_max"
  obtains e' where "yank_insert w (current e) e = Some (e', True)" "ed_inv e'"
    "content (editor_buffer e') = splice (point (editor_buffer e)) 0 s (content (editor_buffer e))"
    "point (editor_buffer e') = point (editor_buffer e) + length s" "yank_end e' = point (editor_buffer e')"
    "kill_ring e' = kill_ring e" "yank_start e' = yank_start e" "current e' = current e"
proof -
  let ?i = "current e" and ?b = "editor_buffer e"
  let ?f = "\<lambda>b. b\<lparr>mark := point b, has_mark := True\<rparr>"
  note I = buf_invD [OF ed_inv_buffer [OF inv]]
  have "buf_inv (?f ?b)"
    using ed_inv_buffer [OF inv] by (simp add: buf_inv_def history_inv_def version_def origin_def)
  note M = ed_inv_update [OF inv, of ?f, OF this]
  let ?e = "upd_current ?f e"
  have "replace_ok (editor_buffer ?e) (point ?b) 0 s"
    using rw s(2) ed_inv_buffer [OF inv] unfolding M(2) by (simp add: replace_ok_def buf_inv_def)
  moreover have "stored_bytes ?e + length s < size_max" using room M(2) by (simp add: stored_bytes_def)
  moreover have "\<not> python_enabled ?e" using plain by simp
  ultimately obtain e1 where e1: "editor_replace w ?e (point ?b) 0 s = Some (e1, True)" "ed_inv e1" "edited ?e e1"
    "content (editor_buffer e1) = splice (point ?b) 0 s (content ?b)"
    "point (editor_buffer e1) = point ?b + length s"
    using replace_step [OF M(1), of "point ?b" 0 s w] M(2)
    by (auto simp: relocate_def)
  note D = editedD [OF e1(3)]
  have kr: "kill_ring ?e = kill_ring e" "yank_index ?e = yank_index e" "yank_start ?e = yank_start e"
    by (simp_all add: upd_buf_def)
  have "yank_insert w ?i e = Some (e1\<lparr>yank_end := point (editor_buffer e1), last_kind := 2\<rparr>, True)"
    using e1(1) M(2) s(1) D(1) kr
    by (simp add: yank_insert_def editor_insert_def if_ok_def done_ok_def Let_def editor_buffer_def)
  then show thesis
    using that [of "e1\<lparr>yank_end := point (editor_buffer e1), last_kind := 2\<rparr>"] e1 D kr
    by (simp add: ed_inv_def editor_buffer_def)
qed

subsection \<open>Transposing\<close>

text \<open>One transposition: the characters before and after the point change places.\<close>

lemma transpose_ok:
  assumes inv: "ed_inv e" and plain: "\<not> python_enabled e" and rw: "\<not> readonly (editor_buffer e)"
    and p: "0 < p" "p < text_size (buf_text (editor_buffer e))" "point (editor_buffer e) = p"
    and a: "a = text_prev (buf_text (editor_buffer e)) p" and z: "z = text_next (buf_text (editor_buffer e)) p"
    and room: "stored_bytes e + (z - a) < size_max"
  shows "\<exists>e'. cmd_transpose w (current e) 1 e = Some (e', True) \<and> ed_inv e' \<and>
    content (editor_buffer e') = splice a (z - a)
      (seg p (z - p) (content (editor_buffer e)) @ seg a (p - a) (content (editor_buffer e)))
      (content (editor_buffer e)) \<and>
    point (editor_buffer e') = z"
proof -
  let ?xs = "content (editor_buffer e)" and ?t = "buf_text (editor_buffer e)"
  note I = buf_invD [OF ed_inv_buffer [OF inv]]
  have bp: "boundary ?xs p" using ed_inv_buffer [OF inv] p(3) by (simp add: buf_inv_def)
  have A: "a < p" "boundary ?xs a" unfolding a
    using text_prev_ok [OF I(1), of p] p bp text_prev_boundary [OF I(1), of p] by auto
  have Z: "p < z" "boundary ?xs z" unfolding z
    using text_next_ok [OF I(1) p(2)] text_next_boundary [OF I(1), of p] by auto
  have zl: "z \<le> length ?xs" using Z(2) by (rule boundary_le)
  let ?out = "seg p (z - p) ?xs @ seg a (p - a) ?xs"
  have out: "drop (p - a) (text_slice ?t a (z - a)) @ take (p - a) (text_slice ?t a (z - a)) = ?out"
    using A(1) Z(1) by (simp add: text_slice_ok [OF I(1)] seg_def drop_take min_absorb1)
  have len: "length ?out = z - a" using A(1) Z(1) zl by simp
  have "utf8_valid ?out"
    using valid_seg [OF I(5) bp, of "z - p"] valid_seg [OF I(5) A(2), of "p - a"] A Z bp
    by (simp add: utf8_valid_append)
  then have ok: "replace_ok (editor_buffer e) a (z - a) ?out"
    using rw A Z by (simp add: replace_ok_def)
  obtain e1 where e1: "editor_replace w e a (z - a) ?out = Some (e1, True)" "ed_inv e1" "edited e e1"
    "content (editor_buffer e1) = splice a (z - a) ?out ?xs"
    using replace_step [OF inv plain ok room [folded len], of w] by blast
  have "boundary (content (editor_buffer e1)) z"
    using boundary_splice(2) [OF A(2) _ I(5) \<open>utf8_valid ?out\<close>, of "z - a"] A Z len by (simp add: e1(4))
  note P = set_point_current [OF e1(2) this]
  have "point (editor_buffer e) \<noteq> text_size ?t" using p by simp
  then have "cmd_transpose w (current e) 1 e = Some (set_point (current e) z e1, True)"
    using p e1(1) out
    by (simp add: cmd_transpose_def Let_def numeral_eq_Suc if_ok_def done_ok_def a z flip: editor_buffer_def)
  with P e1(3,4) show ?thesis by (intro exI [of _ "set_point (current e) z e1"]) (simp add: editedD)
qed

subsection \<open>Changing case\<close>

text \<open>The case commands move the point to the end of the text they would have written, even when the
  edit was refused.\<close>

lemma case_word_refused:
  assumes inv: "ed_inv e" and ro: "readonly (editor_buffer e)" and count: "0 \<le> count"
    and z: "z = move_word w (buf_text (editor_buffer e)) (point (editor_buffer e)) count"
    and fwd: "point (editor_buffer e) \<le> z"
  shows "\<exists>e'. cmd_case_word w (current e) upper capital count e = Some (e', False) \<and>
    content (editor_buffer e') = content (editor_buffer e) \<and>
    point (editor_buffer e') = point (editor_buffer e) + length (recase w upper capital True
      (seg (point (editor_buffer e)) (z - point (editor_buffer e)) (content (editor_buffer e))))"
proof -
  have cur: "current e < length (buffers e)" using inv by (simp add: ed_inv_def)
  have "\<exists>m. editor_replace w e at n s = Some (editor_message m e, False)" for at n s
    using editor_replace_refused [OF inv] ro by (simp add: replace_ok_def)
  then obtain m where m: "editor_replace w e (point (editor_buffer e)) (z - point (editor_buffer e))
      (recase w upper capital True (text_slice (buf_text (editor_buffer e)) (point (editor_buffer e))
        (z - point (editor_buffer e)))) = Some (editor_message m e, False)" by blast
  have "move_word w (buf_text (buf_of e (current e))) (point (buf_of e (current e))) count = z"
    by (simp add: z editor_buffer_def)
  then show ?thesis
    using m count fwd cur text_slice_ok [OF buf_invD(1) [OF ed_inv_buffer [OF inv]]]
    by (simp add: cmd_case_word_def Let_def not_less set_point_def upd_buf_def editor_buffer_def)
qed

subsection \<open>Properties\<close>

text \<open>Kill then yank: killing the text between two positions takes exactly that text out, puts it on top of
  the kill ring and leaves the point there; yanking it back restores the buffer's contents.\<close>

theorem kill_then_yank:
  assumes "ed_inv e" "\<not> python_enabled e" "\<not> readonly (editor_buffer e)"
    and "boundary (content (editor_buffer e)) a" "boundary (content (editor_buffer e)) z" "a < z"
    and "stored_bytes e + (z - a) < size_max"
  shows "\<exists>e1 e2. kill_range w a z backward False False e = Some (e1, True) \<and>
    content (editor_buffer e1) = splice a (z - a) [] (content (editor_buffer e)) \<and>
    hd (kill_ring e1) = seg a (z - a) (content (editor_buffer e)) \<and> point (editor_buffer e1) = a \<and>
    cmd_yank w (current e1) 1 False e1 = Some (e2, True) \<and> ed_inv e2 \<and>
    content (editor_buffer e2) = content (editor_buffer e) \<and> point (editor_buffer e2) = z"
proof -
  let ?xs = "content (editor_buffer e)"
  let ?s = "seg a (z - a) ?xs"
  obtain e1 where e1: "kill_range w a z backward False False e = Some (e1, True)" "ed_inv e1"
    "content (editor_buffer e1) = splice a (z - a) [] ?xs" "point (editor_buffer e1) = a"
    "stored_bytes e1 = stored_bytes e" "current e1 = current e" "readonly (editor_buffer e1) = readonly (editor_buffer e)"
    "python_enabled e1 = python_enabled e" "kill_ring e1 = kill_ring (push_kill ?s backward False e)"
    using kill_range_ok [OF assms(1-6), of w backward False] assms(7) by auto
  have zl: "z \<le> length ?xs" using assms(5) by (rule boundary_le)
  have v: "utf8_valid ?s"
    using valid_seg [OF buf_invD(5) [OF ed_inv_buffer [OF assms(1)]] assms(4)] assms(5,6) by simp
  have len: "length ?s = z - a" using zl by simp
  let ?e = "e1\<lparr>yank_index := 0, yank_start := a\<rparr>"
  have s: "kill_ring ?e ! yank_index ?e = ?s" by (simp add: e1(9) push_kill_new)
  have E: "ed_inv ?e" "editor_buffer ?e = editor_buffer e1" "current ?e = current e1"
    using e1(2) by (simp_all add: ed_inv_def editor_buffer_def)
  have room: "stored_bytes ?e + length ?s < size_max"
    using assms(7) e1(5) unfolding stored_bytes_def E(2) len by simp
  have "\<not> python_enabled ?e" "\<not> readonly (editor_buffer ?e)" using assms(2,3) e1(7,8) E(2) by simp_all
  from yank_insert_ok [OF E(1) this s v room, of w]
  obtain e2 where e2: "yank_insert w (current ?e) ?e = Some (e2, True)" "ed_inv e2"
    "content (editor_buffer e2) = splice a 0 ?s (content (editor_buffer e1))"
    "point (editor_buffer e2) = a + length ?s"
    unfolding E(2) e1(4) by blast
  have "content (editor_buffer e2) = ?xs"
    using splice_inverse [of a "z - a" ?xs "[]"] zl assms(6) by (simp add: e2(3) e1(3))
  moreover have "cmd_yank w (current e1) 1 False e1 = Some (e2, True)"
    using e2(1) e1(4,9) by (simp add: cmd_yank_def push_kill_new E(2) flip: editor_buffer_def)
  moreover have "point (editor_buffer e2) = z" unfolding e2(4) len using assms(6) by simp
  moreover have "hd (kill_ring e1) = ?s" by (simp add: e1(9) push_kill_new)
  ultimately show ?thesis using e1 e2(2) by blast
qed

lemma sample_editor_stored: "stored_bytes sample_editor = 0"
  by (simp add: stored_bytes_def sample_editor_simps sample_buffer_simps sample_ok)

text \<open>\<open>transpose-chars\<close> swaps the characters on the two sides of the point, whatever their encoded lengths,
  and moves the point past both.\<close>

theorem transpose_swaps:
  assumes "ed_inv e" "\<not> python_enabled e" "\<not> readonly (editor_buffer e)"
    and "0 < p" "p < text_size (buf_text (editor_buffer e))" "point (editor_buffer e) = p"
    and "stored_bytes e + length (content (editor_buffer e)) < size_max"
  shows "\<exists>e' a z. cmd_transpose w (current e) 1 e = Some (e', True) \<and> ed_inv e' \<and>
    a = text_prev (buf_text (editor_buffer e)) p \<and> z = text_next (buf_text (editor_buffer e)) p \<and>
    content (editor_buffer e') = take a (content (editor_buffer e)) @ seg p (z - p) (content (editor_buffer e)) @
      seg a (p - a) (content (editor_buffer e)) @ drop z (content (editor_buffer e)) \<and>
    point (editor_buffer e') = z"
proof -
  let ?t = "buf_text (editor_buffer e)"
  note I = buf_invD [OF ed_inv_buffer [OF assms(1)]]
  have "text_prev ?t p \<le> text_next ?t p"
    using text_prev_ok(1) [OF I(1), of p] text_next_ok(1) [OF I(1), of p] assms(4,5) by simp
  moreover have "text_next ?t p \<le> length (content (editor_buffer e))"
    using text_next_boundary [OF I(1)] by (rule boundary_le)
  ultimately show ?thesis
    using transpose_ok [OF assms(1-6) refl refl, of w] assms(7) by (auto simp: splice_def)
qed

text \<open>The case commands do not check that their edit went through before they move the point: on a read-only
  buffer the text stays and the point goes to where the recased text would have ended, which can be
  past the end or inside a character (the witness: the two letters dotless i and e acute).\<close>

theorem case_word_moves_refused:
  assumes "ed_inv e" "readonly (editor_buffer e)" "0 \<le> count"
    and "z = move_word w (buf_text (editor_buffer e)) (point (editor_buffer e)) count"
    and "point (editor_buffer e) \<le> z"
  shows "\<exists>e'. cmd_case_word w (current e) upper capital count e = Some (e', False) \<and>
    content (editor_buffer e') = content (editor_buffer e) \<and>
    point (editor_buffer e') = point (editor_buffer e) + length (recase w upper capital True
      (seg (point (editor_buffer e)) (z - point (editor_buffer e)) (content (editor_buffer e))))"
  using assms by (rule case_word_refused)

definition dotless_text :: Text where
  "dotless_text = \<lparr>root = Node Null \<lparr>offset = 0, plength = 4, newlines = 0, chars = 2, bytes_sum = 4,
     lines_sum = 0, chars_sum = 2, priority = 1, source = False\<rparr> Null,
     original = [0xC4, 0xB1, 0xC3, 0xA9], added = [], added_cap = 0, random = 1\<rparr>"

definition dotless_world :: World where
  "dotless_world = sample_world\<lparr>iswalnum := \<lambda>_. True, towupper := \<lambda>c. if c = 0x131 then 73 else 0xC9,
     wcrtomb := \<lambda>c. Some (if c = 73 then [73] else [0xC3, 0x89])\<rparr>"

definition dotless_editor :: Editor where
  "dotless_editor = sample_editor\<lparr>buffers := [(blank_buffer 1 [] dotless_text)\<lparr>readonly := True\<rparr>]\<rparr>"

end
