(* ===== verification/Search.thy ===== *)
theory Search
  imports Text_Correct "HOL-Library.Sublist"
begin

section \<open>Searching (\<open>editor_find\<close> in \<open>src/buffer.c\<close>)\<close>

text \<open>
  Knuth-Morris-Pratt over chunks of the piece table. The inner \<open>while\<close> follows the table
  \<open>pi\<close>, which the code trusts to shrink \<open>j\<close>; \<open>None\<close> is that loop not returning.
\<close>

subsection \<open>The code\<close>

partial_function (option) fall_back :: "bytes \<Rightarrow> nat list \<Rightarrow> byte \<Rightarrow> nat \<Rightarrow> nat option" where
  "fall_back needle pi c j =
     (if j \<noteq> 0 \<and> c \<noteq> needle ! j then fall_back needle pi c (pi ! (j - 1)) else Some j)"

definition kmp_step :: "bytes \<Rightarrow> nat list \<Rightarrow> byte \<Rightarrow> nat \<Rightarrow> nat option" where
  "kmp_step needle pi c j = do {
     j \<leftarrow> fall_back needle pi c j;
     Some (if c = needle ! j then j + 1 else j) }"

function pi_loop :: "bytes \<Rightarrow> nat list \<Rightarrow> nat \<Rightarrow> nat \<Rightarrow> nat list option" where
  "pi_loop needle pi i j =
     (if i < length needle then do {
        j \<leftarrow> kmp_step needle pi (needle ! i) j;
        pi_loop needle (pi @ [j]) (i + 1) j }
      else Some pi)"
  by pat_completeness auto
termination
  by (relation "measure (\<lambda>(needle, pi, i, j). length needle - i)") auto

declare pi_loop.simps [simp del]

text \<open>The \<open>for\<close> over one chunk: \<open>Inr\<close> is the early return of a forward match.\<close>

fun find_chunk :: "bytes \<Rightarrow> nat list \<Rightarrow> bool \<Rightarrow> nat \<Rightarrow> nat \<Rightarrow> bytes \<Rightarrow> nat \<Rightarrow> nat
    \<Rightarrow> (nat \<times> nat + nat) option" where
  "find_chunk needle pi backward off k [] j result = Some (Inl (j, result))"
| "find_chunk needle pi backward off k (c # cs) j result = do {
     j \<leftarrow> kmp_step needle pi c j;
     if j = length needle
     then
       let result = off + k + 1 - length needle in
       if \<not> backward then Some (Inr result)
       else find_chunk needle pi backward off (k + 1) cs (pi ! (j - 1)) result
     else find_chunk needle pi backward off (k + 1) cs j result }"

function find_loop :: "Text \<Rightarrow> bytes \<Rightarrow> nat list \<Rightarrow> bool \<Rightarrow> nat \<Rightarrow> nat \<Rightarrow> nat \<Rightarrow> nat \<Rightarrow> nat option" where
  "find_loop t needle pi backward off limit j result =
     (if off < limit then
        let n = (if limit - off < 32768 then limit - off else 32768) in do {
          r \<leftarrow> find_chunk needle pi backward off 0 (text_copy t off n) j result;
          case r of Inr x \<Rightarrow> Some x
          | Inl (j, result) \<Rightarrow> find_loop t needle pi backward (off + n) limit j result }
      else Some result)"
  by pat_completeness auto
termination
  by (relation "measure (\<lambda>(t, needle, pi, backward, off, limit, j, result). limit - off)") auto

declare find_loop.simps [simp del]

definition editor_find :: "Text \<Rightarrow> bytes \<Rightarrow> nat \<Rightarrow> bool \<Rightarrow> nat option" where
  "editor_find t needle start backward =
     (let size = text_size t in
      if needle = [] then Some (if start \<le> size then start else size)
      else
        let start = (if start > size then size else start) in do {
          pi \<leftarrow> pi_loop needle [0] 1 0;
          find_loop t needle pi backward (if backward then 0 else start)
            (if backward then start else size) 0 size_max })"

subsection \<open>The table\<close>

text \<open>\<open>longest p t B j\<close>: of the prefixes of \<open>p\<close> shorter than \<open>B\<close>, the one of length \<open>j\<close> is the
  longest that ends \<open>t\<close>.\<close>

definition longest :: "bytes \<Rightarrow> bytes \<Rightarrow> nat \<Rightarrow> nat \<Rightarrow> bool" where
  "longest p t B j \<longleftrightarrow> j < B \<and> suffix (take j p) t \<and> (\<forall>k < B. suffix (take k p) t \<longrightarrow> k \<le> j)"

definition table_ok :: "bytes \<Rightarrow> nat list \<Rightarrow> bool" where
  "table_ok p pi \<longleftrightarrow> length pi \<le> length p \<and> (\<forall>i < length pi. longest p (take (i + 1) p) (i + 1) (pi ! i))"

lemma suffix_take_snoc:
  "k < length p \<Longrightarrow> suffix (take (Suc k) p) (t @ [c]) \<longleftrightarrow> suffix (take k p) t \<and> p ! k = c"
  by (auto simp: take_Suc_conv_app_nth)

declare suffix_snoc [simp del]

lemma table_nth:
  "table_ok p pi \<Longrightarrow> j \<le> length pi \<Longrightarrow> j \<noteq> 0 \<Longrightarrow> longest p (take j p) j (pi ! (j - 1))"
  by (cases j) (auto simp: table_ok_def)

text \<open>\<open>best p c t j i\<close>: of the prefixes no longer than \<open>j\<close> that end \<open>t\<close> and go on with \<open>c\<close>, the
  longest has length \<open>i\<close>; when there is none, \<open>i = 0\<close>.\<close>

definition best :: "bytes \<Rightarrow> byte \<Rightarrow> bytes \<Rightarrow> nat \<Rightarrow> nat \<Rightarrow> bool" where
  "best p c t j i \<longleftrightarrow> i \<le> j \<and> suffix (take i p) t \<and> (i = 0 \<or> p ! i = c) \<and>
     (\<forall>k \<le> j. suffix (take k p) t \<and> p ! k = c \<longrightarrow> k \<le> i)"

lemma best_self: "suffix (take j p) t \<Longrightarrow> j = 0 \<or> p ! j = c \<Longrightarrow> best p c t j j"
  by (simp add: best_def)

lemma best_next:
  assumes "best p c t i r" "longest p (take j p) j i" "suffix (take j p) t" "p ! j \<noteq> c"
  shows "best p c t j r"
proof -
  have "k \<le> r" if k: "k \<le> j" "suffix (take k p) t" "p ! k = c" for k
  proof -
    have "k < j" using k(1,3) assms(4) by (cases "k = j") auto
    moreover have "suffix (take k p) (take j p)"
      by (rule suffix_length_suffix [OF k(2) assms(3)]) (use k(1) in simp)
    ultimately have "k \<le> i" using assms(2) by (simp add: longest_def)
    with assms(1) k show ?thesis by (simp add: best_def)
  qed
  moreover have "r \<le> j" "suffix (take r p) t" "r = 0 \<or> p ! r = c"
    using assms(1,2) by (simp_all add: best_def longest_def)
  ultimately show ?thesis unfolding best_def by blast
qed

lemma fall_back_ok:
  assumes "table_ok p pi" "j \<le> length pi" "suffix (take j p) t"
  shows "\<exists>i. fall_back p pi c j = Some i \<and> best p c t j i"
  using assms(2-)
proof (induction j rule: less_induct)
  case (less j)
  show ?case
  proof (cases "j \<noteq> 0 \<and> c \<noteq> p ! j")
    case True
    let ?i = "pi ! (j - 1)"
    have L: "longest p (take j p) j ?i"
      using table_nth [OF assms(1)] less.prems True by simp
    then have lt: "?i < j" and "suffix (take ?i p) (take j p)" by (simp_all add: longest_def)
    then have sf: "suffix (take ?i p) t"
      using less.prems(2) suffix_order.trans by blast
    have "?i \<le> length pi" using lt less.prems(1) by simp
    then obtain r where r: "fall_back p pi c ?i = Some r" "best p c t ?i r"
      using less.IH [OF lt _ sf] by blast
    have "fall_back p pi c j = Some r"
      using r(1) True by (simp add: fall_back.simps [of p pi c j])
    moreover have "best p c t j r"
      using best_next [OF r(2) L less.prems(2)] True by auto
    ultimately show ?thesis by blast
  next
    case False
    then have "fall_back p pi c j = Some j" by (subst fall_back.simps) auto
    moreover have "best p c t j j" using False less.prems(2) by (intro best_self) auto
    ultimately show ?thesis by blast
  qed
qed

lemma longest_step:
  assumes B: "B \<le> length p" and L: "longest p t B j" and b: "best p c t j i"
  shows "longest p (t @ [c]) (B + 1) (if c = p ! i then i + 1 else i)" (is "longest _ _ _ ?r")
proof -
  have j: "j < B" "\<And>k. k < B \<Longrightarrow> suffix (take k p) t \<Longrightarrow> k \<le> j" using L by (simp_all add: longest_def)
  have i: "i \<le> j" "suffix (take i p) t" "i = 0 \<or> p ! i = c"
    "\<And>k. k \<le> j \<Longrightarrow> suffix (take k p) t \<Longrightarrow> p ! k = c \<Longrightarrow> k \<le> i"
    using b by (simp_all add: best_def)
  have "k \<le> ?r" if k: "k < B + 1" "suffix (take k p) (t @ [c])" for k
  proof (cases k)
    case (Suc n)
    have "suffix (take n p) t" "p ! n = c"
      using suffix_take_snoc [of n p t c] k Suc B by simp_all
    then have "n \<le> i" using i(4) j(2) k(1) Suc by simp
    then show ?thesis using i(3) \<open>p ! n = c\<close> Suc by (cases "n = i") auto
  qed simp
  moreover have "suffix (take ?r p) (t @ [c])"
    using suffix_take_snoc [of i p t c] i(1-3) j(1) B by (cases "c = p ! i") simp_all
  moreover have "?r < B + 1" using i(1) j(1) by simp
  ultimately show ?thesis unfolding longest_def by blast
qed

lemma kmp_step_ok:
  assumes "table_ok p pi" "j \<le> length pi" "B \<le> length p" "longest p t B j"
  shows "\<exists>j'. kmp_step p pi c j = Some j' \<and> longest p (t @ [c]) (B + 1) j'"
proof -
  have "suffix (take j p) t" using assms(4) by (simp add: longest_def)
  then obtain i where "fall_back p pi c j = Some i" "best p c t j i"
    using fall_back_ok [OF assms(1,2)] by blast
  with longest_step [OF assms(3,4)] show ?thesis by (auto simp: kmp_step_def)
qed

lemma longest_shrink: "longest p t (Suc B) j \<Longrightarrow> j \<noteq> B \<Longrightarrow> longest p t B j"
  by (auto simp: longest_def)

lemma longest_full:
  assumes "p \<noteq> []" "suffix p t" "longest p p (length p) j"
  shows "longest p t (length p) j"
  unfolding longest_def
proof (intro conjI allI impI)
  show "j < length p" "suffix (take j p) t"
    using assms by (auto simp: longest_def intro: suffix_order.trans)
  fix k assume k: "k < length p" "suffix (take k p) t"
  have "suffix (take k p) p" by (rule suffix_length_suffix [OF k(2) assms(2)]) simp
  with k assms(3) show "k \<le> j" by (auto simp: longest_def)
qed

lemma pi_loop_ok:
  assumes "table_ok p pi" "length pi = i" "0 < i" "i \<le> length p" "j = pi ! (i - 1)"
  shows "\<exists>pi'. pi_loop p pi i j = Some pi' \<and> table_ok p pi' \<and> length pi' = length p"
  using assms
proof (induction "length p - i" arbitrary: pi i j)
  case 0
  then show ?case by (simp add: pi_loop.simps [of p pi])
next
  case (Suc d)
  have L: "longest p (take i p) i j"
    using table_nth [OF Suc.prems(1), of i] Suc.prems by simp
  then obtain j' where j': "kmp_step p pi (p ! i) j = Some j'" "longest p (take i p @ [p ! i]) (i + 1) j'"
    using kmp_step_ok [OF Suc.prems(1) _ Suc.prems(4) L, of "p ! i"] Suc.prems by (auto simp: longest_def)
  have "table_ok p (pi @ [j'])"
    using Suc.prems(1,2) Suc.hyps(2) j'(2)
    by (auto simp: table_ok_def nth_append less_Suc_eq take_Suc_conv_app_nth)
  then have "\<exists>pi'. pi_loop p (pi @ [j']) (i + 1) j' = Some pi' \<and> table_ok p pi' \<and> length pi' = length p"
    using Suc.prems Suc.hyps(2) by (intro Suc.hyps(1)) (auto simp: nth_append)
  moreover have "i < length p" using Suc.hyps(2) by simp
  ultimately show ?case using j'(1) by (simp add: pi_loop.simps [of p pi i j])
qed

lemma kmp_table_ok:
  assumes "p \<noteq> []"
  shows "\<exists>pi. pi_loop p [0] 1 0 = Some pi \<and> table_ok p pi \<and> length pi = length p"
proof (rule pi_loop_ok)
  show "table_ok p [0]" using assms by (cases p) (auto simp: table_ok_def longest_def)
qed (use assms in \<open>auto simp: Suc_le_eq\<close>)


subsection \<open>The scan\<close>

text \<open>Where, reading \<open>cs\<close> after \<open>t\<close>, an occurrence of \<open>p\<close> is complete.\<close>

definition ends :: "bytes \<Rightarrow> bytes \<Rightarrow> bytes \<Rightarrow> nat list" where
  "ends p t cs = filter (\<lambda>e. suffix p (t @ take e cs)) [1..<Suc (length cs)]"

lemma ends_Nil [simp]: "ends p t [] = []"
  by (simp add: ends_def)

lemma map_plus_upt: "map ((+) a) [1..<Suc b] = [Suc a..<Suc (a + b)]"
  by (induction b) auto

lemma ends_append:
  "ends p t (a @ b) = ends p t a @ map ((+) (length a)) (ends p (t @ a) b)"
proof -
  let ?P = "\<lambda>e. suffix p (t @ take e (a @ b))"
  have "[1..<Suc (length (a @ b))] = [1..<Suc (length a)] @ map ((+) (length a)) [1..<Suc (length b)]"
    using upt_add_eq_append [of 1 "Suc (length a)" "length b"] unfolding map_plus_upt by simp
  then have "ends p t (a @ b) =
      filter ?P [1..<Suc (length a)] @ filter ?P (map ((+) (length a)) [1..<Suc (length b)])"
    unfolding ends_def by simp
  also have "filter ?P [1..<Suc (length a)] = ends p t a"
    unfolding ends_def by (rule filter_cong) auto
  also have "filter ?P (map ((+) (length a)) [1..<Suc (length b)]) = map ((+) (length a)) (ends p (t @ a) b)"
    unfolding ends_def filter_map by (simp add: comp_def)
  finally show ?thesis .
qed

lemma ends_Cons:
  "ends p t (c # cs) = (if suffix p (t @ [c]) then [1] else []) @ map Suc (ends p (t @ [c]) cs)"
proof -
  have "ends p t [c] = (if suffix p (t @ [c]) then [1] else [])" by (simp add: ends_def)
  with ends_append [of p t "[c]" cs] show ?thesis by simp
qed

lemma find_chunk_ok:
  assumes "table_ok p pi" "length pi = length p" "p \<noteq> []" "longest p t (length p) j"
  shows "(ends p t cs = [] \<or> backward) \<Longrightarrow> \<exists>j'. longest p (t @ cs) (length p) j' \<and>
      find_chunk p pi backward off k cs j r =
        Some (Inl (j', if ends p t cs = [] then r else off + k + last (ends p t cs) - length p))"
    and "ends p t cs \<noteq> [] \<Longrightarrow> \<not> backward \<Longrightarrow>
      find_chunk p pi backward off k cs j r = Some (Inr (off + k + hd (ends p t cs) - length p))"
  using assms(4)
proof (induction cs arbitrary: t k j r)
  case Nil
  { case 1 then show ?case by auto }
  { case 2 then show ?case by simp }
next
  case (Cons c cs)
  let ?m = "length p"
  have step: "\<exists>j'. longest p (t @ [c]) ?m (if j' = ?m then pi ! (j' - 1) else j') \<and>
      kmp_step p pi c j = Some j' \<and> (j' = ?m \<longleftrightarrow> suffix p (t @ [c]))" if L: "longest p t ?m j" for t j
  proof -
    obtain j' where j': "kmp_step p pi c j = Some j'" "longest p (t @ [c]) (Suc ?m) j'"
      using kmp_step_ok [OF assms(1) _ order_refl L, of c] L assms(2) by (auto simp: longest_def)
    have full: "j' = ?m \<longleftrightarrow> suffix p (t @ [c])"
      using j'(2) by (auto simp: longest_def dest: spec [of _ ?m])
    have "longest p (t @ [c]) ?m (if j' = ?m then pi ! (j' - 1) else j')"
    proof (cases "j' = ?m")
      case True
      with table_nth [OF assms(1), of ?m] assms(2,3) have "longest p p ?m (pi ! (?m - 1))" by simp
      then show ?thesis using longest_full [OF assms(3)] full True by simp
    next
      case False
      with longest_shrink [OF j'(2)] show ?thesis by simp
    qed
    with j'(1) full show ?thesis by blast
  qed
  { case 1
    obtain j' where j': "longest p (t @ [c]) ?m (if j' = ?m then pi ! (j' - 1) else j')"
      "kmp_step p pi c j = Some j'" "j' = ?m \<longleftrightarrow> suffix p (t @ [c])"
      using step [OF 1(2)] by blast
    let ?r = "if j' = ?m then off + k + 1 - ?m else r"
    have "ends p (t @ [c]) cs = [] \<or> backward" using 1(1) by (auto simp: ends_Cons)
    from Cons.IH(1) [OF this j'(1), of "k + 1" ?r] show ?case
      using j'(2,3) 1(1) by (auto simp: ends_Cons Let_def last_map add.assoc)
  }
  { case 2
    obtain j' where j': "longest p (t @ [c]) ?m (if j' = ?m then pi ! (j' - 1) else j')"
      "kmp_step p pi c j = Some j'" "j' = ?m \<longleftrightarrow> suffix p (t @ [c])"
      using step [OF 2(3)] by blast
    show ?case
    proof (cases "suffix p (t @ [c])")
      case True
      with j'(2,3) 2 show ?thesis by (simp add: ends_Cons Let_def)
    next
      case False
      with 2 have "ends p (t @ [c]) cs \<noteq> []" by (simp add: ends_Cons)
      from Cons.IH(2) [OF this 2(2) j'(1), of "k + 1" r] show ?thesis
        using False j'(2,3) \<open>ends p (t @ [c]) cs \<noteq> []\<close> by (simp add: ends_Cons hd_map)
    qed
  }
qed


lemma find_loop_ok:
  assumes "text_inv t" "table_ok p pi" "length pi = length p" "p \<noteq> []"
    and "limit \<le> length (text_content t)" "longest p s (length p) j"
  shows "find_loop t p pi backward off limit j r =
    (let E = ends p s (seg off (limit - off) (text_content t)) in
     Some (if E = [] then r else off + (if backward then last E else hd E) - length p))"
  using assms(5,6)
proof (induction "limit - off" arbitrary: off s j r rule: less_induct)
  case less
  let ?xs = "text_content t"
  show ?case
  proof (cases "off < limit")
    case False
    then show ?thesis by (simp add: find_loop.simps [of t p pi backward off])
  next
    case True
    define n where "n = (if limit - off < 32768 then limit - off else 32768)"
    have n: "0 < n" "n \<le> limit - off" using True by (auto simp: n_def)
    let ?c = "seg off n ?xs" and ?d = "seg (off + n) (limit - (off + n)) ?xs"
    have len: "length ?c = n" using n less.prems(1) by simp
    have split: "seg off (limit - off) ?xs = ?c @ ?d"
      using seg_split [OF n(2), of off ?xs] by (simp add: diff_diff_left)
    note E = ends_append [of p s ?c ?d, unfolded len, folded split]
    have loop: "find_loop t p pi backward off limit j r =
        (find_chunk p pi backward off 0 ?c j r) \<bind> (\<lambda>q. case q of Inr x \<Rightarrow> Some x
          | Inl (j, r) \<Rightarrow> find_loop t p pi backward (off + n) limit j r)"
      using True assms(1)
      by (subst find_loop.simps) (simp add: text_copy_ok Let_def case_prod_beta' del: find_chunk.simps flip: n_def)
    note C = find_chunk_ok [OF assms(2-4) less.prems(2), of ?c backward off 0 r]
    show ?thesis
    proof (cases "ends p s ?c = [] \<or> backward")
      case cont: True
      from C(1) [OF this] obtain j' where j': "longest p (s @ ?c) (length p) j'"
        "find_chunk p pi backward off 0 ?c j r =
           Some (Inl (j', if ends p s ?c = [] then r else off + last (ends p s ?c) - length p))"
        by auto
      have "limit - (off + n) < limit - off" using n True by simp
      from less.hyps [OF this less.prems(1) j'(1)] loop j'(2) E cont n show ?thesis
        by (auto simp: Let_def last_map hd_map add.assoc)
    next
      case False
      with C(2) loop E n show ?thesis by (auto simp: Let_def)
    qed
  qed
qed

subsection \<open>What a search finds\<close>

definition occurs :: "bytes \<Rightarrow> bytes \<Rightarrow> nat \<Rightarrow> bool" where
  "occurs p xs i \<longleftrightarrow> i + length p \<le> length xs \<and> seg i (length p) xs = p"

lemma suffix_iff_drop: "suffix p xs \<longleftrightarrow> length p \<le> length xs \<and> drop (length xs - length p) xs = p"
proof
  assume "suffix p xs"
  then obtain ys where "xs = ys @ p" by (auto simp: suffix_def)
  then show "length p \<le> length xs \<and> drop (length xs - length p) xs = p" by simp
next
  assume "length p \<le> length xs \<and> drop (length xs - length p) xs = p"
  then show "suffix p xs" using suffix_drop [of "length xs - length p" xs] by simp
qed

lemma ends_occurs:
  assumes "at + n \<le> length xs" "p \<noteq> []"
  shows "e \<in> set (ends p [] (seg at n xs)) \<longleftrightarrow>
    length p \<le> e \<and> e \<le> n \<and> occurs p xs (at + e - length p)"
proof -
  have "suffix p (seg at e xs) \<longleftrightarrow> length p \<le> e \<and> seg (at + e - length p) (length p) xs = p"
    if e: "e \<le> n"
  proof -
    have len: "length (seg at e xs) = e" using e assms(1) by simp
    have "drop (e - length p) (seg at e xs) = seg (at + e - length p) (length p) xs" if "length p \<le> e"
      using that by simp
    then show ?thesis unfolding suffix_iff_drop len by auto
  qed
  moreover have "0 < e" if "length p \<le> e" using assms(2) that by (cases p) auto
  ultimately show ?thesis
    using assms(1) by (auto simp: ends_def occurs_def min_absorb1 Suc_le_eq simp del: upt_Suc)
qed

lemma ends_sorted: "sorted (ends p t cs)"
  unfolding ends_def by (rule sorted_wrt_filter) (simp del: upt_Suc)

lemma sorted_le_last: "sorted E \<Longrightarrow> e \<in> set E \<Longrightarrow> e \<le> last E" for E :: "nat list"
  by (induction E) auto

theorem editor_find_forward:
  assumes "text_inv t" "p \<noteq> []" "start \<le> text_size t"
  shows "\<exists>r. editor_find t p start False = Some r \<and>
    (r = size_max \<and> (\<forall>i \<ge> start. \<not> occurs p (text_content t) i) \<or>
     start \<le> r \<and> occurs p (text_content t) r \<and> (\<forall>i. start \<le> i \<and> i < r \<longrightarrow> \<not> occurs p (text_content t) i))"
proof -
  let ?xs = "text_content t" and ?m = "length p"
  let ?n = "length ?xs - start"
  let ?E = "ends p [] (seg start ?n ?xs)"
  obtain pi where pi: "pi_loop p [0] 1 0 = Some pi" "table_ok p pi" "length pi = ?m"
    using kmp_table_ok [OF assms(2)] by blast
  have L: "longest p [] ?m 0" using assms(2) by (auto simp: longest_def)
  have st: "start + ?n \<le> length ?xs" using assms(1,3) by (simp add: text_size_content)
  have find: "editor_find t p start False = Some (if ?E = [] then size_max else start + hd ?E - ?m)"
    using assms pi find_loop_ok [OF assms(1) pi(2,3) assms(2) order_refl L]
    by (simp add: editor_find_def Let_def text_size_content)
  note E = ends_occurs [OF st assms(2)]
  have in_E: "i + ?m - start \<in> set ?E" if "start \<le> i" "occurs p ?xs i" for i
    unfolding E using that st by (auto simp: occurs_def)
  show ?thesis
  proof (cases "?E = []")
    case True
    then show ?thesis using find in_E by fastforce
  next
    case False
    then have "hd ?E \<in> set ?E" by simp
    then have h: "?m \<le> hd ?E" "occurs p ?xs (start + hd ?E - ?m)" unfolding E by simp_all
    have "\<not> occurs p ?xs i" if "start \<le> i" "i < start + hd ?E - ?m" for i
    proof
      assume "occurs p ?xs i"
      with in_E that have "i + ?m - start \<in> set ?E" by simp
      then have "hd ?E \<le> i + ?m - start"
        using ends_sorted [of p "[]" "seg start ?n ?xs"] by (cases ?E) auto
      with that h(1) show False by simp
    qed
    with find False h show ?thesis by auto
  qed
qed

theorem editor_find_backward:
  assumes "text_inv t" "p \<noteq> []" "start \<le> text_size t"
  shows "\<exists>r. editor_find t p start True = Some r \<and>
    (r = size_max \<and> (\<forall>i. i + length p \<le> start \<longrightarrow> \<not> occurs p (text_content t) i) \<or>
     r + length p \<le> start \<and> occurs p (text_content t) r \<and>
     (\<forall>i. r < i \<and> i + length p \<le> start \<longrightarrow> \<not> occurs p (text_content t) i))"
proof -
  let ?xs = "text_content t" and ?m = "length p"
  let ?E = "ends p [] (seg 0 start ?xs)"
  obtain pi where pi: "pi_loop p [0] 1 0 = Some pi" "table_ok p pi" "length pi = ?m"
    using kmp_table_ok [OF assms(2)] by blast
  have L: "longest p [] ?m 0" using assms(2) by (auto simp: longest_def)
  have st: "0 + start \<le> length ?xs" using assms(1,3) by (simp add: text_size_content)
  have find: "editor_find t p start True = Some (if ?E = [] then size_max else last ?E - ?m)"
    using assms pi st find_loop_ok [OF assms(1) pi(2,3) assms(2) _ L, of start True 0]
    by (simp add: editor_find_def Let_def text_size_content)
  note E = ends_occurs [OF st assms(2)]
  have in_E: "i + ?m \<in> set ?E" if "i + ?m \<le> start" "occurs p ?xs i" for i
    unfolding E using that by simp
  show ?thesis
  proof (cases "?E = []")
    case True
    then show ?thesis using find in_E by fastforce
  next
    case False
    then have "last ?E \<in> set ?E" by simp
    then have h: "?m \<le> last ?E" "last ?E \<le> start" "occurs p ?xs (last ?E - ?m)"
      unfolding E by simp_all
    have "\<not> occurs p ?xs i" if "last ?E - ?m < i" "i + ?m \<le> start" for i
    proof
      assume "occurs p ?xs i"
      with in_E that have "i + ?m \<in> set ?E" by simp
      then have "i + ?m \<le> last ?E"
        using ends_sorted [of p "[]" "seg 0 start ?xs"] by (simp add: sorted_le_last)
      with that h(1) show False by simp
    qed
    with find False h show ?thesis by auto
  qed
qed

subsection \<open>Properties\<close>

text \<open>C36 Searching forward finds the first occurrence: \<open>editor_find\<close> returns the least offset at or after the
  start where the pattern stands, or the not-found value when there is none; the scan always returns.\<close>

theorem find_forward_first:
  assumes "text_inv t" "p \<noteq> []" "start \<le> text_size t"
  shows "\<exists>r. editor_find t p start False = Some r \<and>
    (r = size_max \<and> (\<forall>i \<ge> start. \<not> occurs p (text_content t) i) \<or>
     start \<le> r \<and> occurs p (text_content t) r \<and> (\<forall>i. start \<le> i \<and> i < r \<longrightarrow> \<not> occurs p (text_content t) i))"
  using assms by (rule editor_find_forward)

theorem find_forward_first_witness:
  "\<exists>r. editor_find sample_text [99] 1 False = Some r \<and> (r = size_max \<or> occurs [99] sample r)"
proof -
  have "1 \<le> text_size sample_text" by (simp add: sample_ok text_size_content [OF sample_ok(2)] sample_def)
  from find_forward_first [OF sample_ok(2) _ this, of "[99]"] show ?thesis by (auto simp: sample_ok)
qed

text \<open>Searching backward finds the last occurrence that ends at or before the start, or reports that there is
  none.\<close>

theorem find_backward_last:
  assumes "text_inv t" "p \<noteq> []" "start \<le> text_size t"
  shows "\<exists>r. editor_find t p start True = Some r \<and>
    (r = size_max \<and> (\<forall>i. i + length p \<le> start \<longrightarrow> \<not> occurs p (text_content t) i) \<or>
     r + length p \<le> start \<and> occurs p (text_content t) r \<and>
     (\<forall>i. r < i \<and> i + length p \<le> start \<longrightarrow> \<not> occurs p (text_content t) i))"
  using assms by (rule editor_find_backward)

end
