(* ===== verification/Files.thy ===== *)
theory Files
  imports Buffer_Edits
begin

section \<open>Opening and saving files (\<open>editor_open\<close>, \<open>editor_save\<close> in \<open>src/buffer.c\<close>)\<close>

subsection \<open>Reading the bytes of a file\<close>

definition BOM :: bytes where
  "BOM = [0xEF, 0xBB, 0xBF]"

text \<open>\<open>if(bom) memmove(s,s+3,n-3)\<close>\<close>

definition strip_bom :: "bytes \<Rightarrow> bool \<times> bytes" where
  "strip_bom s = (if length s \<ge> 3 \<and> take 3 s = BOM then (True, drop 3 s) else (False, s))"

text \<open>The scan for line ends: \<open>prev\<close> is \<open>s[i-1]\<close>, absent at the start.\<close>

fun line_ends :: "byte option \<Rightarrow> bytes \<Rightarrow> bool \<Rightarrow> bool \<Rightarrow> bool \<times> bool" where
  "line_ends prev [] has_crlf any_lf = (has_crlf, any_lf)"
| "line_ends prev (c # s) has_crlf any_lf =
     (if is_nl c
      then if prev = Some 13 then line_ends (Some c) s True any_lf else line_ends (Some c) s has_crlf True
      else line_ends (Some c) s has_crlf any_lf)"

fun drop_cr :: "bytes \<Rightarrow> bytes" where
  "drop_cr [] = []"
| "drop_cr [c] = [c]"
| "drop_cr (c # d # s) = (if c = 13 \<and> is_nl d then drop_cr (d # s) else c # drop_cr (d # s))"

text \<open>The flags \<open>bom\<close> and \<open>crlf\<close> and the text; \<open>None\<close> when it is not UTF-8.\<close>

definition decode_file :: "bytes \<Rightarrow> (bool \<times> bool \<times> bytes) option" where
  "decode_file s =
     (let (has_bom, s) = strip_bom s in
      if \<not> utf8_valid s then None
      else
        let (has_crlf, any_lf) = line_ends None s False False in
        if has_crlf \<and> \<not> any_lf then Some (has_bom, True, drop_cr s) else Some (has_bom, False, s))"

text \<open>What \<open>editor_save\<close> writes to the stream, and whether every write succeeded.\<close>

definition write_buffer :: "Buffer \<Rightarrow> FILE \<Rightarrow> FILE \<times> bool" where
  "write_buffer b f =
     (let (f, ok) = (if bom b then let (f, k) = fwrite BOM f in (f, k = 3) else (f, True)) in
      if ok then text_write (buf_text b) f (crlf b) else (f, False))"

definition encode :: "bool \<Rightarrow> bool \<Rightarrow> bytes \<Rightarrow> bytes" where
  "encode has_bom has_crlf s = (if has_bom then BOM else []) @ expand_crlf has_crlf s"

lemma length_BOM: "length BOM = 3"
  by (simp add: BOM_def)

lemma write_buffer_put:
  "text_inv (buf_text b) \<Longrightarrow> write_buffer b f = put (encode (bom b) (crlf b) (content b)) f"
proof -
  assume inv: "text_inv (buf_text b)"
  have "(case fwrite BOM f of (f, k) \<Rightarrow> (f, k = 3)) = put BOM f"
    using fwrite_put [of BOM f] by (simp add: length_BOM)
  then have "write_buffer b f = (let (f, ok) = (if bom b then put BOM f else (f, True)) in
      if ok then text_write (buf_text b) f (crlf b) else (f, False))"
    by (simp add: write_buffer_def)
  then show ?thesis
    using inv by (simp add: encode_def text_write_ok put_append split: prod.split)
qed

lemma line_ends_any: "snd (line_ends prev s h True)"
  by (induction s arbitrary: prev h) auto

lemma drop_cr_expand:
  "\<not> snd (line_ends prev s h False) \<Longrightarrow>
     expand_crlf True (drop_cr s) = (if s \<noteq> [] \<and> is_nl (hd s) then 13 # s else s)"
proof (induction s arbitrary: prev h rule: drop_cr.induct)
  case (3 c d s)
  have nl13: "\<not> is_nl 13" by (simp add: is_nl_def)
  from 3 show ?case
    by (auto simp: line_ends_any nl13 split: if_splits)
qed auto

lemma drop_cr_other: "13 \<notin> set e \<Longrightarrow> drop_cr (e @ s) = e @ drop_cr s"
proof (induction e)
  case (Cons c e)
  then have "drop_cr (c # x) = c # drop_cr x" for x by (cases x) auto
  with Cons show ?case by simp
qed simp

lemma valid_drop_cr: "utf8_valid s \<Longrightarrow> utf8_valid (drop_cr s)"
proof (induction rule: utf8_valid_induct)
  case (Char c s)
  show ?case
  proof (cases "13 \<in> set (utf8_encode c)")
    case True
    then have e: "utf8_encode c = [13]" using encode_ascii [OF Char.hyps(1) True] by simp
    then have "utf8_valid (13 # x) = utf8_valid x" for x
      using decode_valid_step [OF Char.hyps(1), of x] by simp
    with e Char.IH show ?thesis by (cases s) auto
  next
    case False
    with Char show ?thesis by (simp add: drop_cr_other decode_valid_step)
  qed
qed simp

theorem decode_encode_file:
  assumes "decode_file s = Some (b, c, t)"
  shows "encode b c t = s" "utf8_valid t"
proof -
  obtain h s' where st: "strip_bom s = (h, s')" by fastforce
  then have s: "s = (if h then BOM else []) @ s'"
    by (auto simp: strip_bom_def split: if_splits) (metis append_take_drop_id)
  obtain l a where l: "line_ends None s' False False = (l, a)" by fastforce
  have v: "utf8_valid s'" using assms st by (auto simp: decode_file_def split: if_splits)
  have R: "b = h" "c = (l \<and> \<not> a)" "t = (if c then drop_cr s' else s')"
    using assms st l v by (auto simp: decode_file_def split: if_splits)
  have "expand_crlf c t = s'"
  proof (cases c)
    case True
    then have na: "\<not> snd (line_ends None s' False False)" using R(2) l by simp
    moreover have "\<not> (s' \<noteq> [] \<and> is_nl (hd s'))"
      using na by (cases s') (auto simp: line_ends_any split: if_splits)
    ultimately show ?thesis using drop_cr_expand [of None s' False] True R(3) by auto
  next
    case False
    with R(3) show ?thesis by simp
  qed
  then show "encode b c t = s" using s R(1) by (simp add: encode_def)
  show "utf8_valid t" using v R(3) by (simp add: valid_drop_cr)
qed


subsection \<open>The file system as the code sees it\<close>

record Entry =
  entry_stat :: Stat
  entry_data :: bytes
  entry_regular :: bool

type_synonym Disk = "bytes \<Rightarrow> Entry option"

text \<open>
  What the operating system answers: the environment, and which calls fail. \<open>others\<close> is what
  other processes do to the disk while a save is writing its temporary file.
\<close>

record Os =
  home :: "bytes option"
  realpath :: "bytes \<Rightarrow> bytes option"
  getcwd :: "bytes option"
  fopen_error :: "bytes \<Rightarrow> bytes option" \<comment> \<open>the error text of an \<open>fopen\<close> that fails but not with ENOENT\<close>
  writable :: "bytes \<Rightarrow> bool"
  mkstemp :: "bytes \<Rightarrow> bytes option"
  fdopen_ok :: bool
  sync_ok :: bool
  close_ok :: bool
  rename_ok :: bool
  disk_room :: nat
  temp_stat :: Stat
  others :: "Disk \<Rightarrow> Disk"
  readdir :: "bytes \<Rightarrow> bytes list" \<comment> \<open>the entries of a directory, none when it cannot be opened\<close>
  is_dir :: "bytes \<Rightarrow> bool"
  strerror :: bytes

definition expand_path :: "Os \<Rightarrow> bytes \<Rightarrow> bytes" where
  "expand_path os p =
     (if p = lit ''~'' \<or> take 2 p = lit ''~/''
      then (case home os of Some h \<Rightarrow> h | None \<Rightarrow> lit ''.'') @ drop 1 p else p)"

definition absolute_path :: "Os \<Rightarrow> bytes \<Rightarrow> bytes" where
  "absolute_path os p =
     (let s = expand_path os p in
      case realpath os s of Some r \<Rightarrow> r
      | None \<Rightarrow> if take 1 s = lit ''/'' then s
          else (case getcwd os of None \<Rightarrow> s | Some cwd \<Rightarrow> cwd @ lit ''/'' @ s))"

definition base_name :: "bytes \<Rightarrow> bytes" where
  "base_name p = rev (takeWhile (\<lambda>c. c \<noteq> 47) (rev p))"

subsection \<open>Opening\<close>

text \<open>From \<open>fopen\<close> to \<open>fclose\<close>: the bytes read (none when there is no file), or the message.\<close>

definition read_file :: "Os \<Rightarrow> Disk \<Rightarrow> bytes \<Rightarrow> bytes + bytes" where
  "read_file os disk p =
     (case fopen_error os p of
        Some err \<Rightarrow> Inl (lit ''Open failed: '' @ err)
      | None \<Rightarrow>
        (case disk p of
           None \<Rightarrow> Inr []
         | Some f \<Rightarrow>
             if \<not> entry_regular f then Inl (lit ''Not a regular file'')
             else if st_size (entry_stat f) > size_max - 1 then Inl (lit ''File is too large'')
             else if length (entry_data f) < st_size (entry_stat f)
             then Inl (lit ''Read failed: '' @ strerror os)
             else Inr (take (st_size (entry_stat f)) (entry_data f))))"

text \<open>The fields a new file buffer gets.\<close>

definition file_buffer :: "Os \<Rightarrow> Disk \<Rightarrow> bytes \<Rightarrow> bool \<Rightarrow> bool \<Rightarrow> Text \<Rightarrow> Buffer \<Rightarrow> Buffer" where
  "file_buffer os disk p has_bom has_crlf t b =
     (let b = b\<lparr>buf_text := t, path := Some p, bom := has_bom, crlf := has_crlf,
                disk_known := disk p \<noteq> None\<rparr>
      in case disk p of None \<Rightarrow> b
         | Some f \<Rightarrow> b\<lparr>disk_stat := entry_stat f, readonly := \<not> writable os p\<rparr>)"

definition editor_open :: "World \<Rightarrow> Os \<Rightarrow> Disk \<Rightarrow> Editor \<Rightarrow> bytes \<Rightarrow> (Editor \<times> bool) option" where
  "editor_open w os disk e name =
     (if name = [] then Some (editor_message (lit ''No file name supplied'') e, False)
      else
        let p = absolute_path os name in
        case find_index (\<lambda>b. path b = Some p) (buffers e) of
          Some i \<Rightarrow> Some (editor_switch e i, True)
        | None \<Rightarrow>
          (case read_file os disk p of Inl m \<Rightarrow> Some (editor_message m e, False)
          | Inr s \<Rightarrow>
            (case decode_file s of
              None \<Rightarrow> Some (editor_message
                (lit ''Unsupported encoding: use UTF-8 text without NUL bytes'') e, False)
            | Some (has_bom, has_crlf, s) \<Rightarrow> do {
                (e, i) \<leftarrow> editor_new_buffer e (base_name p);
                case i of None \<Rightarrow> Some (e, False)
                | Some i \<Rightarrow> do {
                    t \<leftarrow> text_init s;
                    let e = upd_buf i (file_buffer os disk p has_bom has_crlf t) e;
                        e = editor_switch e i;
                        e = e\<lparr>panes := (panes e)[active_pane e :=
                              (panes e ! active_pane e)\<lparr>pane_top := 0, pane_left := 0\<rparr>]\<rparr>;
                        e = plugins_event w e (lit ''after_open'')
                    in Some (editor_message
                         (lit (if disk p \<noteq> None then ''Opened '' else ''New file: '') @ p) e, True) } })))"

subsection \<open>Saving\<close>

definition same_file_state :: "Stat \<Rightarrow> Stat \<Rightarrow> bool" where
  "same_file_state a b \<longleftrightarrow> st_dev a = st_dev b \<and> st_ino a = st_ino b \<and> st_size a = st_size b \<and> st_mtim a = st_mtim b"

text \<open>The check before writing: \<open>now\<close> is what is at the path.\<close>

definition refuse_save :: "Buffer \<Rightarrow> bytes \<Rightarrow> Entry option \<Rightarrow> bool" where
  "refuse_save b p now =
     (let same = (path b = Some p) in
      (same \<and> disk_known b \<and> (case now of None \<Rightarrow> True | Some f \<Rightarrow> \<not> same_file_state (disk_stat b) (entry_stat f))) \<or>
      (now \<noteq> None \<and> (\<not> same \<or> \<not> disk_known b)))"

text \<open>The check after writing: what is at the path now is what was there before.\<close>

definition changed_meanwhile :: "Entry option \<Rightarrow> Entry option \<Rightarrow> bool" where
  "changed_meanwhile now check =
     (case (now, check) of (None, None) \<Rightarrow> False
      | (Some f, Some g) \<Rightarrow> \<not> same_file_state (entry_stat f) (entry_stat g)
      | _ \<Rightarrow> True)"

text \<open>Writing the temporary file: its bytes, and whether every call succeeded.\<close>

definition write_temp :: "Os \<Rightarrow> Buffer \<Rightarrow> bytes \<times> bool" where
  "write_temp os b =
     (if fdopen_ok os
      then let (f, ok) = write_buffer b \<lparr>contents = [], room = disk_room os\<rparr>
           in (contents f, ok \<and> sync_ok os \<and> close_ok os)
      else ([], False))"

text \<open>The checks of \<open>editor_save\<close>, in order: the path to write, or the message.\<close>

definition save_check :: "Os \<Rightarrow> Disk \<Rightarrow> Buffer \<Rightarrow> bytes option \<Rightarrow> bool \<Rightarrow> bytes + bytes" where
  "save_check os disk b name force =
     (if readonly b \<and> \<not> force then Inl (lit ''Buffer is read-only'')
      else case (if name = None \<or> name = Some [] then path b else name) of
        None \<Rightarrow> Inl (lit ''Buffer has no file name; use C-x C-w'')
      | Some name \<Rightarrow>
        if name = [] then Inl (lit ''Buffer has no file name; use C-x C-w'')
        else
          let p = absolute_path os name; now = disk p in
          if \<not> force \<and> refuse_save b p now
          then Inl (lit ''Refusing to overwrite an existing or externally changed file; use M-x force-save-buffer explicitly'')
          else if (case now of None \<Rightarrow> False | Some f \<Rightarrow> \<not> entry_regular f)
          then Inl (lit ''Not a regular file'')
          else Inr p)"

text \<open>What a successful save records in the buffer.\<close>

definition mark_saved :: "bytes \<Rightarrow> Disk \<Rightarrow> Buffer \<Rightarrow> Buffer" where
  "mark_saved p disk b = b\<lparr>path := Some p, buf_name := base_name p, saved_state := buf_state b,
     disk_known := disk p \<noteq> None,
     disk_stat := (case disk p of None \<Rightarrow> disk_stat b | Some f \<Rightarrow> entry_stat f)\<rparr>"

text \<open>From \<open>mkstemp\<close> to the last event, with the buffer at index \<open>i\<close> and \<open>now\<close> what was at \<open>p\<close>.\<close>

definition save_commit :: "World \<Rightarrow> Os \<Rightarrow> Disk \<Rightarrow> Editor \<Rightarrow> nat \<Rightarrow> bytes \<Rightarrow> bool \<Rightarrow> Disk \<times> Editor \<times> bool" where
  "save_commit w os disk e i p force =
     (let b = buffers e ! i; now = disk p; error = lit ''Save failed: '' @ strerror os in
      case mkstemp os (p @ lit ''.cpymacs-XXXXXX'') of
        None \<Rightarrow> (disk, editor_message error e, False)
      | Some temp \<Rightarrow>
        let (data, ok) = write_temp os b;
            disk = others os (disk(temp \<mapsto> \<lparr>entry_stat = temp_stat os, entry_data = data, entry_regular = True\<rparr>));
            ok = (ok \<and> (force \<or> \<not> changed_meanwhile now (disk p)) \<and> rename_ok os)
        in
        if \<not> ok then (disk(temp := None), editor_message error e, False)
        else
          let disk = disk(p := disk temp, temp := None);
              changed = (path b \<noteq> Some p);
              e = upd_buf i (mark_saved p disk) e;
              e = (if changed then plugins_event w e (lit ''after_open'') else e);
              e = plugins_event w e (lit ''after_save'')
          in (disk, editor_message (lit ''Wrote '' @ p) e, True))"

definition editor_save :: "World \<Rightarrow> Os \<Rightarrow> Disk \<Rightarrow> Editor \<Rightarrow> bytes option \<Rightarrow> bool \<Rightarrow> Disk \<times> Editor \<times> bool" where
  "editor_save w os disk e name force =
     (case save_check os disk (editor_buffer e) name force of
        Inl m \<Rightarrow> (disk, editor_message m e, False)
      | Inr p \<Rightarrow>
        let i = current e; (e, go) = plugins_before_save w e in
        if go then save_commit w os disk e i p force else (disk, e, False))"

subsection \<open>What a save does\<close>

text \<open>The disk when the temporary file is written.\<close>

definition save_disk :: "Os \<Rightarrow> Disk \<Rightarrow> bytes \<Rightarrow> Buffer \<Rightarrow> Disk" where
  "save_disk os disk temp b =
     others os (disk(temp \<mapsto> \<lparr>entry_stat = temp_stat os, entry_data = fst (write_temp os b), entry_regular = True\<rparr>))"

lemma save_check_ok:
  "save_check os disk b name force = Inr p \<longleftrightarrow>
     (force \<or> \<not> readonly b \<and> \<not> refuse_save b p (disk p)) \<and>
     (case disk p of None \<Rightarrow> True | Some f \<Rightarrow> entry_regular f) \<and>
     (\<exists>n. (if name = None \<or> name = Some [] then path b else name) = Some n \<and> n \<noteq> [] \<and> p = absolute_path os n)"
  by (auto simp: save_check_def Let_def split: option.splits if_splits)

text \<open>Without plugins: a commit either replaces the file at \<open>p\<close> and records it, or changes
  neither the buffers nor any file but its own temporary one.\<close>

definition commit_goes :: "Os \<Rightarrow> Disk \<Rightarrow> Buffer \<Rightarrow> bytes \<Rightarrow> bytes \<Rightarrow> bool \<Rightarrow> bool" where
  "commit_goes os disk b p temp force \<longleftrightarrow> snd (write_temp os b) \<and>
     (force \<or> \<not> changed_meanwhile (disk p) (save_disk os disk temp b p)) \<and> rename_ok os"

lemma save_commit_cases:
  assumes "\<not> python_enabled e"
  shows "mkstemp os (p @ lit ''.cpymacs-XXXXXX'') = None \<Longrightarrow>
      save_commit w os disk e i p force = (disk, editor_message (lit ''Save failed: '' @ strerror os) e, False)"
    and "mkstemp os (p @ lit ''.cpymacs-XXXXXX'') = Some temp \<Longrightarrow>
      save_commit w os disk e i p force =
      (let d = save_disk os disk temp (buffers e ! i) in
       if commit_goes os disk (buffers e ! i) p temp force
       then let d = d(p := d temp, temp := None) in
         (d, editor_message (lit ''Wrote '' @ p) (upd_buf i (mark_saved p d) e), True)
       else (d(temp := None), editor_message (lit ''Save failed: '' @ strerror os) e, False))"
proof -
  show "save_commit w os disk e i p force = (disk, editor_message (lit ''Save failed: '' @ strerror os) e, False)"
    if "mkstemp os (p @ lit ''.cpymacs-XXXXXX'') = None"
    using that by (simp add: save_commit_def Let_def)
next
  assume m: "mkstemp os (p @ lit ''.cpymacs-XXXXXX'') = Some temp"
  obtain data good where wt: "write_temp os (buffers e ! i) = (data, good)" by fastforce
  have "plugins_event w (upd_buf i f e) n = upd_buf i f e" for f n
    using assms by (simp add: plugins_event_def)
  then show "save_commit w os disk e i p force =
      (let d = save_disk os disk temp (buffers e ! i) in
       if commit_goes os disk (buffers e ! i) p temp force
       then let d = d(p := d temp, temp := None) in
         (d, editor_message (lit ''Wrote '' @ p) (upd_buf i (mark_saved p d) e), True)
       else (d(temp := None), editor_message (lit ''Save failed: '' @ strerror os) e, False))"
    by (simp add: save_commit_def save_disk_def commit_goes_def m wt Let_def)
qed

text \<open>What the code relies on of \<open>mkstemp\<close>: it replaces the six X of its template, and no other
  process touches the file it created.\<close>

definition private_temp :: "Os \<Rightarrow> bool" where
  "private_temp os \<longleftrightarrow> (\<forall>q temp. mkstemp os q = Some temp \<longrightarrow>
     length temp = length q \<and> (\<forall>d. others os d temp = d temp))"

lemma private_tempD:
  assumes "private_temp os" "mkstemp os (p @ lit ''.cpymacs-XXXXXX'') = Some temp"
  shows "temp \<noteq> p" "others os d temp = d temp"
proof -
  have "length temp = length p + 15" using assms by (auto simp: private_temp_def)
  then show "temp \<noteq> p" by auto
  show "others os d temp = d temp" using assms by (auto simp: private_temp_def)
qed

lemma write_temp_data:
  assumes "text_inv (buf_text b)" "snd (write_temp os b)"
  shows "fst (write_temp os b) = encode (bom b) (crlf b) (content b)"
  using assms by (auto simp: write_temp_def write_buffer_put put_def split: if_splits)

text \<open>A save that succeeds went through its checks and its commit.\<close>

lemma editor_save_success:
  assumes "\<not> python_enabled e" "editor_save w os disk e name force = (disk', e', True)"
  obtains p temp d where "save_check os disk (editor_buffer e) name force = Inr p"
    "mkstemp os (p @ lit ''.cpymacs-XXXXXX'') = Some temp" "commit_goes os disk (editor_buffer e) p temp force"
    "d = save_disk os disk temp (editor_buffer e)" "disk' = d(p := d temp, temp := None)"
    "e' = editor_message (lit ''Wrote '' @ p) (upd_current (mark_saved p disk') e)"
proof -
  obtain p where p: "save_check os disk (editor_buffer e) name force = Inr p"
    using assms(2) by (auto simp: editor_save_def split: sum.splits)
  then have commit: "save_commit w os disk e (current e) p force = (disk', e', True)"
    using assms by (simp add: editor_save_def plugins_before_save_def Let_def)
  then obtain temp where t: "mkstemp os (p @ lit ''.cpymacs-XXXXXX'') = Some temp"
    using save_commit_cases(1) [OF assms(1), of os p w disk "current e" force] by fastforce
  show thesis
    using that [OF p t _ refl] commit
    unfolding save_commit_cases(2) [OF assms(1) t] editor_buffer_def [symmetric]
    by (auto simp: Let_def split: if_splits)
qed

theorem save_success:
  assumes plain: "\<not> python_enabled e" and inv: "text_inv (buf_text (editor_buffer e))"
    and cur: "current e < length (buffers e)" and temp: "private_temp os"
    and save: "editor_save w os disk e name force = (disk', e', True)"
  shows "\<exists>p f. path (editor_buffer e') = Some p \<and> disk' p = Some f \<and>
    entry_data f = encode (bom (editor_buffer e)) (crlf (editor_buffer e)) (content (editor_buffer e)) \<and>
    saved_state (editor_buffer e') = buf_state (editor_buffer e) \<and>
    buf_state (editor_buffer e') = buf_state (editor_buffer e) \<and>
    content (editor_buffer e') = content (editor_buffer e)"
proof -
  obtain p temp d where p: "mkstemp os (p @ lit ''.cpymacs-XXXXXX'') = Some temp"
    "commit_goes os disk (editor_buffer e) p temp force" "d = save_disk os disk temp (editor_buffer e)"
    "disk' = d(p := d temp, temp := None)"
    "e' = editor_message (lit ''Wrote '' @ p) (upd_current (mark_saved p disk') e)"
    using editor_save_success [OF plain save] by metis
  note T = private_tempD [OF temp p(1)]
  have "disk' p = Some \<lparr>entry_stat = temp_stat os, entry_data = fst (write_temp os (editor_buffer e)),
      entry_regular = True\<rparr>"
    using T by (simp add: p(3,4) save_disk_def)
  moreover have "fst (write_temp os (editor_buffer e)) =
      encode (bom (editor_buffer e)) (crlf (editor_buffer e)) (content (editor_buffer e))"
    using write_temp_data [OF inv] p(2) by (simp add: commit_goes_def)
  ultimately show ?thesis using cur by (simp add: p(5) mark_saved_def)
qed

theorem save_failure:
  assumes plain: "\<not> python_enabled e" and save: "editor_save w os disk e name force = (disk', e', False)"
  shows "buffers e' = buffers e \<and> current e' = current e \<and>
    (disk' = disk \<or> (\<exists>p temp. mkstemp os (p @ lit ''.cpymacs-XXXXXX'') = Some temp \<and>
       disk' = (save_disk os disk temp (editor_buffer e))(temp := None)))"
proof (cases "save_check os disk (editor_buffer e) name force")
  case (Inl m)
  with save show ?thesis by (auto simp: editor_save_def editor_message_def)
next
  case (Inr p)
  then have commit: "save_commit w os disk e (current e) p force = (disk', e', False)"
    using save plain by (simp add: editor_save_def plugins_before_save_def Let_def)
  show ?thesis
  proof (cases "mkstemp os (p @ lit ''.cpymacs-XXXXXX'')")
    case None
    with commit show ?thesis
      by (auto simp: save_commit_cases(1) [OF plain] editor_message_def)
  next
    case (Some temp)
    then have "disk' = (save_disk os disk temp (editor_buffer e))(temp := None) \<and>
        e' = editor_message (lit ''Save failed: '' @ strerror os) e"
      using commit unfolding save_commit_cases(2) [OF plain Some] editor_buffer_def [symmetric]
      by (auto simp: Let_def split: if_splits)
    with Some show ?thesis by (auto simp: editor_message_def)
  qed
qed

text \<open>A save that is not forced only replaces the version of the file it was last read or written as.\<close>

theorem save_no_lost_update:
  assumes plain: "\<not> python_enabled e" and save: "editor_save w os disk e name False = (disk', e', True)"
    and p: "path (editor_buffer e') = Some p" and cur: "current e < length (buffers e)"
  shows "\<exists>temp. mkstemp os (p @ lit ''.cpymacs-XXXXXX'') = Some temp \<and>
   (let now = save_disk os disk temp (editor_buffer e) p in
    case disk p of
      None \<Rightarrow> now = None
    | Some f \<Rightarrow> path (editor_buffer e) = Some p \<and> disk_known (editor_buffer e) \<and>
        same_file_state (disk_stat (editor_buffer e)) (entry_stat f) \<and>
        (\<exists>g. now = Some g \<and> same_file_state (entry_stat f) (entry_stat g)))"
proof -
  obtain q temp where q: "save_check os disk (editor_buffer e) name False = Inr q"
    "mkstemp os (q @ lit ''.cpymacs-XXXXXX'') = Some temp"
    "commit_goes os disk (editor_buffer e) q temp False"
    "e' = editor_message (lit ''Wrote '' @ q) (upd_current (mark_saved q disk') e)"
    using editor_save_success [OF plain save] by metis
  have "q = p" using p cur by (simp add: q(4) mark_saved_def)
  moreover have "\<not> refuse_save (editor_buffer e) q (disk q)" using q(1) by (simp add: save_check_ok)
  moreover have "\<not> changed_meanwhile (disk q) (save_disk os disk temp (editor_buffer e) q)"
    using q(3) by (simp add: commit_goes_def)
  ultimately show ?thesis
    using q(2) by (intro exI [of _ temp])
      (auto simp: Let_def refuse_save_def changed_meanwhile_def split: option.splits)
qed


subsection \<open>What opening a file does\<close>

lemma new_buffer_ok:
  assumes "ed_inv e" "length (buffers e) < CP_MAX_BUFFERS"
  shows "\<exists>t. text_inv t \<and> text_content t = [] \<and> editor_new_buffer e name =
    Some (e\<lparr>next_id := next_id e + 1, buffers := buffers e @ [blank_buffer (next_id e + 1) name t]\<rparr>,
      Some (length (buffers e)))"
proof -
  obtain t where "text_init [] = Some t" "text_inv t" "text_content t = []"
    using text_init_ok [of "[]"] by auto
  with assms(2) show ?thesis by (auto simp: editor_new_buffer_def Let_def)
qed

text \<open>The file at \<open>p\<close> can be opened into a new buffer.\<close>

definition can_open :: "Os \<Rightarrow> Disk \<Rightarrow> Editor \<Rightarrow> bytes \<Rightarrow> Entry \<Rightarrow> bool" where
  "can_open os disk e p f \<longleftrightarrow> length (buffers e) < CP_MAX_BUFFERS \<and> (\<forall>b \<in> set (buffers e). path b \<noteq> Some p) \<and>
     fopen_error os p = None \<and> disk p = Some f \<and> entry_regular f \<and>
     st_size (entry_stat f) = length (entry_data f) \<and> length (entry_data f) < size_max"

lemma editor_open_ok:
  assumes plain: "\<not> python_enabled e" and inv: "ed_inv e" and name: "name \<noteq> []"
    and op: "can_open os disk e (absolute_path os name) f"
    and dec: "decode_file (entry_data f) = Some (has_bom, has_crlf, s)"
  shows "\<exists>e' b. editor_open w os disk e name = Some (e', True) \<and> ed_inv e' \<and>
    current e' = length (buffers e) \<and> buffers e' = buffers e @ [b] \<and> python_enabled e' = python_enabled e \<and>
    content b = s \<and> bom b = has_bom \<and> crlf b = has_crlf \<and> path b = Some (absolute_path os name) \<and>
    disk_known b \<and> disk_stat b = entry_stat f \<and> readonly b = (\<not> writable os (absolute_path os name)) \<and>
    saved_state b = buf_state b \<and> point b = 0"
proof -
  define p where "p = absolute_path os name"
  have read: "read_file os disk p = Inr (entry_data f)"
    using op by (auto simp: can_open_def read_file_def simp flip: p_def)
  obtain t0 where t0: "editor_new_buffer e (base_name p) =
    Some (e\<lparr>next_id := next_id e + 1, buffers := buffers e @ [blank_buffer (next_id e + 1) (base_name p) t0]\<rparr>,
      Some (length (buffers e)))"
    using new_buffer_ok [OF inv] op by (auto simp: can_open_def)
  obtain t where t: "text_init s = Some t" "text_inv t" "text_content t = s"
    using text_init_ok [OF decode_encode_file(2) [OF dec]] by blast
  define b where "b = file_buffer os disk p has_bom has_crlf t (blank_buffer (next_id e + 1) (base_name p) t0)"
  have none: "find_index (\<lambda>b. path b = Some p) (buffers e) = None"
    using op by (simp add: find_index_None can_open_def p_def)
  have up: "upd_buf (length (buffers e)) g (e\<lparr>next_id := next_id e + 1, buffers := buffers e @ [c]\<rparr>) =
      e\<lparr>next_id := next_id e + 1, buffers := buffers e @ [g c]\<rparr>" for g c
    by (simp add: upd_buf_def)
  have "\<exists>e'. editor_open w os disk e name = Some (e', True) \<and> buffers e' = buffers e @ [b] \<and>
      current e' = length (buffers e) \<and> python_enabled e' = python_enabled e"
    using name dec t0 t(1) plain
    by (simp add: editor_open_def none read Let_def up b_def editor_switch_def editor_message_def
        plugins_event_def flip: p_def)
  moreover have "buf_inv b"
    using blank_buffer_inv [OF t(2,3)] unfolding b_def
    by (simp add: buf_inv_def history_inv_def origin_def version_def file_buffer_def blank_buffer_def
        Let_def split: option.split)
  moreover have "content b = s" "bom b = has_bom" "crlf b = has_crlf" "path b = Some p" "disk_known b"
    "disk_stat b = entry_stat f" "readonly b = (\<not> writable os p)" "saved_state b = buf_state b" "point b = 0"
    using op t(3) by (simp_all add: b_def file_buffer_def blank_buffer_def can_open_def p_def Let_def)
  ultimately show ?thesis
    using inv by (auto simp: ed_inv_def simp flip: p_def)
qed

theorem open_save_round_trip:
  assumes plain: "\<not> python_enabled e" and inv: "ed_inv e" and name: "name \<noteq> []"
    and op: "can_open os disk e (absolute_path os name) f"
    and dec: "decode_file (entry_data f) \<noteq> None" and temp: "private_temp os"
  shows "\<exists>e'. editor_open w os disk e name = Some (e', True) \<and>
    (\<forall>name' force disk' e''. editor_save w os disk e' name' force = (disk', e'', True) \<longrightarrow>
      (\<exists>q g. path (editor_buffer e'') = Some q \<and> disk' q = Some g \<and> entry_data g = entry_data f))"
proof -
  obtain has_bom has_crlf s where d: "decode_file (entry_data f) = Some (has_bom, has_crlf, s)"
    using dec by (cases "decode_file (entry_data f)") auto
  obtain e' b where e': "editor_open w os disk e name = Some (e', True)" "ed_inv e'"
    "current e' = length (buffers e)" "buffers e' = buffers e @ [b]" "python_enabled e' = python_enabled e"
    "content b = s" "bom b = has_bom" "crlf b = has_crlf"
    using editor_open_ok [OF plain inv name op d, of w] by blast
  have b: "editor_buffer e' = b" by (simp add: editor_buffer_def e'(3,4))
  have i: "text_inv (buf_text (editor_buffer e'))" using buf_invD(1) [OF ed_inv_buffer [OF e'(2)]] .
  have c: "current e' < length (buffers e')" using e'(3,4) by simp
  have "\<exists>q g. path (editor_buffer e'') = Some q \<and> disk' q = Some g \<and> entry_data g = entry_data f"
    if "editor_save w os disk e' name' force = (disk', e'', True)" for name' force disk' e''
    using save_success [OF _ i c temp that] plain e'(5-8) decode_encode_file(1) [OF d] by (auto simp: b)
  with e'(1) show ?thesis by blast
qed

subsection \<open>A sample file system\<close>

text \<open>No file yet, room on the disk, and calls that succeed.\<close>

definition sample_os :: Os where
  "sample_os = \<lparr>home = Some (lit ''/home''), realpath = (\<lambda>_. None), getcwd = Some (lit ''/tmp''),
     fopen_error = (\<lambda>_. None), writable = (\<lambda>_. True),
     mkstemp = (\<lambda>q. Some (take (length q - 6) q @ replicate (min 6 (length q)) 97)), fdopen_ok = True,
     sync_ok = True, close_ok = True, rename_ok = True, disk_room = 1000,
     temp_stat = \<lparr>st_dev = 1, st_ino = 2, st_size = 7, st_mtim = (3, 4)\<rparr>, others = (\<lambda>d. d), readdir = (\<lambda>_. []),
     is_dir = (\<lambda>_. False), strerror = []\<rparr>"

lemma sample_os_private: "private_temp sample_os"
  by (auto simp: private_temp_def sample_os_def)

lemma sample_write: "write_temp sample_os sample_buffer = (sample, True)"
proof -
  have "length (encode False False sample) \<le> 1000" "encode False False sample = sample" by code_simp+
  then show ?thesis
    using write_buffer_put [of sample_buffer] sample_ok(2)
    by (simp add: write_temp_def sample_os_def sample_buffer_simps sample_ok put_def)
qed

text \<open>Saving the sample buffer under a name that does not exist.\<close>

lemma sample_save:
  obtains disk' e' where
    "editor_save sample_world sample_os (\<lambda>_. None) sample_editor (Some (lit ''/a'')) False = (disk', e', True)"
    "path (editor_buffer e') = Some (lit ''/a'')"
proof -
  let ?p = "lit ''/a''" and ?e = sample_editor
  have p: "absolute_path sample_os ?p = ?p"
    unfolding lit_def absolute_path_def expand_path_def sample_os_def by code_simp
  have check: "save_check sample_os (\<lambda>_. None) (editor_buffer ?e) (Some ?p) False = Inr ?p"
    unfolding save_check_ok
    by (simp add: p sample_editor_simps sample_buffer_simps refuse_save_def Let_def)
  obtain temp where t: "mkstemp sample_os (?p @ lit ''.cpymacs-XXXXXX'') = Some temp"
    by (simp add: sample_os_def)
  have "commit_goes sample_os (\<lambda>_. None) sample_buffer ?p temp False"
    using private_tempD(1) [OF sample_os_private t]
    by (simp add: commit_goes_def sample_write save_disk_def changed_meanwhile_def)
      (simp add: sample_os_def)
  then show thesis
    using that save_commit_cases(2) [OF sample_editor_simps(2) t, of sample_world "\<lambda>_. None" 0 False] check
    by (auto simp: editor_save_def plugins_before_save_def Let_def sample_editor_simps mark_saved_def upd_buf_def
      editor_buffer_def)
qed

definition sample_entry :: Entry where
  "sample_entry = \<lparr>entry_stat = \<lparr>st_dev = 1, st_ino = 1, st_size = 6, st_mtim = (0, 0)\<rparr>,
     entry_data = [0xEF, 0xBB, 0xBF, 97, 13, 10], entry_regular = True\<rparr>"

subsection \<open>Properties\<close>

text \<open>Reading a file and writing it back are inverse: whatever bytes the decoder accepts (with or without a
  byte order mark, with CRLF or LF line ends), it takes to valid UTF-8 text from which the marks it
  recorded give back exactly the bytes of the file.\<close>

theorem file_bytes_round_trip:
  assumes "decode_file s = Some (has_bom, has_crlf, t)"
  shows "encode has_bom has_crlf t = s \<and> utf8_valid t"
  using decode_encode_file [OF assms] by simp

text \<open>C9 A save that reports success has written: the file at the buffer's path holds exactly the buffer's
  contents in its encoding, and the buffer's saved state is its current state.\<close>

theorem save_reports_truth:
  assumes "\<not> python_enabled e" "text_inv (buf_text (editor_buffer e))"
    and "current e < length (buffers e)" "private_temp os"
    and "editor_save w os disk e name force = (disk', e', True)"
  shows "\<exists>p f. path (editor_buffer e') = Some p \<and> disk' p = Some f \<and>
    entry_data f = encode (bom (editor_buffer e)) (crlf (editor_buffer e)) (content (editor_buffer e)) \<and>
    saved_state (editor_buffer e') = buf_state (editor_buffer e') \<and>
    content (editor_buffer e') = content (editor_buffer e)"
  using save_success [OF assms] by auto

theorem save_reports_truth_witness:
  "\<exists>disk' e' f. editor_save sample_world sample_os (\<lambda>_. None) sample_editor (Some (lit ''/a'')) False =
      (disk', e', True) \<and> disk' (lit ''/a'') = Some f \<and> entry_data f = sample"
proof -
  obtain disk' e' where s:
    "editor_save sample_world sample_os (\<lambda>_. None) sample_editor (Some (lit ''/a'')) False = (disk', e', True)"
    "path (editor_buffer e') = Some (lit ''/a'')" by (rule sample_save)
  have "encode False False sample = sample" by code_simp
  then show ?thesis
    using save_reports_truth [OF sample_editor_simps(2) _ _ sample_os_private s(1)] s sample_ok
    by (auto simp: sample_editor_simps sample_buffer_simps)
qed





text \<open>C11 Opening a file and saving it without an edit leaves its bytes as they were: opening succeeds, and every
  save of that buffer that succeeds, under any name, writes the bytes that were read.\<close>

theorem open_then_save:
  assumes "\<not> python_enabled e" "ed_inv e" "name \<noteq> []"
    and "can_open os disk e (absolute_path os name) f"
    and "decode_file (entry_data f) \<noteq> None" "private_temp os"
  shows "\<exists>e'. editor_open w os disk e name = Some (e', True) \<and>
    (\<forall>name' force disk' e''. editor_save w os disk e' name' force = (disk', e'', True) \<longrightarrow>
      (\<exists>q g. path (editor_buffer e'') = Some q \<and> disk' q = Some g \<and> entry_data g = entry_data f))"
  using assms by (rule open_save_round_trip)

theorem open_then_save_witness:
  "\<exists>e'. editor_open sample_world sample_os (\<lambda>_. Some sample_entry) sample_editor (lit ''/a'') = Some (e', True)"
proof -
  have "decode_file (entry_data sample_entry) \<noteq> None" by code_simp
  moreover have "can_open sample_os (\<lambda>_. Some sample_entry) sample_editor p sample_entry" for p
    by (simp add: can_open_def sample_editor_simps sample_buffer_simps sample_entry_def CP_MAX_BUFFERS_def size_max_def)
      (simp add: sample_os_def)
  ultimately have "\<exists>e'. editor_open sample_world sample_os (\<lambda>_. Some sample_entry) sample_editor (lit ''/a'') =
      Some (e', True) \<and> True"
    using open_then_save [OF sample_editor_simps(2) sample_editor_inv, of "lit ''/a''" sample_os
      "\<lambda>_. Some sample_entry" sample_entry sample_world] sample_os_private by (simp only: lit_Nil) blast
  then show ?thesis by simp
qed

end
