(* ===== verification/Prompts.thy ===== *)
theory Prompts
  imports Edit_Commands Search Files
begin

section \<open>Prompts, minibuffer input and incremental search (\<open>src/commands.c\<close>)\<close>

subsection \<open>Opening and closing a prompt\<close>

text \<open>\<open>snprintf\<close> cuts a string to the size of its field.\<close>

definition prompt :: "bytes \<Rightarrow> bytes \<Rightarrow> bytes \<Rightarrow> Editor \<Rightarrow> Editor" where
  "prompt label cmd initial e = e\<lparr>prompt_label := take 99 label, prompt_command := take 99 cmd,
     input := take (CP_PROMPT_MAX - 1) initial, input_point := length (take (CP_PROMPT_MAX - 1) initial)\<rparr>"

definition prompt_clear :: "Editor \<Rightarrow> Editor" where
  "prompt_clear e = e\<lparr>prompt_label := [], prompt_command := [], input := [], input_point := 0\<rparr>"

definition changed_buffers :: "Editor \<Rightarrow> bool" where
  "changed_buffers e \<longleftrightarrow> list_ex (\<lambda>b. buf_state b \<noteq> saved_state b) (buffers e)"

text \<open>The loops that look for a buffer by name and keep the last one.\<close>

definition last_index :: "('a \<Rightarrow> bool) \<Rightarrow> 'a list \<Rightarrow> nat option" where
  "last_index p xs = (case find_index p (rev xs) of None \<Rightarrow> None | Some k \<Rightarrow> Some (length xs - 1 - k))"

definition buffer_named :: "bytes \<Rightarrow> Editor \<Rightarrow> nat option" where
  "buffer_named name e = last_index (\<lambda>b. buf_name b = name) (buffers e)"

definition show_text :: "World \<Rightarrow> bytes \<Rightarrow> bytes \<Rightarrow> Editor \<Rightarrow> Editor option" where
  "show_text w name s e = do {
     (e, i) \<leftarrow> (case buffer_named name e of Some i \<Rightarrow> Some (e, Some i) | None \<Rightarrow> editor_new_buffer e name);
     case i of None \<Rightarrow> Some e
     | Some i \<Rightarrow> do {
         let e = upd_buf i (\<lambda>b. b\<lparr>readonly := False\<rparr>) (editor_switch e i);
         (e, _) \<leftarrow> editor_set_text w e s;
         Some (upd_buf i (\<lambda>b. b\<lparr>point := 0, saved_state := buf_state b, readonly := True\<rparr>) e) } }"

subsection \<open>Query replace\<close>

definition query_next :: "Editor \<Rightarrow> Editor option" where
  "query_next e = do {
     let b = editor_buffer e;
     at \<leftarrow> editor_find (buf_text b) (replace_from e) (point b) False;
     if at = size_max
     then Some (editor_message (lit ''Query replace finished'') (prompt_clear e))
     else Some (prompt (lit ''Replace? y/n/!/q: '') (lit ''query-step'') []
       (upd_current (\<lambda>b. b\<lparr>point := at + length (replace_from e), mark := at, has_mark := True,
          mark_active := True\<rparr>) (e\<lparr>replace_at := at\<rparr>))) }"

text \<open>One pass of the \<open>do\<close> loop of \<open>query-step\<close>: replace the match and look for the next.\<close>

definition query_replace_one :: "World \<Rightarrow> Editor \<Rightarrow> (Editor \<times> bool) option" where
  "query_replace_one w e = do {
     (e, ok) \<leftarrow> editor_replace w (e\<lparr>group := group e + 1\<rparr>) (replace_at e) (length (replace_from e)) (replace_to e);
     if \<not> ok then Some (prompt_clear e, False)
     else do {
       e \<leftarrow> query_next (upd_current (\<lambda>b. b\<lparr>point := replace_at e + length (replace_to e)\<rparr>) e);
       Some (e, True) } }"

text \<open>The whole loop, for \<open>!\<close>. Plugins that react to the edits could keep it running: \<open>None\<close>.\<close>

partial_function (option) query_replace_all :: "World \<Rightarrow> Editor \<Rightarrow> (Editor \<times> bool) option" where
  "query_replace_all w e = do {
     (e, ok) \<leftarrow> query_replace_one w e;
     if ok \<and> prompt_command e \<noteq> [] then query_replace_all w e else Some (e, ok) }"

subsection \<open>The input line\<close>

text \<open>Both loops step over continuation bytes; the byte at the end of the string is the NUL.\<close>

fun str_prev :: "bytes \<Rightarrow> nat \<Rightarrow> nat" where
  "str_prev s 0 = 0"
| "str_prev s (Suc i) = (if i \<noteq> 0 \<and> is_cont (s ! i) then str_prev s i else i)"

function str_skip :: "bytes \<Rightarrow> nat \<Rightarrow> nat" where
  "str_skip s i = (if i < length s \<and> is_cont (s ! i) then str_skip s (i + 1) else i)"
  by pat_completeness auto
termination
  by (relation "measure (\<lambda>(s, i). length s - i)") auto

declare str_skip.simps [simp del]

definition str_next :: "bytes \<Rightarrow> nat \<Rightarrow> nat" where
  "str_next s i = (if i < length s then str_skip s (i + 1) else i)"

definition input_insert :: "bytes \<Rightarrow> Editor \<Rightarrow> Editor \<times> bool" where
  "input_insert s e =
     (if length s \<ge> CP_PROMPT_MAX - length (input e)
      then (editor_message (lit ''Minibuffer input too long'') e, False)
      else (e\<lparr>input := take (input_point e) (input e) @ s @ drop (input_point e) (input e),
              input_point := input_point e + length s\<rparr>, True))"

subsection \<open>Incremental search\<close>

definition search_label :: "bool \<Rightarrow> bool \<Rightarrow> bool \<Rightarrow> bytes" where
  "search_label failed wrapped backward =
     (if failed then lit ''Failing '' else if wrapped then lit ''Wrapped '' else []) @ lit ''I-search'' @
     (if backward then lit '' backward'' else []) @ lit '': ''"

definition search_update :: "bool \<Rightarrow> Editor \<Rightarrow> Editor option" where
  "search_update repeat e =
     (if input e = [] then Some e
      else do {
        let b = editor_buffer e;
        let len = length (input e);
        let start = (if repeat then point b else search_origin e);
        let start = (if repeat \<and> search_backward e \<and> start \<ge> len then start - len else start);
        at \<leftarrow> editor_find (buf_text b) (input e) start (search_backward e);
        (at, e) \<leftarrow> (if at = size_max \<and> repeat then do {
            at \<leftarrow> editor_find (buf_text b) (input e)
              (if search_backward e then text_size (buf_text b) else 0) (search_backward e);
            Some (at, e\<lparr>search_wrapped := True\<rparr>) } else Some (at, e));
        let e = e\<lparr>search_failed := (at = size_max)\<rparr>;
        let e = (if \<not> search_failed e
          then (upd_current (\<lambda>b. b\<lparr>point := (if search_backward e then at else at + len)\<rparr>) e)\<lparr>search_good := input e\<rparr>
          else e);
        Some (e\<lparr>prompt_label := search_label (search_failed e) (search_wrapped e) (search_backward e)\<rparr>) })"

subsection \<open>Completion\<close>

definition home_path :: "Os \<Rightarrow> bytes \<Rightarrow> bytes" where
  "home_path os p = take (2 * CP_PROMPT_MAX - 1)
     (if p = lit ''~'' \<or> take 2 p = lit ''~/''
      then (case home os of Some h \<Rightarrow> h | None \<Rightarrow> lit ''.'') @ drop 1 p else p)"

text \<open>The part of the input up to its last slash.\<close>

definition input_directory :: "bytes \<Rightarrow> bytes" where
  "input_directory s = rev (dropWhile (\<lambda>c. c \<noteq> 47) (rev s))"

definition file_candidates :: "Os \<Rightarrow> bytes \<Rightarrow> bytes list" where
  "file_candidates os s =
     (let pre = input_directory s; dir = home_path os (if pre \<noteq> [] then pre else lit ''.'') in
      map (\<lambda>n. take (2 * CP_PROMPT_MAX - 1)
             (pre @ n @ (if is_dir os (take (3 * CP_PROMPT_MAX - 1) (dir @ lit ''/'' @ n)) then lit ''/'' else [])))
        (filter (\<lambda>n. n \<noteq> lit ''.'' \<and> n \<noteq> lit ''..'') (readdir os dir)))"

definition candidates :: "World \<Rightarrow> Os \<Rightarrow> Editor \<Rightarrow> bytes list option" where
  "candidates w os e =
     (let cmd = prompt_command e in
      if cmd = lit ''execute-extended-command'' then Some (editor_command_names w e)
      else if cmd = lit ''switch-to-buffer'' \<or> cmd = lit ''kill-buffer''
      then Some (filter (\<lambda>n. n \<noteq> []) (map buf_name (buffers e)))
      else if cmd = lit ''find-file'' \<or> cmd = lit ''write-file'' then Some (file_candidates os (input e))
      else None)"

fun common_len :: "bytes \<Rightarrow> bytes \<Rightarrow> nat" where
  "common_len (x # xs) (y # ys) = (if x = y then Suc (common_len xs ys) else 0)"
| "common_len _ _ = 0"

text \<open>The loop over the matching names: the first one, the length of the common prefix, the list shown.\<close>

fun completion :: "bytes list \<Rightarrow> bytes option \<Rightarrow> nat \<Rightarrow> bytes \<Rightarrow> bytes option \<times> nat \<times> bytes" where
  "completion [] f common choices = (f, common, choices)"
| "completion (s # ss) f common choices =
     (let (f, common) = (case f of None \<Rightarrow> (Some s, length s)
                         | Some x \<Rightarrow> (Some x, common_len (take common x) s))
      in completion ss f common
           (if length choices + length s + 3 < 1800 then choices @ s @ lit ''  '' else choices))"

definition complete_input :: "World \<Rightarrow> Os \<Rightarrow> Editor \<Rightarrow> Editor" where
  "complete_input w os e =
     (case candidates w os e of
        None \<Rightarrow> editor_message (lit ''No completion source for this prompt'') e
      | Some names \<Rightarrow>
        (case completion (filter (\<lambda>s. take (length (input e)) s = input e) names) None 0 [] of
           (None, _, _) \<Rightarrow> editor_message (lit ''No completions'') e
         | (Some f, common, choices) \<Rightarrow>
             let common = (if common \<ge> CP_PROMPT_MAX then CP_PROMPT_MAX - 1 else common) in
             editor_message choices (e\<lparr>input := take common f, input_point := common\<rparr>)))"

end
