(* ===== verification/Commands.thy ===== *)
theory Commands
  imports Prompts
begin

section \<open>The command dispatcher (\<open>dispatch\<close> and \<open>editor_command\<close> in \<open>src/commands.c\<close>)\<close>

text \<open>
  Commands that touch files also change the disk, so a command takes and returns a
  \<open>sys\<close>: the disk and the editor. The branches of \<open>dispatch\<close> are grouped in the order of the
  code; a group answers \<open>None\<close> for a name it does not know. Two branches run further
  commands or keys: they call \<open>rec_command\<close> and \<open>rec_key\<close>, which the theory of keys ties to
  \<open>editor_command\<close> and \<open>editor_key\<close>.
\<close>

type_synonym sys = "Disk \<times> Editor"
type_synonym sys_result = "(sys \<times> bool) option"

definition on_disk :: "Disk \<Rightarrow> result \<Rightarrow> sys_result" where
  "on_disk d r = map_option (\<lambda>(e, ok). ((d, e), ok)) r"

definition moved :: "Editor option \<Rightarrow> result" where
  "moved r = map_option (\<lambda>e. (e, True)) r"

subsection \<open>Windows\<close>

definition cmd_split :: "nat \<Rightarrow> bool \<Rightarrow> Editor \<Rightarrow> result" where
  "cmd_split i side_by_side e =
     (if length (panes e) \<ge> CP_MAX_PANES then refuse ''Window limit reached'' e
      else
        let e = upd_pane (active_pane e) (\<lambda>p. p\<lparr>pane_point := point (buf_of e i)\<rparr>) e in
        done_ok (e\<lparr>panes := panes e @ [panes e ! active_pane e], split_vertical := side_by_side\<rparr>))"

definition cmd_other_window :: "nat \<Rightarrow> int \<Rightarrow> Editor \<Rightarrow> Editor" where
  "cmd_other_window i count e =
     (let e = upd_pane (active_pane e) (\<lambda>p. p\<lparr>pane_point := point (buf_of e i)\<rparr>) e;
          n = nat ((int (active_pane e) + count) mod int (length (panes e)));
          e = e\<lparr>active_pane := n\<rparr>
      in case editor_by_id e (pane_buffer (panes e ! n)) of
        None \<Rightarrow> e
      | Some q \<Rightarrow>
          let e = editor_switch e q; size = text_size (buf_text (buf_of e q)); p = pane_point (panes e ! n)
          in set_point q (if p > size then size else p) e)"

definition cmd_delete_other_windows :: "Editor \<Rightarrow> Editor" where
  "cmd_delete_other_windows e = e\<lparr>panes := [panes e ! active_pane e], active_pane := 0\<rparr>"

definition cmd_delete_window :: "Editor \<Rightarrow> result" where
  "cmd_delete_window e =
     (if length (panes e) = 1 then refuse ''Cannot delete the sole window'' e
      else
        let e = e\<lparr>panes := remove_index (active_pane e) (panes e)\<rparr>;
            e = (if active_pane e \<ge> length (panes e) then e\<lparr>active_pane := 0\<rparr> else e)
        in done_ok (case editor_by_id e (pane_buffer (panes e ! active_pane e)) of
             None \<Rightarrow> e | Some q \<Rightarrow> editor_switch e q))"

subsection \<open>Buffers\<close>

definition cmd_switch_buffer :: "World \<Rightarrow> bytes option \<Rightarrow> Editor \<Rightarrow> result" where
  "cmd_switch_buffer w arg e =
     (case arg of
        None \<Rightarrow> done_ok (prompt (lit ''Switch to buffer: '') (lit ''switch-to-buffer'') [] e)
      | Some name \<Rightarrow>
        if name = [] \<and> length (buffers e) > 1
        then done_ok (editor_switch e ((current e + 1) mod length (buffers e)))
        else case find_index (\<lambda>b. buf_name b = name) (buffers e) of
          Some k \<Rightarrow> done_ok (editor_switch e k)
        | None \<Rightarrow> do {
            (e, k) \<leftarrow> editor_new_buffer e (if name \<noteq> [] then name else lit ''*scratch*'');
            case k of None \<Rightarrow> Some (e, False)
            | Some k \<Rightarrow> done_ok (plugins_event w (editor_switch e k) (lit ''after_open'')) })"

definition cmd_next_buffer :: "int \<Rightarrow> Editor \<Rightarrow> Editor" where
  "cmd_next_buffer n e =
     editor_switch e (nat ((int (current e) + n) mod int (length (buffers e))))"

definition cmd_kill_buffer :: "nat \<Rightarrow> bytes option \<Rightarrow> Editor \<Rightarrow> result" where
  "cmd_kill_buffer i arg e =
     (case arg of
        None \<Rightarrow> done_ok (prompt (lit ''Kill buffer: '') (lit ''kill-buffer'') (buf_name (buf_of e i)) e)
      | Some name \<Rightarrow>
        (case buffer_named name e of
           None \<Rightarrow> refuse ''No such buffer'' e
         | Some k \<Rightarrow>
             if buf_state (buf_of e k) \<noteq> saved_state (buf_of e k)
             then done_ok (prompt (lit ''Kill modified buffer? y/n: '') (lit ''kill-confirm'') []
                    (e\<lparr>pending_buffer := buf_id (buf_of e k)\<rparr>))
             else map_option (\<lambda>e. (e, True)) (editor_drop_buffer e k)))"

text \<open>\<open>%4d\<close>, \<open>%-16s\<close> and \<open>%.100s\<close>.\<close>

definition pad_left :: "nat \<Rightarrow> bytes \<Rightarrow> bytes" where
  "pad_left n s = replicate (n - length s) 32 @ s"

definition pad_right :: "nat \<Rightarrow> bytes \<Rightarrow> bytes" where
  "pad_right n s = s @ replicate (n - length s) 32"

definition buffer_row :: "Buffer \<Rightarrow> bytes" where
  "buffer_row b = (if buf_name b = [] then []
     else pad_left 4 (show_int (buf_id b)) @ lit ''  '' @ lit (if buf_state b \<noteq> saved_state b then ''*'' else '' '') @
       lit ''  '' @ show_nat (text_size (buf_text b)) @ lit ''  '' @ buf_mode b @ lit ''  '' @
       take 100 (buf_name b) @ lit ''  '' @ take 200 (case path b of Some p \<Rightarrow> p | None \<Rightarrow> []) @ [10])"

definition cmd_list_buffers :: "World \<Rightarrow> Editor \<Rightarrow> result" where
  "cmd_list_buffers w e = moved (show_text w (lit ''*Buffer List*'')
     (lit ''Buffers'' @ [10, 10] @ lit ''  ID  Modified  Bytes  Mode  Name  File'' @ [10] @
      concat (map buffer_row (buffers e))) e)"

subsection \<open>Help\<close>

text \<open>
  \<open>n+=snprintf(out+n,cap-n,...)\<close>: a line is cut at the end of the buffer but counted in full,
  and once \<open>n\<close> has passed \<open>cap\<close> the size given to the next call wraps around and it writes
  past the end: \<open>None\<close>.
\<close>

fun print_lines :: "nat \<Rightarrow> bytes \<Rightarrow> nat \<Rightarrow> bytes list \<Rightarrow> bytes option" where
  "print_lines cap out n [] = Some out"
| "print_lines cap out n (l # ls) =
     (if n > cap then None
      else print_lines cap (if n < cap then take (cap - 1) (out @ l) else out) (n + length l) ls)"

definition binding_row :: "Binding \<Rightarrow> bytes" where
  "binding_row k = pad_right 16 (bind_key k) @ lit '' '' @ pad_right 45 (bind_command k) @ lit '' '' @ bind_mode k @ [10]"

definition bindings_text :: "Binding list \<Rightarrow> bytes option" where
  "bindings_text bs =
     print_lines (128 + length bs * 220) [] 0 ((lit ''Key bindings'' @ [10, 10]) # map binding_row bs)"

definition cmd_describe_bindings :: "World \<Rightarrow> Editor \<Rightarrow> result" where
  "cmd_describe_bindings w e = do {
     s \<leftarrow> bindings_text (bindings e);
     moved (show_text w (lit ''*Help*'') s e) }"

definition cmd_describe_mode :: "nat \<Rightarrow> Editor \<Rightarrow> Editor" where
  "cmd_describe_mode i e = (let b = buf_of e i in
     editor_message (buf_mode b @ lit '' | TAB: '' @ show_int (int (indent_width b)) @ lit '' spaces | auto-indent: '' @
       lit (if auto_indent b then ''on'' else ''off'') @ lit '' | syntax: '' @ syntax_name (buf_syntax b)) e)"

subsection \<open>Going to a position\<close>

definition digits_value :: "bytes \<Rightarrow> nat" where
  "digits_value s = foldl (\<lambda>n c. n * 10 + unat (c - 48)) 0 s"

text \<open>\<open>strtol\<close> followed by the check that the whole argument was a number of at least 1.\<close>

definition parse_positive :: "bytes \<Rightarrow> nat option" where
  "parse_positive s =
     (let s = dropWhile is_space s;
          (neg, s) = (if take 1 s = [45] then (True, drop 1 s)
                      else if take 1 s = [43] then (False, drop 1 s) else (False, s))
      in if s = [] \<or> \<not> list_all is_digit s \<or> neg then None
         else let v = digits_value s in if v < 1 \<or> v > 2 ^ 63 - 1 then None else Some v)"

definition cmd_goto :: "nat \<Rightarrow> bool \<Rightarrow> bytes option \<Rightarrow> int \<Rightarrow> bool \<Rightarrow> Editor \<Rightarrow> result" where
  "cmd_goto i line arg count explicit e =
     (let t = buf_text (buf_of e i);
          go = (\<lambda>v. let v = nat (if v > 0 then v - 1 else 0) in
                 done_ok (set_point i (if line then text_line_start t v else text_char_to_byte t v) e))
      in case arg of
        None \<Rightarrow> if \<not> explicit
          then done_ok (prompt (lit (if line then ''Goto line: '' else ''Goto char: ''))
                 (lit (if line then ''goto-line'' else ''goto-char'')) [] e)
          else go count
      | Some a \<Rightarrow> (case parse_positive a of
          None \<Rightarrow> refuse ''Expected a positive integer'' e
        | Some v \<Rightarrow> go (int v)))"

definition cmd_isearch :: "nat \<Rightarrow> bool \<Rightarrow> bytes option \<Rightarrow> Editor \<Rightarrow> Editor" where
  "cmd_isearch i backward arg e =
     prompt (lit (if backward then ''I-search backward: '' else ''I-search: ''))
       (lit (if backward then ''isearch-backward'' else ''isearch-forward''))
       (case arg of Some a \<Rightarrow> a | None \<Rightarrow> [])
       (e\<lparr>search_origin := point (buf_of e i), search_backward := backward, search_failed := False,
          search_wrapped := False, search_good := []\<rparr>)"

subsection \<open>Settings and macros\<close>

definition cmd_quit_prompt :: "nat \<Rightarrow> Editor \<Rightarrow> Editor" where
  "cmd_quit_prompt i e =
     (let e = (if take 8 (prompt_command e) = lit ''isearch-'' then set_point i (search_origin e) e else e);
          e = (prompt_clear e)\<lparr>key_prefix := [], prefix_set := False\<rparr>;
          e = upd_buf i (\<lambda>b. b\<lparr>mark_active := False\<rparr>) e
      in editor_message (lit ''Quit'') (e\<lparr>macro_recording := False\<rparr>))"

definition cmd_text_scale :: "int \<Rightarrow> Editor \<Rightarrow> Editor" where
  "cmd_text_scale n e =
     (let f = font_size e + n; f = (if f < 8 then 8 else f); f = (if f > 48 then 48 else f)
      in e\<lparr>font_size := f\<rparr>)"

definition cmd_start_macro :: "Editor \<Rightarrow> Editor" where
  "cmd_start_macro e = editor_message (lit ''Defining keyboard macro'') (e\<lparr>macro_keys := [], macro_recording := True\<rparr>)"

definition cmd_end_macro :: "Editor \<Rightarrow> Editor" where
  "cmd_end_macro e =
     (let e = e\<lparr>macro_recording := False\<rparr>;
          e = (if length (macro_keys e) \<ge> 2 then e\<lparr>macro_keys := butlast (butlast (macro_keys e))\<rparr> else e)
      in editor_message (lit ''Keyboard macro defined'') e)"

text \<open>The inner loop of \<open>call-last-kbd-macro\<close>: at most \<open>n\<close> keys, the length of the macro, which
  does not grow while it plays.\<close>

fun play_keys :: "(bytes \<Rightarrow> sys \<Rightarrow> sys_result) \<Rightarrow> nat \<Rightarrow> nat \<Rightarrow> sys \<Rightarrow> sys option" where
  "play_keys rec_key k 0 s = Some s"
| "play_keys rec_key k (Suc n) s =
     (if k < length (macro_keys (snd s)) then do {
        (s, _) \<leftarrow> rec_key (macro_keys (snd s) ! k) s;
        play_keys rec_key (k + 1) n s }
      else Some s)"

fun play_macro :: "(bytes \<Rightarrow> sys \<Rightarrow> sys_result) \<Rightarrow> nat \<Rightarrow> sys \<Rightarrow> sys option" where
  "play_macro rec_key 0 s = Some s"
| "play_macro rec_key (Suc n) s = do {
     s \<leftarrow> play_keys rec_key 0 (length (macro_keys (snd s))) s;
     play_macro rec_key n s }"

definition cmd_call_macro :: "(bytes \<Rightarrow> sys \<Rightarrow> sys_result) \<Rightarrow> int \<Rightarrow> sys \<Rightarrow> sys_result" where
  "cmd_call_macro rec_key count s =
     (let (d, e) = s in
      if macro_playing e \<or> macro_recording e then on_disk d (refuse ''Recursive macro rejected'' e)
      else do {
        (d, e) \<leftarrow> play_macro rec_key (nat count) (d, e\<lparr>macro_playing := True\<rparr>);
        Some ((d, e\<lparr>macro_playing := False\<rparr>), True) })"

subsection \<open>The groups of \<open>dispatch\<close>\<close>

text \<open>\<open>i\<close> is the index of the buffer \<open>b\<close>, \<open>pk\<close> the kind of the previous command.\<close>

definition motion_command :: "World \<Rightarrow> nat \<Rightarrow> bytes \<Rightarrow> int \<Rightarrow> bool \<Rightarrow> Editor \<Rightarrow> result option" where
  "motion_command w i cmd count explicit e =
     (if cmd = lit ''keyboard-quit'' then Some (done_ok (cmd_quit_prompt i e))
      else if cmd = lit ''forward-char'' then Some (done_ok (cmd_char i count e))
      else if cmd = lit ''backward-char'' then Some (done_ok (cmd_char i (- count) e))
      else if cmd = lit ''forward-word'' then Some (done_ok (cmd_word w i count e))
      else if cmd = lit ''backward-word'' then Some (done_ok (cmd_word w i (- count) e))
      else if cmd = lit ''beginning-of-line'' then Some (done_ok (cmd_line_edge i False count e))
      else if cmd = lit ''end-of-line'' then Some (done_ok (cmd_line_edge i True count e))
      else if cmd = lit ''beginning-of-buffer'' then Some (done_ok (cmd_buffer_edge i True count explicit e))
      else if cmd = lit ''end-of-buffer'' then Some (done_ok (cmd_buffer_edge i False count explicit e))
      else if cmd = lit ''next-line'' then Some (moved (cmd_line w i count e))
      else if cmd = lit ''previous-line'' then Some (moved (cmd_line w i (- count) e))
      else if cmd = lit ''scroll-up-command'' then Some (moved (cmd_scroll w i False count explicit e))
      else if cmd = lit ''scroll-down-command'' then Some (moved (cmd_scroll w i True count explicit e))
      else if cmd = lit ''recenter-top-bottom'' then Some (done_ok (cmd_recenter i e))
      else None)"

definition edit_command :: "World \<Rightarrow> nat \<Rightarrow> nat \<Rightarrow> bytes \<Rightarrow> int \<Rightarrow> bool \<Rightarrow> Editor \<Rightarrow> result option" where
  "edit_command w i pk cmd count explicit e =
     (if cmd = lit ''newline'' then Some (cmd_newline w i (auto_indent (buf_of e i)) False count e)
      else if cmd = lit ''newline-and-indent'' then Some (cmd_newline w i True False count e)
      else if cmd = lit ''open-line'' then Some (cmd_newline w i False True count e)
      else if cmd = lit ''indent-for-tab-command'' then Some (cmd_indent w i count e)
      else if cmd = lit ''delete-char'' then Some (cmd_delete_char w i True count explicit pk e)
      else if cmd = lit ''backward-delete-char-untabify'' then Some (cmd_delete_char w i False count explicit pk e)
      else if cmd = lit ''set-mark-command'' then Some (done_ok (cmd_set_mark i explicit e))
      else if cmd = lit ''mark-whole-buffer'' then Some (done_ok (cmd_mark_whole i e))
      else if cmd = lit ''exchange-point-and-mark'' then Some (cmd_exchange i e)
      else if cmd = lit ''kill-region'' then Some (cmd_kill_region w i False pk e)
      else if cmd = lit ''copy-region-as-kill'' then Some (cmd_kill_region w i True pk e)
      else if cmd = lit ''kill-line'' then Some (cmd_kill_line w i count explicit pk e)
      else if cmd = lit ''kill-word'' then Some (cmd_kill_word w i count pk e)
      else if cmd = lit ''backward-kill-word'' then Some (cmd_kill_word w i (- count) pk e)
      else if cmd = lit ''yank'' then Some (cmd_yank w i count explicit e)
      else if cmd = lit ''yank-pop'' then Some (cmd_yank_pop w i count pk e)
      else if cmd = lit ''undo'' \<or> cmd = lit ''undo-only'' then Some (undo w (e\<lparr>last_kind := 3\<rparr>) False count)
      else if cmd = lit ''redo'' \<or> cmd = lit ''undo-redo'' then Some (undo w (e\<lparr>last_kind := 3\<rparr>) True count)
      else if cmd = lit ''transpose-chars'' then Some (cmd_transpose w i count e)
      else if cmd = lit ''delete-horizontal-space'' then Some (cmd_delete_space w i e)
      else if cmd = lit ''upcase-word'' then Some (cmd_case_word w i True False count e)
      else if cmd = lit ''downcase-word'' then Some (cmd_case_word w i False False count e)
      else if cmd = lit ''capitalize-word'' then Some (cmd_case_word w i False True count e)
      else None)"

definition file_command :: "World \<Rightarrow> Os \<Rightarrow> nat \<Rightarrow> bytes \<Rightarrow> bytes option \<Rightarrow> sys \<Rightarrow> sys_result option" where
  "file_command w os i cmd arg s =
     (let (d, e) = s; b = buf_of e i; ask = (\<lambda>label c initial. Some (on_disk d (done_ok (prompt (lit label) c initial e)))) in
      if cmd = lit ''find-file'' then
        (case arg of None \<Rightarrow> ask ''Find file: '' cmd []
         | Some name \<Rightarrow> Some (on_disk d (editor_open w os d e name)))
      else if cmd = lit ''save-buffer'' \<or> cmd = lit ''force-save-buffer'' \<or> cmd = lit ''write-file'' then
        (if cmd = lit ''write-file'' \<and> arg = None
         then ask ''Write file: '' cmd (case path b of Some p \<Rightarrow> p | None \<Rightarrow> [])
         else if arg = None \<and> path b = None then ask ''File to save in: '' (lit ''write-file'') []
         else Some (let (d, e, ok) = editor_save w os d e arg (cmd = lit ''force-save-buffer'') in Some ((d, e), ok)))
      else None)"

definition session_command :: "World \<Rightarrow> nat \<Rightarrow> bytes \<Rightarrow> bytes option \<Rightarrow> int \<Rightarrow> bool \<Rightarrow> Editor \<Rightarrow> result option" where
  "session_command w i cmd arg count explicit e =
     (if cmd = lit ''save-buffers-kill-terminal'' then Some (done_ok (if changed_buffers e
        then prompt (lit ''Modified buffers exist. Save all (s), discard (y), cancel (n): '') (lit ''quit-confirm'') [] e
        else e\<lparr>quit := True\<rparr>))
      else if cmd = lit ''kill-emacs'' then Some (done_ok (e\<lparr>quit := True\<rparr>))
      else if cmd = lit ''detach-client'' then Some (done_ok (e\<lparr>detach := True\<rparr>))
      else if cmd = lit ''goto-line'' then Some (cmd_goto i True arg count explicit e)
      else if cmd = lit ''goto-char'' then Some (cmd_goto i False arg count explicit e)
      else if cmd = lit ''isearch-forward'' then Some (done_ok (cmd_isearch i False arg e))
      else if cmd = lit ''isearch-backward'' then Some (done_ok (cmd_isearch i True arg e))
      else if cmd = lit ''query-replace'' \<or> cmd = lit ''replace-string'' then Some
        (if arg = None
         then done_ok (if cmd = lit ''query-replace'' then prompt (lit ''Query replace: '') (lit ''query-from'') [] e
                       else prompt (lit ''Replace string: '') (lit ''replace-from'') [] e)
         else refuse ''Use interactive M-% or the replace protocol operation'' e)
      else if cmd = lit ''switch-to-buffer'' then Some (cmd_switch_buffer w arg e)
      else if cmd = lit ''next-buffer'' then Some (done_ok (cmd_next_buffer count e))
      else if cmd = lit ''previous-buffer'' then Some (done_ok (cmd_next_buffer (- count) e))
      else if cmd = lit ''kill-buffer'' then Some (cmd_kill_buffer i arg e)
      else if cmd = lit ''list-buffers'' then Some (cmd_list_buffers w e)
      else if cmd = lit ''split-window-below'' then Some (cmd_split i False e)
      else if cmd = lit ''split-window-right'' then Some (cmd_split i True e)
      else if cmd = lit ''other-window'' then Some (done_ok (cmd_other_window i count e))
      else if cmd = lit ''delete-other-windows'' then Some (done_ok (cmd_delete_other_windows e))
      else if cmd = lit ''delete-window'' then Some (cmd_delete_window e)
      else None)"

definition setting_command :: "World \<Rightarrow> nat \<Rightarrow> bytes \<Rightarrow> int \<Rightarrow> Editor \<Rightarrow> result option" where
  "setting_command w i cmd count e =
     (if cmd = lit ''display-line-numbers-mode'' then Some (done_ok (e\<lparr>show_line_numbers := \<not> show_line_numbers e\<rparr>))
      else if cmd = lit ''toggle-read-only'' then Some (done_ok (upd_buf i (\<lambda>b. b\<lparr>readonly := \<not> readonly b\<rparr>) e))
      else if cmd = lit ''text-scale-increase'' then Some (done_ok (cmd_text_scale count e))
      else if cmd = lit ''text-scale-decrease'' then Some (done_ok (cmd_text_scale (- count) e))
      else if cmd = lit ''start-kbd-macro'' then Some (done_ok (cmd_start_macro e))
      else if cmd = lit ''end-kbd-macro'' then Some (done_ok (cmd_end_macro e))
      else if cmd = lit ''describe-bindings'' then Some (cmd_describe_bindings w e)
      else if cmd = lit ''describe-mode'' then Some (done_ok (cmd_describe_mode i e))
      else if cmd = lit ''auto-fill-mode'' then Some (refuse ''Auto-fill is not implemented; no setting changed'' e)
      else None)"

text \<open>The last branch: a command of a plugin, or an unknown one.\<close>

definition plugin_command :: "World \<Rightarrow> bytes \<Rightarrow> bytes option \<Rightarrow> int \<Rightarrow> Editor \<Rightarrow> result" where
  "plugin_command w cmd arg count e =
     (let (e, ok) = plugins_command w e cmd arg count in
      if ok then Some (e, True)
      else Some (if message e = [] then editor_message (lit ''Unknown command: '' @ cmd) e else e, False))"

definition first_some :: "'a option list \<Rightarrow> 'a \<Rightarrow> 'a" where
  "first_some xs d = (case filter (\<lambda>x. \<not> Option.is_none x) xs of [] \<Rightarrow> d | x # _ \<Rightarrow> the x)"

type_synonym commander = "bytes \<Rightarrow> bytes option \<Rightarrow> int \<Rightarrow> bool \<Rightarrow> sys \<Rightarrow> sys_result"

definition dispatch :: "World \<Rightarrow> Os \<Rightarrow> commander \<Rightarrow> (bytes \<Rightarrow> sys \<Rightarrow> sys_result) \<Rightarrow> commander" where
  "dispatch w os rec_command rec_key cmd arg count explicit s =
     (let (d, e) = s; i = current e; pk = last_kind e; e = e\<lparr>last_kind := 0\<rparr>;
          e = (if cmd = lit ''next-line'' \<or> cmd = lit ''previous-line'' then e
               else upd_buf i (\<lambda>b. b\<lparr>goal_valid := False\<rparr>) e)
      in if cmd = lit ''execute-extended-command'' then
           (case arg of None \<Rightarrow> on_disk d (done_ok (prompt (lit ''M-x '') cmd [] e))
            | Some name \<Rightarrow> rec_command name None count explicit (d, e))
         else if cmd = lit ''call-last-kbd-macro'' then cmd_call_macro rec_key count (d, e)
         else first_some
           [map_option (on_disk d) (motion_command w i cmd count explicit e),
            map_option (on_disk d) (edit_command w i pk cmd count explicit e),
            file_command w os i cmd arg (d, e),
            map_option (on_disk d) (session_command w i cmd arg count explicit e),
            map_option (on_disk d) (setting_command w i cmd count e)]
           (on_disk d (plugin_command w cmd arg count e)))"

definition command_step :: "World \<Rightarrow> Os \<Rightarrow> commander \<Rightarrow> (bytes \<Rightarrow> sys \<Rightarrow> sys_result) \<Rightarrow> commander" where
  "command_step w os rec_command rec_key cmd arg count explicit s =
     (let (d, e) = s in
      if command_depth e \<ge> 32 then on_disk d (refuse ''Command recursion limit reached'' e)
      else if count < -100000 \<or> count > 100000
      then on_disk d (refuse ''Numeric argument exceeds safety limit'' e)
      else
        let outer = (command_depth e = 0);
            e = e\<lparr>command_depth := command_depth e + 1\<rparr>;
            e = (if outer then e\<lparr>group := group e + 1, message := []\<rparr> else e)
        in do {
          ((d, e), ok) \<leftarrow> dispatch w os rec_command rec_key cmd arg count explicit (d, e);
          let e = e\<lparr>command_depth := command_depth e - 1\<rparr>;
          Some ((d, if outer then e\<lparr>last_command := take 99 cmd\<rparr> else e), ok) })"

end
