(* ===== verification/Keys.thy ===== *)
theory Keys
  imports Commands
begin

section \<open>Keys (\<open>prompt_key\<close>, \<open>editor_key\<close>, \<open>editor_paste\<close> in \<open>src/commands.c\<close>)\<close>

subsection \<open>Answering a prompt\<close>

definition is_search :: "Editor \<Rightarrow> bool" where
  "is_search e \<longleftrightarrow> take 8 (prompt_command e) = lit ''isearch-''"

definition cancels :: "bytes \<Rightarrow> bool" where
  "cancels key \<longleftrightarrow> key = lit ''n'' \<or> key = lit ''C-g'' \<or> key = lit ''RET''"

definition kill_confirm_key :: "bytes \<Rightarrow> Editor \<Rightarrow> result" where
  "kill_confirm_key key e =
     (if key = lit ''y'' then
        (case editor_by_id e (pending_buffer e) of
           None \<Rightarrow> done_ok (prompt_clear e)
         | Some k \<Rightarrow> map_option (\<lambda>e. (e, True)) (editor_drop_buffer (prompt_clear e) k))
      else if cancels key then done_ok (editor_message (lit ''Kill canceled'') (prompt_clear e))
      else done_ok e)"

text \<open>The loop that saves every modified buffer, from index \<open>k\<close>; \<open>n\<close> bounds the buffers there can be.\<close>

fun save_modified :: "World \<Rightarrow> Os \<Rightarrow> nat \<Rightarrow> nat \<Rightarrow> sys \<Rightarrow> sys \<times> bool" where
  "save_modified w os k 0 s = (s, True)"
| "save_modified w os k (Suc n) s =
     (let (d, e) = s in
      if k < length (buffers e) then
        if buf_state (buf_of e k) \<noteq> saved_state (buf_of e k) then
          let (d, e, ok) = editor_save w os d (editor_switch e k) None False in
          if ok then save_modified w os (k + 1) n (d, e) else ((d, prompt_clear e), False)
        else save_modified w os (k + 1) n (d, e)
      else ((d, e), True))"

definition quit_confirm_key :: "World \<Rightarrow> Os \<Rightarrow> bytes \<Rightarrow> sys \<Rightarrow> sys_result" where
  "quit_confirm_key w os key s =
     (let (d, e) = s in
      if key = lit ''y'' then Some ((d, (prompt_clear e)\<lparr>quit := True\<rparr>), True)
      else if key = lit ''s'' then
        (let cur = current e; ((d, e), ok) = save_modified w os 0 CP_MAX_BUFFERS (d, e) in
         if ok then Some ((d, (prompt_clear (editor_switch e cur))\<lparr>quit := True\<rparr>), True)
         else Some ((d, e), False))
      else if cancels key then Some ((d, editor_message (lit ''Quit canceled'') (prompt_clear e)), True)
      else Some ((d, e), True))"

definition query_step_key :: "World \<Rightarrow> bytes \<Rightarrow> Editor \<Rightarrow> result" where
  "query_step_key w key e =
     (if key = lit ''q'' \<or> key = lit ''RET'' \<or> key = lit ''C-g''
      then done_ok (upd_current (\<lambda>b. b\<lparr>mark_active := False\<rparr>) (prompt_clear e))
      else if key = lit ''y'' then query_replace_one w e
      else if key = lit ''!'' then query_replace_all w e
      else if key = lit ''n'' then moved (query_next e)
      else done_ok e)"

text \<open>The keys that edit the input line; \<open>None\<close> for a key that does not.\<close>

definition input_key :: "bytes \<Rightarrow> Editor \<Rightarrow> Editor option" where
  "input_key key e =
     (let s = input e; p = input_point e in
      if key = lit ''C-a'' then Some (e\<lparr>input_point := 0\<rparr>)
      else if key = lit ''C-e'' then Some (e\<lparr>input_point := length s\<rparr>)
      else if key = lit ''C-b'' \<or> key = lit ''<left>'' then Some (e\<lparr>input_point := str_prev s p\<rparr>)
      else if key = lit ''C-f'' \<or> key = lit ''<right>'' then Some (e\<lparr>input_point := str_next s p\<rparr>)
      else if key = lit ''DEL'' then
        (let at = str_prev s p in Some (e\<lparr>input := take at s @ drop p s, input_point := at\<rparr>))
      else if key = lit ''C-d'' \<or> key = lit ''<delete>'' then
        Some (e\<lparr>input := take p s @ drop (str_next s p) s\<rparr>)
      else if key = lit ''C-k'' then Some (e\<lparr>input := take p s\<rparr>)
      else if key = lit ''C-y'' then
        Some (if kill_ring e \<noteq> [] then fst (input_insert (hd (kill_ring e)) e) else e)
      else if key \<noteq> [] \<and> (length key = 1 \<or> 128 \<le> hd key) then Some (fst (input_insert key e))
      else None)"

text \<open>\<open>RET\<close>: the prompt is closed and its command gets the input. \<open>rec_prompt\<close> is the nested \<open>prompt_key\<close>.\<close>

definition prompt_return :: "commander \<Rightarrow> (bytes \<Rightarrow> sys \<Rightarrow> sys_result) \<Rightarrow> sys \<Rightarrow> sys_result" where
  "prompt_return rec_command rec_prompt s =
     (let (d, e) = s; cmd = prompt_command e; arg = input e; search = is_search e; e = prompt_clear e in
      if search then
        on_disk d (done_ok (upd_current (\<lambda>b. b\<lparr>mark := search_origin e, has_mark := True\<rparr>)
          (editor_message (lit ''Mark saved where search started'') (e\<lparr>last_search := arg\<rparr>))))
      else if cmd = lit ''query-from'' \<or> cmd = lit ''replace-from'' then
        (if arg = [] then on_disk d (refuse ''Empty search string'' e)
         else on_disk d (done_ok (prompt (lit ''Replace with: '')
           (lit (if cmd = lit ''query-from'' then ''query-to'' else ''replace-to'')) [] (e\<lparr>replace_from := arg\<rparr>))))
      else if cmd = lit ''query-to'' \<or> cmd = lit ''replace-to'' then do {
        e \<leftarrow> query_next (e\<lparr>replace_to := arg\<rparr>);
        if cmd = lit ''replace-to'' \<and> prompt_command e \<noteq> [] then rec_prompt (lit ''!'') (d, e)
        else Some ((d, e), True) }
      else rec_command cmd (Some arg) 1 False (d, e))"

definition prompt_step :: "World \<Rightarrow> Os \<Rightarrow> commander \<Rightarrow> (bytes \<Rightarrow> sys \<Rightarrow> sys_result) \<Rightarrow>
    (bytes \<Rightarrow> sys \<Rightarrow> sys_result) \<Rightarrow> bytes \<Rightarrow> sys \<Rightarrow> sys_result" where
  "prompt_step w os rec_command rec_prompt rec_key key s =
     (let (d, e) = s; search = is_search e in
      if prompt_command e = lit ''kill-confirm'' then on_disk d (kill_confirm_key key e)
      else if prompt_command e = lit ''quit-confirm'' then quit_confirm_key w os key s
      else if prompt_command e = lit ''query-step'' then on_disk d (query_step_key w key e)
      else if key = lit ''C-g'' then
        (if search \<and> search_failed e
         then on_disk d (moved (search_update False (e\<lparr>input := search_good e,
                input_point := length (search_good e), search_failed := False\<rparr>)))
         else rec_command (lit ''keyboard-quit'') None 1 False s)
      else if search \<and> (key = lit ''C-s'' \<or> key = lit ''C-r'') then
        (let e = e\<lparr>search_backward := (key = lit ''C-r'')\<rparr>;
             e = (if input e = [] then e\<lparr>input := last_search e, input_point := length (last_search e)\<rparr> else e)
         in on_disk d (moved (search_update True e)))
      else if key = lit ''RET'' then prompt_return rec_command rec_prompt s
      else if key = lit ''TAB'' then on_disk d (done_ok (complete_input w os e))
      else case input_key key e of
        Some e \<Rightarrow> if search
          then on_disk d (moved (search_update False (upd_current (\<lambda>b. b\<lparr>point := search_origin e\<rparr>) e)))
          else on_disk d (done_ok e)
      | None \<Rightarrow> if search then rec_key key (d, prompt_clear (e\<lparr>last_search := input e\<rparr>))
          else on_disk d (Some (editor_message (lit ''Key not available in minibuffer: '' @ key) e, False)))"

subsection \<open>Keys outside a prompt\<close>

definition universal_argument :: "Editor \<Rightarrow> Editor" where
  "universal_argument e =
     (let e = (if \<not> prefix_set e then e\<lparr>prefix_value := 4, prefix_digits := False, prefix_negative := False\<rparr>
               else if \<not> prefix_digits e \<and> prefix_value e \<le> 25000 then e\<lparr>prefix_value := prefix_value e * 4\<rparr>
               else e);
          e = e\<lparr>prefix_set := True\<rparr>
      in editor_message (lit ''Arg: '' @ show_int (prefix_value e)) e)"

text \<open>The digit or minus sign a key adds to the argument, if it is one.\<close>

definition argument_char :: "bytes \<Rightarrow> Editor \<Rightarrow> byte option" where
  "argument_char key e =
     (if length key = 3 \<and> take 2 key = lit ''M-'' \<and> (is_digit (key ! 2) \<or> key ! 2 = 45) then Some (key ! 2)
      else if prefix_set e \<and> length key = 1 \<and> (is_digit (key ! 0) \<or> key ! 0 = 45) then Some (key ! 0)
      else None)"

definition digit_argument :: "byte \<Rightarrow> Editor \<Rightarrow> Editor \<times> bool" where
  "digit_argument c e =
     (let e = (if \<not> prefix_set e then e\<lparr>prefix_value := 0, prefix_digits := False, prefix_negative := False\<rparr> else e);
          shown = (\<lambda>e. (editor_message (lit ''Arg: '' @ (if prefix_negative e then lit ''-'' else []) @
                     show_int (prefix_value e)) (e\<lparr>prefix_set := True\<rparr>), True))
      in if c = 45
         then shown (e\<lparr>prefix_negative := True, prefix_value := (if prefix_digits e then prefix_value e else 1)\<rparr>)
         else
           let e = (if \<not> prefix_digits e then e\<lparr>prefix_value := 0\<rparr> else e) in
           if prefix_value e > 10000 then (editor_message (lit ''Argument limit reached'') e, False)
           else shown (e\<lparr>prefix_value := prefix_value e * 10 + int (unat (c - 48)), prefix_digits := True\<rparr>))"

text \<open>Both passes over the bindings, global ones first: the command, and whether longer keys start so.\<close>

definition lookup_key :: "Binding list \<Rightarrow> bytes \<Rightarrow> bytes \<Rightarrow> bytes option \<times> bool" where
  "lookup_key bs mode full =
     (let seen = filter (\<lambda>k. bind_mode k = []) bs @ filter (\<lambda>k. bind_mode k = mode) bs;
          hits = filter (\<lambda>k. bind_key k = full) seen
      in (if hits = [] then None else Some (bind_command (last hits)),
          list_ex (\<lambda>k. length full < length (bind_key k) \<and> take (length full) (bind_key k) = full \<and>
            bind_key k ! length full = 32) seen))"

definition full_key :: "bytes \<Rightarrow> bytes \<Rightarrow> bytes" where
  "full_key pre key = take 99 (if pre \<noteq> [] then take 70 pre @ lit '' '' @ take 25 key else key)"

definition prefix_count :: "Editor \<Rightarrow> int" where
  "prefix_count e = (let n = (if prefix_set e then prefix_value e else 1) in if prefix_negative e then - n else n)"

definition clear_prefix :: "Editor \<Rightarrow> Editor" where
  "clear_prefix e = e\<lparr>prefix_set := False, prefix_digits := False, prefix_negative := False\<rparr>"

definition self_insert :: "World \<Rightarrow> bytes \<Rightarrow> Editor \<Rightarrow> result" where
  "self_insert w key e =
     (let n = prefix_count e; e = clear_prefix e in
      if n < 0 \<or> n > 100000 then refuse ''Invalid insertion count'' e
      else editor_insert w (e\<lparr>group := group e + 1, last_kind := 0, message := []\<rparr>) (concat (replicate (nat n) key)))"

text \<open>From the lookup on.\<close>

definition bound_key :: "World \<Rightarrow> commander \<Rightarrow> bytes \<Rightarrow> sys \<Rightarrow> sys_result" where
  "bound_key w rec_command key s =
     (let (d, e) = s; full = full_key (key_prefix e) key;
          (command, is_prefix) = lookup_key (bindings e) (buf_mode (editor_buffer e)) full
      in case command of
        Some c \<Rightarrow> rec_command c None (prefix_count e) (prefix_set e) (d, clear_prefix (e\<lparr>key_prefix := []\<rparr>))
      | None \<Rightarrow>
        if is_prefix then on_disk d (done_ok (editor_message (full @ lit ''-'') (e\<lparr>key_prefix := full\<rparr>)))
        else
          let printable = (key_prefix e = [] \<and> (length key = 1 \<or> key \<noteq> [] \<and> 128 \<le> hd key));
              e = e\<lparr>key_prefix := []\<rparr>
          in if printable \<and> utf8_valid key then on_disk d (self_insert w key e)
             else on_disk d (Some (editor_message (full @ lit '' is undefined'') (e\<lparr>prefix_set := False\<rparr>), False)))"

text \<open>Recording a key of the macro being defined; \<open>None\<close> when it is full.\<close>

definition record_key :: "bytes \<Rightarrow> Editor \<Rightarrow> Editor option" where
  "record_key key e =
     (if macro_recording e \<and> \<not> macro_playing e then
        if length (macro_keys e) \<ge> 10000 then None else Some (e\<lparr>macro_keys := macro_keys e @ [key]\<rparr>)
      else Some e)"

definition key_step :: "World \<Rightarrow> commander \<Rightarrow> (bytes \<Rightarrow> sys \<Rightarrow> sys_result) \<Rightarrow> bytes \<Rightarrow> sys \<Rightarrow> sys_result" where
  "key_step w rec_command rec_prompt key s =
     (let (d, e) = s in
      if key = [] \<or> length key > 80 then on_disk d (refuse ''Invalid key token'' e)
      else case record_key key e of
        None \<Rightarrow> on_disk d (refuse ''Macro size limit reached'' (e\<lparr>macro_recording := False\<rparr>))
      | Some e \<Rightarrow>
        if prompt_command e \<noteq> [] then rec_prompt key (d, e)
        else if key = lit ''C-g'' then rec_command (lit ''keyboard-quit'') None 1 False (d, e)
        else if key = lit ''C-u'' \<and> key_prefix e = [] then on_disk d (done_ok (universal_argument e))
        else case (if key_prefix e = [] then argument_char key e else None) of
          Some c \<Rightarrow> on_disk d (Some (digit_argument c e))
        | None \<Rightarrow> bound_key w rec_command key (d, e))"

subsection \<open>Tying the knot\<close>

text \<open>
  Commands run keys and keys run commands. \<open>fuel\<close> bounds the depth of these calls; \<open>None\<close> when
  it runs out (or when a step does not return).
\<close>

datatype call = Command bytes "bytes option" int bool | Key bytes | Prompt_key bytes

fun run :: "World \<Rightarrow> Os \<Rightarrow> nat \<Rightarrow> call \<Rightarrow> sys \<Rightarrow> sys_result" where
  "run w os 0 c s = None"
| "run w os (Suc n) c s =
     (let rec_command = (\<lambda>cmd arg count explicit. run w os n (Command cmd arg count explicit));
          rec_key = (\<lambda>key. run w os n (Key key)); rec_prompt = (\<lambda>key. run w os n (Prompt_key key))
      in case c of
        Command cmd arg count explicit \<Rightarrow> command_step w os rec_command rec_key cmd arg count explicit s
      | Key key \<Rightarrow> key_step w rec_command rec_prompt key s
      | Prompt_key key \<Rightarrow> prompt_step w os rec_command rec_prompt rec_key key s)"

definition editor_command :: "World \<Rightarrow> Os \<Rightarrow> nat \<Rightarrow> commander" where
  "editor_command w os n cmd arg count explicit = run w os n (Command cmd arg count explicit)"

definition editor_key :: "World \<Rightarrow> Os \<Rightarrow> nat \<Rightarrow> bytes \<Rightarrow> sys \<Rightarrow> sys_result" where
  "editor_key w os n key = run w os n (Key key)"

definition prompt_key :: "World \<Rightarrow> Os \<Rightarrow> nat \<Rightarrow> bytes \<Rightarrow> sys \<Rightarrow> sys_result" where
  "prompt_key w os n key = run w os n (Prompt_key key)"

fun editor_keys :: "World \<Rightarrow> Os \<Rightarrow> nat \<Rightarrow> bytes list \<Rightarrow> sys \<Rightarrow> sys_result" where
  "editor_keys w os n [] s = Some (s, True)"
| "editor_keys w os n (k # ks) s = do {
     (s, ok) \<leftarrow> editor_key w os n k s;
     (s, ok') \<leftarrow> editor_keys w os n ks s;
     Some (s, ok \<and> ok') }"

subsection \<open>Pasted and external text\<close>

definition editor_external_yank :: "World \<Rightarrow> Os \<Rightarrow> nat \<Rightarrow> bytes \<Rightarrow> sys \<Rightarrow> sys_result" where
  "editor_external_yank w os n t s =
     (if \<not> utf8_valid t then Some (s, False)
      else editor_command w os n (lit ''yank'') None 1 False (fst s, push_kill t False False (snd s)))"

definition editor_paste :: "World \<Rightarrow> bytes \<Rightarrow> Editor \<Rightarrow> result" where
  "editor_paste w s e =
     (if \<not> utf8_valid s then Some (e, False)
      else if prompt_command e \<noteq> [] then
        if contains (prompt_command e) (lit ''confirm'') \<or> prompt_command e = lit ''query-step''
        then refuse ''Answer confirmation prompts with individual keys'' e
        else
          let (e, ok) = input_insert s e in
          if \<not> ok then Some (e, False)
          else if is_search e then moved (search_update False e) else done_ok e
      else editor_insert w e s)"

subsection \<open>Properties\<close>

text \<open>The state between two keys outside a prompt and a macro.\<close>

definition at_rest :: "Editor \<Rightarrow> bool" where
  "at_rest e \<longleftrightarrow> prompt_command e = [] \<and> key_prefix e = [] \<and> \<not> macro_recording e \<and> command_depth e = 0"

lemma key_negative_argument:
  assumes "at_rest e"
  shows "\<exists>e1. editor_key w os 2 (lit ''M--'') (d, e) = Some ((d, e1), True) \<and> at_rest e1 \<and> bindings e1 = bindings e \<and>
    buffers e1 = buffers e \<and> current e1 = current e \<and> prefix_negative e1"
proof -
  have chars: "lit ''M--'' ! 2 = 45" "take 2 (lit ''M--'') = lit ''M-''"
    by (simp_all add: lit_def byte_of_def)
  show ?thesis
    using assms chars
    by (simp add: at_rest_def editor_key_def numeral_2_eq_2 key_step_def record_key_def on_disk_def Let_def argument_char_def
        digit_argument_def editor_message_def)
qed

lemma quit_prompt_depth:
  "command_depth (cmd_quit_prompt i x) = command_depth x" "command_depth (upd_buf i f x) = command_depth x"
  "command_depth (cmd_char i n x) = command_depth x"
  by (simp_all add: cmd_quit_prompt_def cmd_char_def Let_def set_point_def upd_buf_def prompt_clear_def editor_message_def)

lemma key_quit:
  assumes "at_rest e" "current e < length (buffers e)"
  shows "\<exists>e2. editor_key w os 2 (lit ''C-g'') (d, e) = Some ((d, e2), True) \<and> at_rest e2 \<and> bindings e2 = bindings e \<and>
    current e2 = current e \<and> length (buffers e2) = length (buffers e) \<and> prefix_negative e2 = prefix_negative e \<and> \<not> prefix_set e2 \<and>
    buf_text (editor_buffer e2) = buf_text (editor_buffer e) \<and> point (editor_buffer e2) = point (editor_buffer e) \<and>
    buf_mode (editor_buffer e2) = buf_mode (editor_buffer e)"
proof -
  define e2 where "e2 = (let e = e\<lparr>command_depth := 1, group := group e + 1, message := []\<rparr>;
      e = upd_current (\<lambda>b. b\<lparr>goal_valid := False\<rparr>) (e\<lparr>last_kind := 0\<rparr>);
      e = cmd_quit_prompt (current e) e
    in e\<lparr>command_depth := 0, last_command := lit ''keyboard-quit''\<rparr>)"
  have "editor_key w os 2 (lit ''C-g'') (d, e) = Some ((d, e2), True)"
    using assms(1)
    by (simp add: at_rest_def editor_key_def numeral_2_eq_2 key_step_def record_key_def on_disk_def Let_def command_step_def
        dispatch_def motion_command_def first_some_def done_ok_def e2_def quit_prompt_depth)
  then show ?thesis
    using assms
    by (intro exI [of _ e2])
      (simp add: at_rest_def e2_def cmd_quit_prompt_def prompt_clear_def Let_def editor_message_def upd_buf_def editor_buffer_def)
qed

text \<open>\<open>C-f\<close> after a quit still goes backward when the sign was left.\<close>

lemma key_forward_negative:
  assumes "at_rest e" "prefix_negative e" "\<not> prefix_set e" "current e < length (buffers e)"
    and "lookup_key (bindings e) (buf_mode (editor_buffer e)) (lit ''C-f'') = (Some (lit ''forward-char''), b)"
  shows "\<exists>e'. editor_key w os 2 (lit ''C-f'') (d, e) = Some ((d, e'), True) \<and>
    point (editor_buffer e') = move_char (buf_text (editor_buffer e)) (point (editor_buffer e)) (- 1)"
proof -
  have c: "argument_char (lit ''C-f'') e = None" "full_key [] (lit ''C-f'') = lit ''C-f''"
    using assms(1) by (simp_all add: at_rest_def argument_char_def full_key_def lit_def byte_of_def)
  define x where "x = clear_prefix (e\<lparr>key_prefix := []\<rparr>)"
  have x: "command_depth x = 0" "current x = current e" "buffers x = buffers e"
    using assms(1) by (simp_all add: at_rest_def x_def clear_prefix_def)
  have "lookup_key (bindings e) (buf_mode (editor_buffer e)) (full_key (key_prefix e) (lit ''C-f'')) = (Some (lit ''forward-char''), b)"
    using assms(1,5) c(2) by (simp add: at_rest_def)
  moreover have "prefix_count e = - 1" using assms(2,3) by (simp add: prefix_count_def)
  ultimately have key: "\<exists>f g. editor_key w os 2 (lit ''C-f'') (d, e) = command_step w os f g (lit ''forward-char'') None (- 1) False (d, x)"
    using assms(1,3) c(1)
    by (intro exI [of _ "\<lambda>cmd arg count explicit. run w os 0 (Command cmd arg count explicit)"] exI [of _ "\<lambda>key. run w os 0 (Key key)"])
      (simp add: at_rest_def editor_key_def numeral_2_eq_2 key_step_def record_key_def bound_key_def x_def)
  define y where "y = upd_current (\<lambda>b. b\<lparr>goal_valid := False\<rparr>)
    (x\<lparr>command_depth := 1, group := group x + 1, message := [], last_kind := 0\<rparr>)"
  have "command_step w os f g (lit ''forward-char'') None (- 1) False (d, x) =
      Some ((d, (cmd_char (current e) (- 1) y)\<lparr>command_depth := 0, last_command := lit ''forward-char''\<rparr>), True)" for f g
    using x
    by (simp add: command_step_def dispatch_def motion_command_def first_some_def done_ok_def on_disk_def Let_def y_def quit_prompt_depth)
  moreover have "current y = current e" "current e < length (buffers y)"
    "buf_text (buffers y ! current e) = buf_text (editor_buffer e)" "point (buffers y ! current e) = point (editor_buffer e)"
    using x assms(4) by (simp_all add: y_def upd_buf_def editor_buffer_def)
  then have "point (editor_buffer ((cmd_char (current e) (- 1) y)\<lparr>command_depth := 0, last_command := l\<rparr>)) =
      move_char (buf_text (editor_buffer e)) (point (editor_buffer e)) (- 1)" for l
    by (simp add: cmd_char_def set_point_def Let_def upd_buf_def editor_buffer_def)
  ultimately show ?thesis using key by auto
qed

text \<open>\<open>C-g\<close> drops a numeric argument but not its sign: after \<open>M--\<close>, \<open>C-g\<close>, the next \<open>C-f\<close> moves one
  character back instead of forward, in every buffer at every point.\<close>

theorem quit_keeps_negative:
  assumes "prompt_command e = []" "key_prefix e = []" "\<not> macro_recording e" "command_depth e = 0"
    and "lookup_key (bindings e) (buf_mode (editor_buffer e)) (lit ''C-f'') = (Some (lit ''forward-char''), b)"
    and "current e < length (buffers e)"
  shows "\<exists>e'. editor_keys w os 2 [lit ''M--'', lit ''C-g'', lit ''C-f''] (d, e) = Some ((d, e'), True) \<and>
    point (editor_buffer e') = move_char (buf_text (editor_buffer e)) (point (editor_buffer e)) (- 1)"
proof -
  have "at_rest e" using assms(1-4) by (simp add: at_rest_def)
  then obtain e1 where 1: "editor_key w os 2 (lit ''M--'') (d, e) = Some ((d, e1), True)" "at_rest e1" "bindings e1 = bindings e"
    "buffers e1 = buffers e" "current e1 = current e" "prefix_negative e1" using key_negative_argument by blast
  have b1: "editor_buffer e1 = editor_buffer e" using 1(4,5) by (simp add: editor_buffer_def)
  obtain e2 where 2: "editor_key w os 2 (lit ''C-g'') (d, e1) = Some ((d, e2), True)" "at_rest e2" "bindings e2 = bindings e"
    "prefix_negative e2" "\<not> prefix_set e2" "current e2 < length (buffers e2)" "buf_text (editor_buffer e2) = buf_text (editor_buffer e)"
    "point (editor_buffer e2) = point (editor_buffer e)" "buf_mode (editor_buffer e2) = buf_mode (editor_buffer e)"
    using key_quit [OF 1(2)] 1(3-6) assms(6) b1 by fastforce
  obtain e' where "editor_key w os 2 (lit ''C-f'') (d, e2) = Some ((d, e'), True)"
    "point (editor_buffer e') = move_char (buf_text (editor_buffer e)) (point (editor_buffer e)) (- 1)"
    using key_forward_negative [OF 2(2,4-6), of b w os d] 2(3,7-9) assms(5) by auto
  then show ?thesis using 1(1) 2(1) by simp
qed

end
