(* ===== verification/Query_Replace.thy ===== *)
theory Query_Replace
  imports Keys
begin

section \<open>Replacing every match\<close>

text \<open>\<open>replace-string\<close>, and \<open>!\<close> in a query replace, against a reference on byte strings.\<close>

subsection \<open>The reference\<close>

function replace_all :: "bytes \<Rightarrow> bytes \<Rightarrow> bytes \<Rightarrow> bytes" where
  "replace_all p r xs =
     (if p = [] \<or> xs = [] then xs
      else if take (length p) xs = p then r @ replace_all p r (drop (length p) xs)
      else hd xs # replace_all p r (tl xs))"
  by pat_completeness auto
termination
proof (relation "measure (\<lambda>(p, r, xs). length xs)", goal_cases)
  case (2 p r xs)
  then show ?case by (cases p; cases xs) auto
next
  case (3 p r xs)
  then show ?case by (cases xs) auto
qed simp

declare replace_all.simps [simp del]

lemma occurs_drop: "n \<le> length xs \<Longrightarrow> occurs p (drop n xs) i \<longleftrightarrow> occurs p xs (n + i)"
  by (auto simp: occurs_def seg_def add.commute)

lemma replace_all_match:
  assumes "p \<noteq> []" "occurs p xs 0"
  shows "replace_all p r xs = r @ replace_all p r (drop (length p) xs)"
  using assms by (subst replace_all.simps) (auto simp: occurs_def seg_def)

lemma replace_all_skip:
  assumes "p \<noteq> []" "k \<le> length xs" "\<forall>i < k. \<not> occurs p xs i"
  shows "replace_all p r xs = take k xs @ replace_all p r (drop k xs)"
  using assms(2,3)
proof (induction k arbitrary: xs)
  case (Suc k)
  then obtain x ys where xs: "xs = x # ys" by (cases xs) auto
  have "\<not> occurs p xs 0" using Suc.prems by simp
  moreover have "\<not> occurs p ys i" if "i < k" for i
    using Suc.prems(2) that occurs_drop [of 1 xs p i] by (simp add: xs)
  ultimately show ?case
    using Suc.IH [of ys] Suc.prems(1) assms(1)
    by (subst replace_all.simps) (auto simp: xs occurs_def seg_def dest: arg_cong [of _ _ length])
qed simp

lemma replace_all_none:
  assumes "p \<noteq> []" "\<forall>i. \<not> occurs p xs i" shows "replace_all p r xs = xs"
  using replace_all_skip [OF assms(1), of "length xs" xs r] assms(2) by (simp add: replace_all.simps)

subsection \<open>Matches lie on character boundaries\<close>

lemma occurs_boundary:
  assumes xs: "utf8_valid xs" and p: "utf8_valid p" "p \<noteq> []" and i: "occurs p xs i"
  shows "boundary xs i" "boundary xs (i + length p)"
proof -
  have le: "i + length p \<le> length xs" and s: "seg i (length p) xs = p" using i by (simp_all add: occurs_def)
  have il: "i < length xs" using le p(2) by (cases p) auto
  have "hd p = xs ! i"
    using s il p(2) by (metis hd_drop_conv_nth hd_take length_greater_0_conv seg_def)
  then show b: "boundary xs i" using valid_hd [OF p] il by (simp add: boundary_def)
  have "utf8_valid (drop i xs)" using valid_cut [OF xs b] by simp
  moreover have d: "drop i xs = p @ drop (i + length p) xs"
    using s le by (metis add.commute append_take_drop_id drop_drop seg_def)
  ultimately have v: "utf8_valid (drop (i + length p) xs)" using p(1) valid_append_left by metis
  have "take (i + length p) xs @ drop (i + length p) xs = xs" by simp
  then show "boundary xs (i + length p)"
    using boundary_append [OF v, of "take (i + length p) xs"] le by (simp add: min_absorb2)
qed

subsection \<open>Finding the next match\<close>

text \<open>The fields the loop reads are kept by an edit of the buffer.\<close>

lemma edited_fields:
  assumes "edited e e'"
  shows "replace_from e' = replace_from e" "replace_to e' = replace_to e" "replace_at e' = replace_at e"
    "prompt_command e' = prompt_command e" "python_enabled e' = python_enabled e"
  using assms by (auto simp: edited_def upd_buf_def)

text \<open>What the loop needs: a writable buffer no plugin reacts to, and a string to look for.\<close>

definition replacing :: "bytes \<Rightarrow> bytes \<Rightarrow> Editor \<Rightarrow> bool" where
  "replacing p r e \<longleftrightarrow> ed_inv e \<and> \<not> python_enabled e \<and> \<not> readonly (editor_buffer e) \<and>
     replace_from e = p \<and> replace_to e = r \<and> utf8_valid p \<and> utf8_valid r \<and> p \<noteq> []"

lemma replacing_message [simp]: "replacing p r (editor_message s e) = replacing p r e"
  by (simp add: replacing_def editor_message_def ed_inv_def editor_buffer_def)

lemma replacing_prompt [simp]:
  "replacing p r (prompt l c s e) = replacing p r e" "replacing p r (prompt_clear e) = replacing p r e"
  "replacing p r (e\<lparr>replace_at := n\<rparr>) = replacing p r e" "replacing p r (e\<lparr>group := n\<rparr>) = replacing p r e"
  by (simp_all add: replacing_def prompt_def prompt_clear_def ed_inv_def editor_buffer_def)

lemma replacing_update:
  assumes "replacing p r e" "buf_inv (f (editor_buffer e))" "readonly (f (editor_buffer e)) = readonly (editor_buffer e)"
  shows "replacing p r (upd_current f e)" "editor_buffer (upd_current f e) = f (editor_buffer e)"
proof -
  have e: "ed_inv e" using assms(1) by (simp add: replacing_def)
  show "editor_buffer (upd_current f e) = f (editor_buffer e)" using e assms(2) by (rule ed_inv_update)
  then show "replacing p r (upd_current f e)"
    using assms ed_inv_update(1) [OF e, of f] by (simp add: replacing_def upd_buf_def)
qed

lemma editor_buffer_prompt [simp]:
  "editor_buffer (prompt l c s e) = editor_buffer e" "editor_buffer (prompt_clear e) = editor_buffer e"
  "editor_buffer (e\<lparr>replace_at := n\<rparr>) = editor_buffer e" "editor_buffer (e\<lparr>group := n\<rparr>) = editor_buffer e"
  by (simp_all add: prompt_def prompt_clear_def editor_buffer_def)

lemma query_next_ok:
  assumes e: "replacing p r e" and small: "length (content (editor_buffer e)) < size_max"
  defines "xs \<equiv> content (editor_buffer e)" and "pt \<equiv> point (editor_buffer e)"
  obtains (none) e' where "query_next e = Some e'" "prompt_command e' = []" "replacing p r e'"
      "content (editor_buffer e') = xs" "replace_all p r (drop pt xs) = drop pt xs"
  | (found) e' where "query_next e = Some e'" "prompt_command e' = lit ''query-step''" "replacing p r e'"
      "content (editor_buffer e') = xs" "stored_bytes e' = stored_bytes e"
      "pt \<le> replace_at e'" "occurs p xs (replace_at e')"
      "take (replace_at e') xs @ replace_all p r (drop (replace_at e') xs) = take pt xs @ replace_all p r (drop pt xs)"
proof -
  let ?b = "editor_buffer e"
  have p: "replace_from e = p" "p \<noteq> []" "utf8_valid p" using e by (simp_all add: replacing_def)
  have b: "buf_inv ?b" using e by (simp add: replacing_def ed_inv_buffer)
  have pt: "pt \<le> length xs" using buf_invD(2) [OF b] boundary_le by (simp add: xs_def pt_def)
  have start: "pt \<le> text_size (buf_text ?b)" using pt text_size_content [OF buf_invD(1) [OF b]] by (simp add: xs_def)
  obtain at where f: "editor_find (buf_text ?b) p pt False = Some at"
    and at: "at = size_max \<and> (\<forall>i \<ge> pt. \<not> occurs p xs i) \<or>
      pt \<le> at \<and> occurs p xs at \<and> (\<forall>i. pt \<le> i \<and> i < at \<longrightarrow> \<not> occurs p xs i)"
    using editor_find_forward [OF buf_invD(1) [OF b] p(2) start] unfolding xs_def by blast
  show thesis
  proof (cases "at = size_max")
    case True
    then have no: "\<not> occurs p xs i" if "i \<ge> pt" for i
      using at that small by (auto simp: occurs_def xs_def)
    have "replace_all p r (drop pt xs) = drop pt xs"
      using no pt by (intro replace_all_none [OF p(2)]) (simp add: occurs_drop)
    then show thesis
      using none [of "editor_message (lit ''Query replace finished'') (prompt_clear e)"] True f e p(1)
      by (simp add: query_next_def pt_def xs_def editor_message_def prompt_clear_def)
        (simp add: replacing_def ed_inv_def editor_buffer_def)
  next
    case False
    with at have o: "pt \<le> at" "occurs p xs at" "\<And>i. pt \<le> i \<Longrightarrow> i < at \<Longrightarrow> \<not> occurs p xs i" by auto
    define g :: "Buffer \<Rightarrow> Buffer" where "g = (\<lambda>b. b\<lparr>point := at + length p, mark := at, has_mark := True, mark_active := True\<rparr>)"
    have bd: "boundary xs at" "boundary xs (at + length p)"
      using occurs_boundary [OF buf_invD(5) [OF b, folded xs_def] p(3,2) o(2)] .
    have g: "buf_inv (g ?b)" "readonly (g ?b) = readonly ?b"
      using b bd by (simp_all add: g_def xs_def)
    have "\<forall>i < at - pt. \<not> occurs p (drop pt xs) i" using o(3) pt by (simp add: occurs_drop)
    moreover have "at \<le> length xs" using o(2) by (simp add: occurs_def)
    ultimately have s: "take (at - pt) (drop pt xs) @ replace_all p r (drop at xs) = replace_all p r (drop pt xs)"
      using replace_all_skip [OF p(2), of "at - pt" "drop pt xs" r] o(1) by simp
    have "take at xs = take pt xs @ take (at - pt) (drop pt xs)"
      using o(1) by (metis le_add_diff_inverse take_add)
    then have eq: "take at xs @ replace_all p r (drop at xs) = take pt xs @ replace_all p r (drop pt xs)"
      using s by simp
    have u: "replacing p r (upd_current g (e\<lparr>replace_at := at\<rparr>))"
      "editor_buffer (upd_current g (e\<lparr>replace_at := at\<rparr>)) = g ?b"
      using replacing_update [of p r "e\<lparr>replace_at := at\<rparr>" g] e g by simp_all
    show thesis
      using found [of "prompt (lit ''Replace? y/n/!/q: '') (lit ''query-step'') [] (upd_current g (e\<lparr>replace_at := at\<rparr>))"]
        False f p(1) u o eq
      by (simp add: query_next_def pt_def xs_def g_def stored_bytes_def)
        (simp add: prompt_def upd_buf_def lit_def)
  qed
qed

subsection \<open>The loop\<close>

lemma replace_one_ok:
  assumes e: "replacing p r e" and o: "occurs p (content (editor_buffer e)) (replace_at e)"
    and room: "stored_bytes e + length r < size_max"
  obtains e' where
    "query_replace_one w e = (case query_next e' of None \<Rightarrow> None | Some e \<Rightarrow> Some (e, True))" "replacing p r e'"
    "content (editor_buffer e') = splice (replace_at e) (length p) r (content (editor_buffer e))"
    "point (editor_buffer e') = replace_at e + length r" "stored_bytes e' = stored_bytes e + length r"
proof -
  let ?b = "editor_buffer e" and ?at = "replace_at e"
  have i: "ed_inv e" "\<not> python_enabled e" "replace_from e = p" "replace_to e = r" "utf8_valid p" "p \<noteq> []" "utf8_valid r"
    "\<not> readonly ?b" using e by (simp_all add: replacing_def)
  have b: "buf_inv ?b" using i(1) by (rule ed_inv_buffer)
  have bd: "boundary (content ?b) ?at" "boundary (content ?b) (?at + length p)"
    using occurs_boundary [OF buf_invD(5) [OF b] i(5,6) o] .
  define e0 where "e0 = e\<lparr>group := group e + 1\<rparr>"
  have e0: "ed_inv e0" "\<not> python_enabled e0" "replace_ok (editor_buffer e0) ?at (length p) r"
    "stored_bytes e0 + length r < size_max"
    using i bd room by (simp_all add: e0_def ed_inv_def replace_ok_def stored_bytes_def)
  obtain e1 where e1: "editor_replace w e0 ?at (length p) r = Some (e1, True)" "ed_inv e1" "edited e0 e1"
    "content (editor_buffer e1) = splice ?at (length p) r (content ?b)"
    "stored_bytes e1 = stored_bytes e + length r" "readonly (editor_buffer e1) = readonly ?b"
    using replace_step [OF e0, of w] by (auto simp: e0_def stored_bytes_def)
  note f = edited_fields [OF e1(3)]
  have r1: "replacing p r e1" using e1 f i by (simp add: replacing_def e0_def)
  define g :: "Buffer \<Rightarrow> Buffer" where "g = (\<lambda>b. b\<lparr>point := ?at + length r\<rparr>)"
  have g: "buf_inv (g (editor_buffer e1))"
    using ed_inv_buffer [OF e1(2)] e1(4) boundary_splice(2) [OF bd buf_invD(5) [OF b] i(7)] by (simp add: g_def)
  have u: "replacing p r (upd_current g e1)" "editor_buffer (upd_current g e1) = g (editor_buffer e1)"
    using replacing_update [of p r e1 g, OF r1 g] by (simp_all add: g_def)
  show thesis
    using that [of "upd_current g e1"] u e1 f i(3,4)
    by (simp add: query_replace_one_def e0_def g_def stored_bytes_def split: option.splits)
qed

text \<open>Every match found is replaced; each of the \<open>n\<close> bytes left to search can start at most one match.\<close>

text \<open>After a replacement at \<open>at\<close> of \<open>m\<close> of the \<open>n\<close> bytes left by \<open>k\<close>, a match at \<open>a\<close> has less room to grow into.\<close>

lemma replacement_room:
  fixes at k m n a len stored lim :: nat
  assumes "0 < m" "m \<le> n" "len = at + k + (n - m)" "at + k \<le> a" "a \<le> len"
  shows "len - a < n" "stored + n * k < lim \<Longrightarrow> (stored + k) + (len - a) * k < lim"
    "at + n * (k + 1) < lim \<Longrightarrow> a + (len - a) * (k + 1) < lim" "at + n * (k + 1) < lim \<Longrightarrow> len < lim"
proof -
  obtain j where j: "a = at + k + j" using assms(4) le_Suc_ex by blast
  let ?r = "len - a"
  have n: "n = m + j + ?r" using assms(2,3,5) j by linarith
  show "?r < n" using n assms(1) by linarith
  have "Suc ?r \<le> n" using n assms(1) by linarith
  then have "Suc ?r * k \<le> n * k" by (rule mult_right_mono) simp
  then show "(stored + k) + ?r * k < lim" if "stored + n * k < lim" using that by simp
  have "Suc (j + ?r) \<le> n" using n assms(1) by linarith
  then have m: "Suc (j + ?r) * (k + 1) \<le> n * (k + 1)" by (rule mult_right_mono) simp
  have "a + ?r * (k + 1) \<le> at + Suc (j + ?r) * (k + 1)" by (simp add: j algebra_simps)
  then show *: "a + ?r * (k + 1) < lim" if "at + n * (k + 1) < lim" using that m by linarith
  have "len \<le> a + ?r * (k + 1)" using assms(5) by simp
  with * show "len < lim" if "at + n * (k + 1) < lim" using that by (meson le_less_trans)
qed

lemma query_replace_all_ok:
  assumes "replacing p r e" "occurs p (content (editor_buffer e)) (replace_at e)"
    and "stored_bytes e + (length (content (editor_buffer e)) - replace_at e) * length r < size_max"
    and "replace_at e + (length (content (editor_buffer e)) - replace_at e) * (length r + 1) < size_max"
  shows "\<exists>e'. query_replace_all w e = Some (e', True) \<and> prompt_command e' = [] \<and> replacing p r e' \<and>
    content (editor_buffer e') = take (replace_at e) (content (editor_buffer e)) @
      replace_all p r (drop (replace_at e) (content (editor_buffer e)))"
  using assms
proof (induction "length (content (editor_buffer e)) - replace_at e" arbitrary: e rule: less_induct)
  case less
  let ?xs = "content (editor_buffer e)" and ?at = "replace_at e"
  let ?n = "length ?xs - ?at" and ?m = "length p" and ?k = "length r"
  have p: "p \<noteq> []" using less.prems(1) by (simp add: replacing_def)
  have at: "?at + ?m \<le> length ?xs" "0 < ?m" using less.prems(2) p by (simp_all add: occurs_def)
  then have "0 < ?n" by linarith
  then obtain n where n: "?n = Suc n" by (cases ?n) auto
  have "stored_bytes e + ?k < size_max" using less.prems(3) n by simp
  then obtain e1 where e1: "query_replace_one w e = (case query_next e1 of None \<Rightarrow> None | Some e \<Rightarrow> Some (e, True))"
    "replacing p r e1" "content (editor_buffer e1) = splice ?at ?m r ?xs"
    "point (editor_buffer e1) = ?at + ?k" "stored_bytes e1 = stored_bytes e + ?k"
    by (rule replace_one_ok [OF less.prems(1,2)])
  let ?ys = "splice ?at ?m r ?xs"
  have ys: "?ys = (take ?at ?xs @ r) @ drop (?at + ?m) ?xs" "take (?at + ?k) ?ys = take ?at ?xs @ r"
    "drop (?at + ?k) ?ys = drop (?at + ?m) ?xs" "length ?ys = ?at + ?k + (?n - ?m)"
    using at by (simp_all add: splice_def)
  have all: "replace_all p r (drop ?at ?xs) = r @ replace_all p r (drop (?at + ?m) ?xs)"
    using less.prems(2) at by (subst replace_all_match [OF p]) (simp_all add: occurs_drop add.commute)
  note room = replacement_room [OF at(2) _ ys(4)]
  have small: "length ?ys < size_max" using room(4) [of "?at + ?k" size_max] less.prems(4) at by (simp add: ys(4))
  have lt: "length (content (editor_buffer e1)) < size_max" using small e1(3) by simp
  show ?case
  proof (rule query_next_ok [OF e1(2) lt], goal_cases none found)
    case (none e2)
    then show ?thesis
      using e1 ys all by (subst query_replace_all.simps) simp
  next
    case (found e2)
    let ?a2 = "replace_at e2"
    have o2: "occurs p ?ys ?a2" "?at + ?k \<le> ?a2" using found e1 by simp_all
    then have a2: "?a2 \<le> length ?ys" by (simp add: occurs_def)
    have mn: "?m \<le> ?n" using at by linarith
    note r = room [OF mn o2(2) a2]
    have r1: "stored_bytes e2 + (length ?ys - ?a2) * ?k < size_max" using r(2) [of "stored_bytes e" size_max] less.prems(3) found(5) e1(5) by simp
    have r2: "?a2 + (length ?ys - ?a2) * (?k + 1) < size_max" using r(3) [of size_max] less.prems(4) by simp
    have "length (content (editor_buffer e2)) - ?a2 < ?n" using r(1) found(4) e1(3) by simp
    from less.hyps [OF this found(3)] obtain e3 where e3: "query_replace_all w e2 = Some (e3, True)"
      "prompt_command e3 = []" "replacing p r e3"
      "content (editor_buffer e3) = take ?a2 ?ys @ replace_all p r (drop ?a2 ?ys)"
      using o2(1) r1 r2 found(4) e1(3) by auto
    then show ?thesis
      using found e1 ys all by (subst query_replace_all.simps) simp
  qed
qed

text \<open>The sample editor at the second prompt of \<open>replace-string\<close>.\<close>

definition sample_replacing :: Editor where
  "sample_replacing = sample_editor\<lparr>prompt_command := lit ''replace-to'', replace_from := [99], input := [97, 97]\<rparr>"

text \<open>C14 \<open>replace-string\<close>: RET in its second prompt replaces every occurrence from point on, left to right and
  without overlaps, leaves the text before point alone, closes the prompt and returns; replacements are not searched
  again.\<close>

theorem replace_string_correct:
  assumes "ed_inv e" "\<not> python_enabled e" "\<not> readonly (editor_buffer e)"
    and "prompt_command e = lit ''replace-to''" "replace_from e = p" "input e = r"
    and "utf8_valid p" "p \<noteq> []" "utf8_valid r"
    and "length (content (editor_buffer e)) = n" "stored_bytes e + n * (length r + 1) < size_max"
  shows "\<exists>e'. prompt_key w os (Suc (Suc k)) (lit ''RET'') (d, e) = Some ((d, e'), True) \<and>
    content (editor_buffer e') = take (point (editor_buffer e)) (content (editor_buffer e)) @
      replace_all p r (drop (point (editor_buffer e)) (content (editor_buffer e))) \<and>
    prompt_command e' = [] \<and> ed_inv e'"
proof -
  define e0 where "e0 = (prompt_clear e)\<lparr>replace_to := r\<rparr>"
  have b0: "editor_buffer e0 = editor_buffer e" by (simp add: e0_def editor_buffer_def prompt_clear_def)
  have r0: "replacing p r e0"
    using assms b0 by (simp add: replacing_def) (simp add: e0_def prompt_clear_def ed_inv_def)
  have st: "stored_bytes e0 = stored_bytes e" by (simp add: stored_bytes_def b0)
  have nos: "take 8 (lit ''replace-to'') \<noteq> lit ''isearch-''" by (simp add: lit_def byte_of_def)
  have ret: "prompt_key w os (Suc (Suc k)) (lit ''RET'') (d, e) = do {
      e \<leftarrow> query_next e0;
      if prompt_command e \<noteq> [] then prompt_key w os (Suc k) (lit ''!'') (d, e) else Some ((d, e), True) }"
    using assms(4,6) nos unfolding prompt_key_def
    by (subst run.simps(2)) (simp add: prompt_step_def prompt_return_def Let_def is_search_def e0_def del: run.simps)
  have small: "length (content (editor_buffer e0)) < size_max"
    using assms(10,11) by (simp add: b0)
  show ?thesis
  proof (rule query_next_ok [OF r0 small], goal_cases none found)
    case (none e1)
    then show ?thesis using ret by (simp add: b0 replacing_def)
  next
    case (found e1)
    let ?at = "replace_at e1"
    have le: "?at \<le> n" using found(7) assms(10) b0 by (simp add: occurs_def)
    have "(n - ?at) * length r \<le> n * (length r + 1)" by (rule mult_mono) auto
    then have room: "stored_bytes e1 + (n - ?at) * length r < size_max"
      using found(5) st assms(11) by simp
    have "?at + (n - ?at) * (length r + 1) \<le> n * (length r + 1)"
    proof -
      obtain j where "n = ?at + j" using le le_Suc_ex by blast
      then show ?thesis by (simp add: algebra_simps)
    qed
    then have more: "?at + (n - ?at) * (length r + 1) < size_max" using assms(11) by simp
    have c: "content (editor_buffer e1) = content (editor_buffer e)" using found(4) b0 by simp
    obtain e2 where "query_replace_all w e1 = Some (e2, True)" "prompt_command e2 = []" "replacing p r e2"
      "content (editor_buffer e2) = take ?at (content (editor_buffer e)) @
        replace_all p r (drop ?at (content (editor_buffer e)))"
      using query_replace_all_ok [OF found(3), of w] found(7) room more assms(10) b0 c by auto
    then show ?thesis
      using ret found b0
      by (simp add: prompt_key_def prompt_step_def query_step_key_def on_disk_def replacing_def)
  qed
qed

theorem replace_string_correct_witness:
  "\<exists>e'. prompt_key sample_world sample_os 2 (lit ''RET'') (\<lambda>_. None, sample_replacing) = Some ((\<lambda>_. None, e'), True) \<and>
    content (editor_buffer e') = [97, 98, 0xC3, 0xA9, 10, 97, 97, 100]"
proof -
  have b: "editor_buffer sample_replacing = sample_buffer" "\<not> python_enabled sample_replacing"
    "stored_bytes sample_replacing = 0" "ed_inv sample_replacing"
    using sample_editor_stored sample_editor_inv
    by (simp_all add: sample_replacing_def sample_editor_def blank_editor_def editor_buffer_def stored_bytes_def ed_inv_def)
  have v: "utf8_valid [99]" "utf8_valid [97, 97]" by code_simp+
  have "replace_all [99] [97, 97] sample = [97, 98, 0xC3, 0xA9, 10, 97, 97, 100]" by code_simp
  moreover have "prompt_command sample_replacing = lit ''replace-to''" "replace_from sample_replacing = [99]"
    "input sample_replacing = [97, 97]"
    by (simp_all add: sample_replacing_def)
  moreover have "length sample = 7" by (simp add: sample_def)
  ultimately show ?thesis
    using replace_string_correct [OF b(4,2) _ _ _ _ v(1) _ v(2) refl, of sample_world sample_os 0 "\<lambda>_. None"]
    by (auto simp: b sample_buffer_simps sample_content sample_ok numeral_2_eq_2 [symmetric] size_max_def)
qed

end
