(* ===== verification/Syntax.thy ===== *)
theory Syntax
  imports Columns
begin

section \<open>Syntax highlighting (\<open>src/syntax.c\<close>)\<close>

text \<open>
  The line lexer and its cache: \<open>lex_states\<close> holds the lexical state at the start of the first
  \<open>lex_valid\<close> lines. The C functions append spans to a JSON array when they get one; here the
  scanner always returns its spans, as triples of start, end and style.
\<close>

subsection \<open>Scanning one line\<close>

type_synonym style_span = "nat \<times> nat \<times> nat"

function has_word :: "bytes \<Rightarrow> bytes \<Rightarrow> bool" where
  "has_word ws word =
     (if ws = [] then False
      else
        let p = dropWhile (\<lambda>c. c = 32) ws in
        takeWhile (\<lambda>c. c \<noteq> 32) p = word \<or> has_word (dropWhile (\<lambda>c. c \<noteq> 32) p) word)"
  by pat_completeness auto
termination
proof (relation "measure (\<lambda>(ws, _). length ws)", goal_cases)
  case (2 ws word p)
  then obtain c cs where c: "ws = c # cs" by (cases ws) auto
  have "length (dropWhile P xs) \<le> length xs" for P and xs :: bytes by (rule length_dropWhile_le)
  then show ?case
    using 2 c le_trans [of _ "length (dropWhile (\<lambda>c. c = 32) cs)" "length cs"]
    by (cases "c = 32") (auto simp: less_Suc_eq_le)
qed simp

declare has_word.simps [simp del]

definition span :: "nat \<Rightarrow> nat \<Rightarrow> nat \<Rightarrow> style_span list" where
  "span start end style = (if end \<le> start then [] else [(start, end, style)])"

text \<open>The tests \<open>i+k<=n && !memcmp(s+i,p,k)\<close>.\<close>

definition starts_at :: "bytes \<Rightarrow> nat \<Rightarrow> bytes \<Rightarrow> bool" where
  "starts_at s i p \<longleftrightarrow> i + length p \<le> length s \<and> seg i (length p) s = p"

text \<open>The loops \<open>while(i<n && \<dots>)i++\<close>.\<close>

function skip_while :: "(byte \<Rightarrow> bool) \<Rightarrow> bytes \<Rightarrow> nat \<Rightarrow> nat" where
  "skip_while P s i = (if i < length s \<and> P (s ! i) then skip_while P s (i + 1) else i)"
  by pat_completeness auto
termination
  by (relation "measure (\<lambda>(P, s, i). length s - i)") auto

declare skip_while.simps [simp del]

definition closing :: "lex_state \<Rightarrow> bytes" where
  "closing st = (case st of TRIPLE_SINGLE \<Rightarrow> [39, 39, 39] | TRIPLE_DOUBLE \<Rightarrow> [34, 34, 34]
     | BLOCK_COMMENT \<Rightarrow> lit ''*/'' | HTML_COMMENT \<Rightarrow> lit ''-->'' | JINJA_COMMENT \<Rightarrow> lit ''#}''
     | SINGLE \<Rightarrow> [39] | DOUBLE \<Rightarrow> [34] | _ \<Rightarrow> [96])"

definition is_comment :: "lex_state \<Rightarrow> bool" where
  "is_comment st \<longleftrightarrow> st = BLOCK_COMMENT \<or> st = HTML_COMMENT \<or> st = JINJA_COMMENT"

text \<open>To the end of the string or comment the line is in: the offset after it, and whether it was closed.\<close>

function scan_close :: "bytes \<Rightarrow> bytes \<Rightarrow> bool \<Rightarrow> nat \<Rightarrow> nat \<times> bool" where
  "scan_close s close comment i =
     (if i < length s then
        if starts_at s i close then (i + length close, True)
        else scan_close s close comment (if \<not> comment \<and> s ! i = 92 \<and> i + 1 < length s then i + 2 else i + 1)
      else (i, False))"
  by pat_completeness auto
termination
  by (relation "measure (\<lambda>(s, c, m, i). length s - i)") auto

declare scan_close.simps [simp del]

text \<open>One turn of the scanner's loop at \<open>i < n\<close>: the next offset, the state, the spans, and whether the scan
  returns \<open>NORMAL\<close> at once.\<close>

definition scan_token :: "Syntax \<Rightarrow> bytes \<Rightarrow> nat \<Rightarrow> lex_state \<Rightarrow> nat \<times> lex_state \<times> style_span list \<times> bool" where
  "scan_token y s i st =
     (let n = length s; k = kind y; c = s ! i; markup = (k = 3 \<or> k = 5) in
      if st \<noteq> NORMAL then
        let (j, closed) = scan_close s (closing st) (is_comment st) i in
        (j, (if closed then NORMAL else st), span i j (if is_comment st then 2 else 4), False)
      else if (k = 1 \<or> k = 5 \<or> k = 2 \<and> syntax_name y = lit ''php'') \<and> c = 35 then (i, NORMAL, span i n 2, True)
      else if k \<noteq> 1 \<and> starts_at s i (lit ''//'') then (i, NORMAL, span i n 2, True)
      else if k \<noteq> 1 \<and> starts_at s i (lit ''/*'') then (i + 2, BLOCK_COMMENT, span i (i + 2) 2, False)
      else if markup \<and> starts_at s i (lit ''<!--'') then (i + 4, HTML_COMMENT, span i (i + 4) 2, False)
      else if markup \<and> starts_at s i (lit ''{#'') then (i + 2, JINJA_COMMENT, span i (i + 2) 2, False)
      else if c = 39 \<or> c = 34 \<or> k \<noteq> 1 \<and> c = 96 then
        if k = 1 \<and> i + 3 \<le> n \<and> s ! (i + 1) = c \<and> s ! (i + 2) = c
        then (i + 3, (if c = 39 then TRIPLE_SINGLE else TRIPLE_DOUBLE), span i (i + 3) 4, False)
        else (i + 1, (if c = 39 then SINGLE else if c = 34 then DOUBLE else BACKTICK), span i (i + 1) 4, False)
      else if is_digit c \<and> (i = 0 \<or> \<not> is_alnum (s ! (i - 1)) \<and> s ! (i - 1) \<noteq> 95) then
        let j = skip_while (\<lambda>c. is_alnum c \<or> c = 95 \<or> c = 46) s (i + 1) in (j, NORMAL, span i j 7, False)
      else if markup \<and> c = 60 then
        let j = (if i + 1 < n \<and> s ! (i + 1) = 47 then i + 2 else i + 1);
            j = skip_while (\<lambda>c. is_alnum c \<or> c = 45 \<or> c = 58 \<or> c = 33) s j
        in (j, NORMAL, span i j 6, False)
      else if markup \<and> (starts_at s i (lit ''{{'') \<or> starts_at s i (lit ''}}'') \<or> starts_at s i [123, 37] \<or>
          starts_at s i [37, 125]) then (i + 2, NORMAL, span i (i + 2) 5, False)
      else if is_alpha c \<or> c = 95 \<or> c \<ge> 128 then
        let j = skip_while (\<lambda>c. is_alnum c \<or> c = 95 \<or> c \<ge> 128) s (i + 1); word = seg i (j - i) s;
            style = (if has_word (keyword_list y) word then 5 else if has_word (builtin_list y) word then 6 else 0);
            after = skip_while (\<lambda>c. c = 32 \<or> c = 9) s j;
            style = (if style = 0 \<and> after < n \<and> s ! after = 40 then 6 else style)
        in (j, NORMAL, (if style \<noteq> 0 then span i j style else []), False)
      else if k = 1 \<and> c = 64 then
        let j = skip_while (\<lambda>c. is_alnum c \<or> c = 95 \<or> c = 46) s (i + 1) in (j, NORMAL, span i j 3, False)
      else (i + 1, NORMAL, [], False))"

lemma skip_while_ge: "i \<le> skip_while P s i"
  by (induction P s i rule: skip_while.induct) (subst skip_while.simps, auto)

lemma skip_while_le: "i \<le> length s \<Longrightarrow> skip_while P s i \<le> length s"
  by (induction P s i rule: skip_while.induct) (subst skip_while.simps, auto)

lemma scan_close_ge: "i \<le> fst (scan_close s p m i)"
  by (induction s p m i rule: scan_close.induct) (subst scan_close.simps, auto split: if_splits)

lemma scan_close_le: "i \<le> length s \<Longrightarrow> fst (scan_close s p m i) \<le> length s"
  by (induction s p m i rule: scan_close.induct)
    (subst scan_close.simps, auto simp: starts_at_def split: if_splits)

lemma closing_pos: "0 < length (closing st)"
  by (cases st) (simp_all add: closing_def)

lemma scan_close_gt: "i < length s \<Longrightarrow> 0 < length p \<Longrightarrow> i < fst (scan_close s p m i)"
  using scan_close_ge [of "i + 1" s p m] scan_close_ge [of "i + 2" s p m]
  by (subst scan_close.simps) auto

text \<open>Spans in ascending order, without overlaps, between two offsets.\<close>

fun spans_ok :: "nat \<Rightarrow> nat \<Rightarrow> style_span list \<Rightarrow> bool" where
  "spans_ok lo hi [] \<longleftrightarrow> True"
| "spans_ok lo hi ((a, z, style) # ss) \<longleftrightarrow> lo \<le> a \<and> a < z \<and> z \<le> hi \<and> spans_ok z hi ss"

lemma spans_ok_span [simp]: "spans_ok i j (span i j style) \<longleftrightarrow> True"
  by (simp add: span_def)

lemma spans_ok_mono: "spans_ok lo hi ss \<Longrightarrow> lo' \<le> lo \<Longrightarrow> hi \<le> hi' \<Longrightarrow> spans_ok lo' hi' ss"
  by (induction lo hi ss arbitrary: lo' rule: spans_ok.induct) auto

lemma spans_ok_append:
  "spans_ok lo m ss \<Longrightarrow> spans_ok m hi ts \<Longrightarrow> lo \<le> m \<Longrightarrow> m \<le> hi \<Longrightarrow> spans_ok lo hi (ss @ ts)"
  by (induction lo m ss rule: spans_ok.induct) (auto intro: spans_ok_mono)

text \<open>What a turn promises: progress within the line, and spans of the part it passed.\<close>

definition token_ok :: "nat \<Rightarrow> nat \<Rightarrow> nat \<times> lex_state \<times> style_span list \<times> bool \<Rightarrow> bool" where
  "token_ok i n r \<longleftrightarrow> (case r of (j, st, ss, ret) \<Rightarrow>
     if ret then spans_ok i n ss else i < j \<and> j \<le> n \<and> spans_ok i j ss)"

lemma token_if: "(c \<Longrightarrow> token_ok i n a) \<Longrightarrow> (\<not> c \<Longrightarrow> token_ok i n b) \<Longrightarrow> token_ok i n (if c then a else b)"
  by simp

lemma token_leaf:
  "i < j \<Longrightarrow> j \<le> n \<Longrightarrow> token_ok i n (j, st, span i j k, False)"
  "i < j \<Longrightarrow> j \<le> n \<Longrightarrow> token_ok i n (j, st, [], False)"
  "i < j \<Longrightarrow> j \<le> n \<Longrightarrow> token_ok i n (j, st, if c then span i j k else [], False)"
  "token_ok i n (i, st, span i n k, True)"
  by (simp_all add: token_ok_def)

lemma skip_while_gt: "i < j \<Longrightarrow> i < skip_while P s j"
  using skip_while_ge [of j P s] by simp

lemma starts_at_le: "starts_at s i p \<Longrightarrow> i + length p \<le> length s"
  by (simp add: starts_at_def)

lemma scan_token_ok: "i < length s \<Longrightarrow> token_ok i (length s) (scan_token y s i st)"
  unfolding scan_token_def Let_def case_prod_beta
  by (intro token_if token_leaf scan_close_gt scan_close_le skip_while_gt skip_while_le closing_pos)
    (auto dest!: starts_at_le)

text \<open>The whole loop, and the state the next line starts in.\<close>

function scan_loop :: "Syntax \<Rightarrow> bytes \<Rightarrow> nat \<Rightarrow> lex_state \<Rightarrow> style_span list \<Rightarrow> lex_state \<times> style_span list" where
  "scan_loop y s i st out =
     (if i < length s then
        let (j, st', ss, ret) = scan_token y s i st in
        if ret then (NORMAL, out @ ss) else scan_loop y s j st' (out @ ss)
      else ((if (st = SINGLE \<or> st = DOUBLE) \<and> (s = [] \<or> last s \<noteq> 92) then NORMAL else st), out))"
  by pat_completeness auto
termination
proof (relation "measure (\<lambda>(y, s, i, st, out). length s - i)", goal_cases)
  case (2 y s i st out r j r' st' r'' ss ret)
  then show ?case using scan_token_ok [of i s y st] by (auto simp: token_ok_def split: prod.splits)
qed simp

declare scan_loop.simps [simp del]

definition scan :: "Syntax \<Rightarrow> bytes \<Rightarrow> lex_state \<Rightarrow> lex_state \<times> style_span list" where
  "scan y s st = (if kind y = 0 then (NORMAL, []) else scan_loop y s 0 st [])"

subsection \<open>The cache of line states\<close>

text \<open>\<open>lex_states[i]=x\<close>, where \<open>state_at\<close> has made room.\<close>

definition set_state :: "nat \<Rightarrow> lex_state \<Rightarrow> lex_state list \<Rightarrow> lex_state list" where
  "set_state i x xs = take i xs @ x # drop (Suc i) xs"

definition line_bytes :: "Text \<Rightarrow> nat \<Rightarrow> bytes" where
  "line_bytes t line =
     (let a = text_line_start t line; z = text_line_start t (line + 1);
          z = (if z > a \<and> is_nl (text_byte t (z - 1)) then z - 1 else z) in
      text_slice t a (z - a))"

function fill_states :: "nat \<Rightarrow> Buffer \<Rightarrow> Buffer" where
  "fill_states row b =
     (if lex_valid b \<le> row then
        let line = lex_valid b - 1 in
        fill_states row (b\<lparr>lex_states := set_state (lex_valid b)
            (fst (scan (buf_syntax b) (line_bytes (buf_text b) line) (lex_states b ! line))) (lex_states b),
          lex_valid := lex_valid b + 1\<rparr>)
      else b)"
  by pat_completeness auto
termination
  by (relation "measure (\<lambda>(row, b). Suc row - lex_valid b)") auto

declare fill_states.simps [simp del]

definition state_at :: "nat \<Rightarrow> Buffer \<Rightarrow> Buffer \<times> lex_state" where
  "state_at row b =
     (let b = (if lex_valid b = 0 then b\<lparr>lex_states := set_state 0 NORMAL (lex_states b), lex_valid := 1\<rparr> else b);
          b = fill_states row b
      in (b, lex_states b ! row))"

definition editor_line_spans :: "nat \<Rightarrow> bytes \<Rightarrow> Buffer \<Rightarrow> Buffer \<times> style_span list" where
  "editor_line_spans row line b =
     (if kind (buf_syntax b) = 0 then (b, [])
      else
        let (b, st) = state_at row b; (st', out) = scan (buf_syntax b) line st in
        (if row + 1 < text_lines (buf_text b) \<and> row + 1 = lex_valid b
         then b\<lparr>lex_states := set_state (row + 1) st' (lex_states b), lex_valid := lex_valid b + 1\<rparr>
         else b, out))"

subsection \<open>Spans are in order\<close>

lemma scan_loop_spans:
  "i \<le> length s \<Longrightarrow> spans_ok 0 i out \<Longrightarrow> spans_ok 0 (length s) (snd (scan_loop y s i st out))"
proof (induction y s i st out rule: scan_loop.induct)
  case (1 y s i st out)
  obtain j st' ss ret where t: "scan_token y s i st = (j, st', ss, ret)" by (cases "scan_token y s i st") auto
  show ?case
  proof (cases "i < length s")
    case True
    with scan_token_ok [OF True, of y st] t
    have k: "if ret then spans_ok i (length s) ss else i < j \<and> j \<le> length s \<and> spans_ok i j ss"
      by (simp add: token_ok_def)
    then show ?thesis
      using 1 True t spans_ok_append [OF 1(3), of _ ss] by (subst scan_loop.simps) (auto split: if_splits)
  next
    case False
    then show ?thesis using 1 by (subst scan_loop.simps) (auto intro: spans_ok_mono)
  qed
qed

lemma scan_spans_ok: "spans_ok 0 (length s) (snd (scan y s st))"
  using scan_loop_spans [of 0 s "[]" y st] by (simp add: scan_def)

subsection \<open>The cache equals scanning from the start\<close>

text \<open>The reference: line \<open>r\<close> of the contents without its newline, and the state it starts in.\<close>

definition line_of :: "bytes \<Rightarrow> nat \<Rightarrow> bytes" where
  "line_of xs r =
     (let l = seg (line_start xs r) (line_start xs (Suc r) - line_start xs r) xs in
      if l \<noteq> [] \<and> is_nl (last l) then butlast l else l)"

primrec lex_at :: "Syntax \<Rightarrow> bytes \<Rightarrow> nat \<Rightarrow> lex_state" where
  "lex_at y xs 0 = NORMAL"
| "lex_at y xs (Suc r) = fst (scan y (line_of xs r) (lex_at y xs r))"

definition lex_ok :: "Buffer \<Rightarrow> bool" where
  "lex_ok b \<longleftrightarrow> lex_valid b \<le> length (lex_states b) \<and>
     (\<forall>r < lex_valid b. lex_states b ! r = lex_at (buf_syntax b) (content b) r)"

lemma line_bytes_ok:
  assumes "text_inv t" shows "line_bytes t r = line_of (text_content t) r"
proof -
  let ?xs = "text_content t"
  let ?a = "line_start ?xs r" and ?z = "line_start ?xs (Suc r)"
  have le: "?a \<le> ?z" "?z \<le> length ?xs" by (simp_all add: line_start_mono line_start_le)
  show ?thesis
  proof (cases "?a < ?z")
    case True
    have l: "seg ?a (?z - ?a) ?xs \<noteq> []" "last (seg ?a (?z - ?a) ?xs) = ?xs ! (?z - 1)"
      using True le by (auto simp: last_conv_nth seg_def)
    have "butlast (seg ?a (?z - ?a) ?xs) = seg ?a (?z - 1 - ?a) ?xs"
      using True le by (simp add: seg_def butlast_take)
    moreover have "text_byte t (?z - 1) = ?xs ! (?z - 1)" using assms True le by (simp add: text_byte_content)
    ultimately show ?thesis
      using assms True l
      by (simp add: line_bytes_def line_of_def Let_def text_line_start_ok text_slice_ok)
  next
    case False
    then have "?z = ?a" using le by simp
    then show ?thesis using assms by (simp add: line_bytes_def line_of_def Let_def text_line_start_ok text_slice_ok)
  qed
qed

lemma nth_set_state: "i \<le> length xs \<Longrightarrow> j \<le> i \<Longrightarrow> set_state i x xs ! j = (if j = i then x else xs ! j)"
  by (simp add: set_state_def nth_append min_absorb2)

lemma length_set_state: "i \<le> length xs \<Longrightarrow> length (set_state i x xs) = max (Suc i) (length xs)"
  by (auto simp: set_state_def)

text \<open>Adding the state of the next line to the cache.\<close>

lemma lex_ok_extend:
  assumes "lex_ok b" "0 < lex_valid b" "st = lex_at (buf_syntax b) (content b) (lex_valid b)"
  shows "lex_ok (b\<lparr>lex_states := set_state (lex_valid b) st (lex_states b), lex_valid := lex_valid b + 1\<rparr>)"
  using assms by (auto simp: lex_ok_def nth_set_state length_set_state less_Suc_eq)

lemma lex_ok_next:
  assumes "lex_ok b" "0 < lex_valid b"
  shows "lex_at (buf_syntax b) (content b) (lex_valid b) =
    fst (scan (buf_syntax b) (line_of (content b) (lex_valid b - 1)) (lex_states b ! (lex_valid b - 1)))"
  using assms by (cases "lex_valid b") (auto simp: lex_ok_def)

text \<open>\<open>relexed b b'\<close>: only the cache differs.\<close>

definition relexed :: "Buffer \<Rightarrow> Buffer \<Rightarrow> bool" where
  "relexed b b' \<longleftrightarrow> (\<exists>xs v. b' = b\<lparr>lex_states := xs, lex_valid := v\<rparr>)"

lemma relexed_refl: "relexed b b"
  unfolding relexed_def by (rule exI [of _ "lex_states b"], rule exI [of _ "lex_valid b"]) simp

lemma relexed_update: "relexed b (b\<lparr>lex_states := xs, lex_valid := v\<rparr>)"
  unfolding relexed_def by blast

lemma relexed_trans:
  assumes "relexed a b" "relexed b c" shows "relexed a c"
proof -
  obtain xs v ys u where "b = a\<lparr>lex_states := xs, lex_valid := v\<rparr>" "c = b\<lparr>lex_states := ys, lex_valid := u\<rparr>"
    using assms unfolding relexed_def by blast
  then have "c = a\<lparr>lex_states := ys, lex_valid := u\<rparr>" by simp
  then show ?thesis unfolding relexed_def by blast
qed

lemma relexedD:
  assumes "relexed b b'"
  shows "buf_syntax b' = buf_syntax b" "buf_text b' = buf_text b" "point b' = point b" "mark b' = mark b"
    "buf_id b' = buf_id b" "tab_width b' = tab_width b" "mark_active b' = mark_active b"
    "column_cache b' = column_cache b" "seek_cache b' = seek_cache b"
  using assms by (auto simp: relexed_def)

lemma fill_states_ok:
  "text_inv (buf_text b) \<Longrightarrow> lex_ok b \<Longrightarrow> 0 < lex_valid b \<Longrightarrow>
     lex_ok (fill_states row b) \<and> row < lex_valid (fill_states row b) \<and> lex_valid b \<le> lex_valid (fill_states row b) \<and>
     relexed b (fill_states row b)"
proof (induction row b rule: fill_states.induct)
  case (1 row b)
  show ?case
  proof (cases "lex_valid b \<le> row")
    case True
    let ?b = "b\<lparr>lex_states := set_state (lex_valid b) (fst (scan (buf_syntax b)
      (line_bytes (buf_text b) (lex_valid b - 1)) (lex_states b ! (lex_valid b - 1)))) (lex_states b),
      lex_valid := lex_valid b + 1\<rparr>"
    have "lex_ok ?b"
      using 1(2-4) lex_ok_next [OF 1(3,4)] by (intro lex_ok_extend) (simp_all add: line_bytes_ok)
    then have ih: "lex_ok (fill_states row ?b)" "row < lex_valid (fill_states row ?b)"
      "lex_valid ?b \<le> lex_valid (fill_states row ?b)"
      "relexed ?b (fill_states row ?b)"
      using 1(1) [OF True refl] 1(2) by auto
    have "fill_states row b = fill_states row ?b" using True by (subst fill_states.simps) (simp add: Let_def)
    with ih show ?thesis using relexed_trans [OF relexed_update ih(4)] by simp
  next
    case False
    then have "fill_states row b = b" by (subst fill_states.simps) simp
    then show ?thesis using False 1(3) relexed_refl by simp
  qed
qed

lemma state_at_ok:
  assumes "text_inv (buf_text b)" "lex_ok b" "state_at row b = (b', st)"
  shows "lex_ok b'" "row < lex_valid b'" "st = lex_at (buf_syntax b) (content b) row" "lex_valid b \<le> lex_valid b'"
    "relexed b b'"
proof -
  let ?b = "if lex_valid b = 0 then b\<lparr>lex_states := set_state 0 NORMAL (lex_states b), lex_valid := 1\<rparr> else b"
  have "lex_ok ?b" "0 < lex_valid ?b" "text_inv (buf_text ?b)"
    using assms(1,2) by (auto simp: lex_ok_def nth_set_state length_set_state)
  note F = fill_states_ok [OF this(3,1,2), of row]
  have b': "b' = fill_states row ?b" "st = lex_states b' ! row"
    using assms(3) by (auto simp: state_at_def Let_def)
  show "lex_ok b'" "row < lex_valid b'" "lex_valid b \<le> lex_valid b'" using F b' by auto
  have "relexed b ?b" by (simp add: relexed_update relexed_refl)
  then show r: "relexed b b'" using F b'(1) relexed_trans by blast
  have "lex_states b' ! row = lex_at (buf_syntax b') (content b') row" using F b'(1) by (simp add: lex_ok_def)
  then show "st = lex_at (buf_syntax b) (content b) row" using b'(2) relexedD [OF r] by simp
qed

lemma fill_states_relexed: "relexed b (fill_states row b)"
proof (induction row b rule: fill_states.induct)
  case (1 row b)
  then show ?case
    by (subst fill_states.simps) (auto simp: Let_def intro: relexed_refl relexed_trans [OF relexed_update])
qed

lemma line_spans_relexed: "editor_line_spans row line b = (b', out) \<Longrightarrow> relexed b b'"
  using fill_states_relexed [of "b\<lparr>lex_states := set_state 0 NORMAL (lex_states b), lex_valid := 1\<rparr>" row]
    fill_states_relexed [of b row] relexed_refl [of b]
  by (auto simp: editor_line_spans_def state_at_def Let_def split: prod.splits if_splits
      intro: relexed_trans [OF relexed_update] relexed_trans [OF _ relexed_update])

text \<open>The spans of a line are those of a scan that starts at the first line.\<close>

lemma line_spans_ok:
  assumes inv: "text_inv (buf_text b)" "lex_ok b" and line: "line = line_of (content b) row"
    and s: "editor_line_spans row line b = (b', out)"
  shows "out = snd (scan (buf_syntax b) line (lex_at (buf_syntax b) (content b) row)) \<and> lex_ok b' \<and> relexed b b'"
proof (cases "kind (buf_syntax b) = 0")
  case True
  then have "b' = b" "out = []" using s by (simp_all add: editor_line_spans_def)
  moreover note relexed_refl [of b]
  ultimately show ?thesis using inv(2) True by (simp only: scan_def if_True snd_conv simp_thms)
next
  case False
  obtain b1 st where st: "state_at row b = (b1, st)" by (cases "state_at row b") auto
  note A = state_at_ok [OF inv st]
  obtain st' out' where sc: "scan (buf_syntax b1) line st = (st', out')" by (cases "scan (buf_syntax b1) line st") auto
  note R = relexedD [OF A(5)]
  have out: "out = out'" "b' = (if row + 1 < text_lines (buf_text b) \<and> row + 1 = lex_valid b1
     then b1\<lparr>lex_states := set_state (lex_valid b1) st' (lex_states b1), lex_valid := lex_valid b1 + 1\<rparr> else b1)"
    using s False st sc by (auto simp: editor_line_spans_def Let_def R)
  have "lex_ok (b1\<lparr>lex_states := set_state (lex_valid b1) st' (lex_states b1), lex_valid := lex_valid b1 + 1\<rparr>)"
    if "row + 1 = lex_valid b1"
  proof (rule lex_ok_extend [OF A(1)])
    show "0 < lex_valid b1" using A(2) by simp
    have "lex_at (buf_syntax b1) (content b1) (lex_valid b1) =
      fst (scan (buf_syntax b1) (line_of (content b) row) (lex_at (buf_syntax b1) (content b) row))"
      by (simp add: that [symmetric] R A(3))
    then show "st' = lex_at (buf_syntax b1) (content b1) (lex_valid b1)"
      using sc unfolding line A(3) R(1) by simp
  qed
  then have "lex_ok b'" using A(1) out(2) by simp
  moreover have "out = snd (scan (buf_syntax b) line (lex_at (buf_syntax b) (content b) row))"
    using sc out(1) by (simp add: A(3) R)
  moreover have "relexed b b'"
    unfolding out(2) using A(5) relexed_trans [OF A(5) relexed_update] by simp
  ultimately show ?thesis by blast
qed

subsection \<open>Edits keep the cache\<close>

text \<open>The states up to the line of \<open>at\<close> only depend on the text before \<open>at\<close>.\<close>

lemma line_of_prefix:
  assumes "take at xs = take at ys" "at \<le> length xs" "at \<le> length ys" "r < count_nl (take at xs)"
  shows "line_of xs r = line_of ys r"
proof -
  let ?p = "take at xs"
  have split: "xs = ?p @ drop at xs" "ys = ?p @ drop at ys" by (simp, metis append_take_drop_id assms(1))
  have L: "line_start xs k = line_start ?p k" "line_start ys k = line_start ?p k" if "k \<le> count_nl ?p" for k
    using that line_start_append [of ?p "drop at xs" k] line_start_append [of ?p "drop at ys" k] split by simp_all
  have le: "line_start ?p (Suc r) \<le> at" using line_start_le [of ?p "Suc r"] assms(2) by simp
  have "seg (line_start ?p r) (line_start ?p (Suc r) - line_start ?p r) zs =
      seg (line_start ?p r) (line_start ?p (Suc r) - line_start ?p r) (take at zs)" for zs :: bytes
    using le by (simp add: seg_def drop_take min_absorb2)
  then show ?thesis
    using L [of r] L [of "Suc r"] assms(1,4) unfolding line_of_def Let_def by (metis Suc_leI less_imp_le)
qed

lemma lex_at_prefix:
  "take at xs = take at ys \<Longrightarrow> at \<le> length xs \<Longrightarrow> at \<le> length ys \<Longrightarrow> r \<le> count_nl (take at xs) \<Longrightarrow>
     lex_at y xs r = lex_at y ys r"
  by (induction r) (simp_all add: line_of_prefix [of at xs ys])

lemma lex_ok_splice:
  assumes "lex_ok b" "text_inv (buf_text b)" "at + n \<le> length (content b)"
    and b': "content b' = splice at n s (content b)" "buf_syntax b' = buf_syntax b"
    and cache: "lex_states b' = lex_states b" "lex_valid b' = lex_valid (editor_lex_invalidate at b)"
  shows "lex_ok b'"
proof -
  have row: "text_line_of (buf_text b) at = count_nl (take at (content b))"
    using assms(2,3) by (simp add: text_line_of_ok)
  have v: "lex_valid b' = min (lex_valid b) (count_nl (take at (content b)) + 1)"
    using cache(2) by (auto simp: editor_lex_invalidate_def Let_def row)
  have "take at (content b') = take at (content b)" "at \<le> length (content b')"
    using assms(3) by (simp_all add: b' splice_def)
  then have "lex_at y (content b') r = lex_at y (content b) r" if "r < lex_valid b'" for y r
    using that v assms(3) by (intro lex_at_prefix [of at]) auto
  then show ?thesis using assms(1) v unfolding lex_ok_def cache(1) b'(2) by auto
qed

lemma replace_in_lex:
  "replace_in at n s g st b = Some b' \<Longrightarrow> lex_states b' = lex_states b \<and>
     lex_valid b' = lex_valid (editor_lex_invalidate at b) \<and> buf_syntax b' = buf_syntax b"
  by (auto simp: replace_in_def Let_def editor_lex_invalidate_def split: bind_splits)

lemma undo_one_lex:
  "undo_one redo b = Some b' \<Longrightarrow> lex_states b' = lex_states b \<and> buf_syntax b' = buf_syntax b \<and>
     lex_valid b' = lex_valid (editor_lex_invalidate (ed_at (history b ! (if redo then history_pos b else history_pos b - 1))) b)"
  by (auto simp: undo_one_def Let_def editor_lex_invalidate_def split: bind_splits)

lemma replace_keeps_lex:
  assumes "buf_inv b" "lex_ok b" "boundary (content b) at" "boundary (content b) (at + n)" "utf8_valid s"
    "length (added (buf_text b)) + length s < size_max" "replace_in at n s g st b = Some b'"
  shows "lex_ok b'"
proof -
  have "content b' = splice at n s (content b)"
    using replace_in_ok [OF assms(1,3-6), of g st] assms(7) by auto
  then show ?thesis
    using lex_ok_splice [OF assms(2) buf_invD(1) [OF assms(1)] boundary_le [OF assms(4)]] replace_in_lex [OF assms(7)]
    by blast
qed

lemma undo_keeps_lex:
  assumes "buf_inv b" "lex_ok b" "can_undo redo b" "undo_bytes redo b < size_max" "undo_one redo b = Some b'"
  shows "lex_ok b'"
proof (rule undo_one_splice [OF assms(1,3-5)])
  let ?at = "ed_at (history b ! (if redo then history_pos b else history_pos b - 1))"
  fix n s
  assume "boundary (content b) (?at + n)" "content b' = splice ?at n s (content b)"
  then show "lex_ok b'"
    using lex_ok_splice [OF assms(2) buf_invD(1) [OF assms(1)] boundary_le] undo_one_lex [OF assms(5)] by blast
qed

subsection \<open>Properties\<close>

text \<open>C15 Highlighting a line from the cached line states gives the spans of a scan from the first line of the
  buffer, in ascending order and within the line; after any edit in between, too, since edits keep the cached
  states of the lines they can still be right for.\<close>

theorem cached_lexing_correct:
  assumes "buf_inv b" "lex_ok b" "boundary (content b) at" "boundary (content b) (at + n)" "utf8_valid s"
    and "length (added (buf_text b)) + length s < size_max" "replace_in at n s g st b = Some b1"
    and "editor_line_spans row (line_of (content b1) row) b1 = (b2, out)"
  shows "out = snd (scan (buf_syntax b1) (line_of (content b1) row) (lex_at (buf_syntax b1) (content b1) row)) \<and>
    spans_ok 0 (length (line_of (content b1) row)) out \<and> lex_ok b2"
proof -
  have "lex_ok b1" using assms(1-7) by (rule replace_keeps_lex)
  moreover have "buf_inv b1" using replace_in_ok [OF assms(1,3-6), of g st] assms(7) by auto
  ultimately have "out = snd (scan (buf_syntax b1) (line_of (content b1) row) (lex_at (buf_syntax b1) (content b1) row))"
      "lex_ok b2"
    using line_spans_ok [OF buf_invD(1) _ refl assms(8)] by auto
  then show ?thesis using scan_spans_ok by simp
qed

definition python_syntax :: Syntax where
  "python_syntax = \<lparr>syntax_name = lit ''python'', keyword_list = lit ''def if'', builtin_list = lit ''len'', kind = 1\<rparr>"

text \<open>Typing \<open>'''\<close> on the first line of the sample turns its second line into a string.\<close>

theorem cached_lexing_correct_witness:
  "\<exists>b1 b2. replace_in 2 2 [39, 39, 39] 1 1 (sample_buffer\<lparr>buf_syntax := python_syntax\<rparr>) = Some b1 \<and>
     editor_line_spans 1 [99, 100] b1 = (b2, [(0, 2, 4)])"
proof -
  let ?b = "sample_buffer\<lparr>buf_syntax := python_syntax\<rparr>" and ?xs = "[97, 98, 39, 39, 39, 10, 99, 100] :: bytes"
  have v: "utf8_valid [39, 39, 39]" by code_simp
  have inv: "buf_inv ?b" using sample_buffer_inv by (simp add: buf_inv_def history_inv_def version_def origin_def)
  have ok: "lex_ok ?b" by (simp add: lex_ok_def sample_buffer_def blank_buffer_def)
  have c: "content ?b = sample" by (simp add: sample_content)
  have bd: "boundary (content ?b) 2" "boundary (content ?b) (2 + 2)"
    using sample_boundary sample_content by simp_all
  have r: "length (added (buf_text ?b)) + length [39::byte, 39, 39] < size_max"
    by (simp add: sample_buffer_simps sample_ok size_max_def)
  obtain b1 where b1: "replace_in 2 2 [39, 39, 39] 1 1 ?b = Some b1" "content b1 = splice 2 2 [39, 39, 39] (content ?b)"
    using replace_in_ok [OF inv bd v r, of 1 1] by auto
  have xs: "content b1 = ?xs" using b1(2) by (simp add: sample_content splice_def sample_def)
  have y: "buf_syntax b1 = python_syntax" using replace_in_lex [OF b1(1)] by simp
  have l: "line_of ?xs 1 = [99, 100]" by code_simp
  obtain b2 out where e: "editor_line_spans 1 (line_of (content b1) 1) b1 = (b2, out)"
    by (cases "editor_line_spans 1 (line_of (content b1) 1) b1") auto
  from cached_lexing_correct [OF inv ok bd v r b1(1) e]
  have "out = snd (scan python_syntax (line_of ?xs 1) (lex_at python_syntax ?xs 1))" by (simp only: xs y)
  also have "... = [(0, 2, 4)]" by code_simp
  finally show ?thesis using b1(1) e unfolding xs l by blast
qed

end
