(* ===== verification/Term_Style.thy ===== *)
theory Term_Style
  imports Complex_Main Editor_State
begin

section \<open>Terminal colours (\<open>src/term_style.c\<close>)\<close>

text \<open>
  The palette the terminal front end derives from a theme. Colours are 32-bit words; indices
  are numbers. Arithmetic on \<open>double\<close> is exact real arithmetic with every result (and every
  decimal constant) rounded by a parameter, and \<open>pow\<close> is a parameter; \<open>fp_ok\<close> states what
  the proofs use of them, which IEEE doubles satisfy with a wide margin.
\<close>

subsection \<open>The palette of the terminal\<close>

type_synonym rgb = "32 word"

definition levels :: "rgb list" where
  "levels = [0, 95, 135, 175, 215, 255]"

definition term_index_rgb :: "nat \<Rightarrow> rgb" where
  "term_index_rgb index =
     (if index \<ge> 232 \<and> index \<le> 255 then
        let c = word_of_nat (8 + 10 * (index - 232)) in (push_bit 16 c OR push_bit 8 c) OR c
      else if index < 16 \<or> index > 231 then 0
      else
        let n = index - 16 in
        (push_bit 16 (levels ! (n div 36)) OR push_bit 8 (levels ! ((n div 6) mod 6))) OR levels ! (n mod 6))"

subsection \<open>Contrast\<close>

record Fp =
  rnd :: "real \<Rightarrow> real"
  pow :: "real \<Rightarrow> real \<Rightarrow> real"

definition linear :: "Fp \<Rightarrow> rgb \<Rightarrow> real" where
  "linear fp component =
     (let r = rnd fp; s = r (real (unat component) / 255) in
      if s \<le> r 0.04045 then r (s / r 12.92)
      else pow fp (r (r (s + r 0.055) / r 1.055)) (r 2.4))"

definition luminance :: "Fp \<Rightarrow> rgb \<Rightarrow> real" where
  "luminance fp c =
     (let r = rnd fp in
      r (r (r (r 0.2126 * linear fp (drop_bit 16 c AND 255)) +
            r (r 0.7152 * linear fp (drop_bit 8 c AND 255))) +
         r (r 0.0722 * linear fp (c AND 255))))"

definition term_contrast :: "Fp \<Rightarrow> rgb \<Rightarrow> rgb \<Rightarrow> real" where
  "term_contrast fp a b =
     (let r = rnd fp; x = luminance fp a; y = luminance fp b in
      if x \<ge> y then r (r (x + r 0.05) / r (y + r 0.05)) else r (r (y + r 0.05) / r (x + r 0.05)))"

subsection \<open>Choosing colours\<close>

definition blend_byte :: "rgb \<Rightarrow> rgb \<Rightarrow> rgb \<Rightarrow> nat \<Rightarrow> rgb" where
  "blend_byte from to amount shift =
     (let a = drop_bit shift from AND 255; b = drop_bit shift to AND 255 in
      push_bit shift ((a * (255 - amount) + b * amount + 127) div 255))"

definition blend :: "rgb \<Rightarrow> rgb \<Rightarrow> rgb \<Rightarrow> rgb" where
  "blend from to amount = foldl (\<lambda>result shift. result OR blend_byte from to amount shift) 0 [0, 8, 16]"

text \<open>The loops over \<open>t\<close> return the first candidate that passes.\<close>

definition contrast_text :: "Fp \<Rightarrow> rgb \<Rightarrow> rgb \<Rightarrow> rgb" where
  "contrast_text fp fg bg =
     (if term_contrast fp fg bg \<ge> 7 then fg
      else
        let target = (if term_contrast fp 0 bg > term_contrast fp 0xffffff bg then 0 else 0xffffff) in
        case find (\<lambda>c. term_contrast fp c bg \<ge> 7) (map (\<lambda>t. blend fg target (word_of_nat t)) [1..<256]) of
          Some c \<Rightarrow> c | None \<Rightarrow> target)"

definition contrast_background :: "Fp \<Rightarrow> rgb \<Rightarrow> rgb" where
  "contrast_background fp bg =
     (let target = (if luminance fp bg < rnd fp 0.18 then 0 else 0xffffff);
          ink = (if target \<noteq> 0 then 0 else 0xffffff) in
      case find (\<lambda>c. term_contrast fp ink c \<ge> 7.5) (map (\<lambda>t. blend bg target (word_of_nat t)) [0..<256]) of
        Some c \<Rightarrow> c | None \<Rightarrow> target)"

definition distance :: "rgb \<Rightarrow> rgb \<Rightarrow> nat" where
  "distance a b = foldl (\<lambda>result shift.
     let d = uint (drop_bit shift a AND 255) - uint (drop_bit shift b AND 255) in result + nat (d * d)) 0 [0, 8, 16]"

text \<open>Whether the loop of \<open>quantize\<close> considers an index, and the loop.\<close>

definition admissible :: "Fp \<Rightarrow> rgb \<Rightarrow> bool \<Rightarrow> nat \<Rightarrow> bool" where
  "admissible fp bg foreground i =
     (let candidate = term_index_rgb i in
      if foreground then \<not> term_contrast fp candidate bg < 7
      else \<not> (term_contrast fp 0 candidate < 7 \<and> term_contrast fp 0xffffff candidate < 7))"

definition quantize :: "Fp \<Rightarrow> rgb \<Rightarrow> rgb \<Rightarrow> bool \<Rightarrow> nat" where
  "quantize fp c bg foreground =
     fst (foldl (\<lambda>(pick, cost) i.
       if \<not> admissible fp bg foreground i then (pick, cost)
       else let d = distance c (term_index_rgb i) in if d < cost then (i, d) else (pick, cost))
     (16, 2 ^ 32 - 1) [16..<256])"

subsection \<open>The colour mode\<close>

datatype TermColors = TERM_COLORS_AUTO | TERM_COLORS_RGB | TERM_COLORS_256 | TERM_COLORS_MONO

definition term_colors_parse :: "bytes option \<Rightarrow> TermColors option" where
  "term_colors_parse name =
     (if name = None \<or> name = Some (lit ''auto'') then Some TERM_COLORS_AUTO
      else if name = Some (lit ''truecolor'') then Some TERM_COLORS_RGB
      else if name = Some (lit ''256'') then Some TERM_COLORS_256
      else if name = Some (lit ''mono'') then Some TERM_COLORS_MONO
      else None)"

definition colour_terms :: "bytes list" where
  "colour_terms = map lit [''xterm'', ''putty'', ''screen'', ''tmux'', ''rxvt'', ''foot'', ''kitty'',
     ''wezterm'', ''alacritty'', ''st-'', ''konsole'', ''256color'', ''direct'']"

definition term_colors_resolve :: "TermColors \<Rightarrow> bytes option \<Rightarrow> bytes option \<Rightarrow> TermColors" where
  "term_colors_resolve requested terminal colorterm =
     (if requested \<noteq> TERM_COLORS_AUTO then requested
      else
        let t = (case terminal of None \<Rightarrow> [] | Some t \<Rightarrow> t) in
        if t = lit ''dumb'' \<or> t = lit ''linux'' then TERM_COLORS_MONO
        else if list_ex (contains t) colour_terms then TERM_COLORS_256
        else TERM_COLORS_MONO)"

subsection \<open>Faces\<close>

definition TERM_FACE_COUNT :: nat where "TERM_FACE_COUNT = 11"
definition TERM_CURSOR_FACE :: nat where "TERM_CURSOR_FACE = 10"

record TermFace =
  fg :: rgb
  bg :: rgb
  fg256 :: nat
  bg256 :: nat
  reverse :: bool

record TermPalette =
  palette_source :: "rgb list" \<comment> \<open>10 colours\<close>
  face :: "TermFace list" \<comment> \<open>\<open>TERM_FACE_COUNT\<close> faces\<close>
  initialized :: bool

definition make_face :: "Fp \<Rightarrow> rgb list \<Rightarrow> rgb \<Rightarrow> nat \<Rightarrow> TermFace" where
  "make_face fp src bg0 i =
     (let b = (if i = 8 \<or> i = 9 then contrast_background fp (src ! i) else bg0);
          f = contrast_text fp (src ! (if i = 1 \<or> i \<ge> 8 then 0 else i)) b;
          (f, b, v) = (if i = TERM_CURSOR_FACE then (0x101018, 0xfff4b8, True) else (f, b, i = 8 \<or> i = 9));
          b256 = quantize fp b 0 False
      in \<lparr>fg = f, bg = b, fg256 = quantize fp f (term_index_rgb b256) True, bg256 = b256, reverse = v\<rparr>)"

definition term_palette_update :: "Fp \<Rightarrow> rgb list \<Rightarrow> TermPalette \<Rightarrow> TermPalette" where
  "term_palette_update fp src palette =
     (if initialized palette \<and> palette_source palette = src then palette
      else
        let bg0 = contrast_background fp (src ! 1) in
        palette\<lparr>palette_source := src, face := map (make_face fp src bg0) [0..<TERM_FACE_COUNT],
          initialized := True\<rparr>)"

definition csi :: "string \<Rightarrow> bytes" where
  "csi s = 27 # lit s"

definition term_face_write :: "TermPalette \<Rightarrow> TermColors \<Rightarrow> int \<Rightarrow> bytes" where
  "term_face_write palette mode i =
     (let i = (if i < 0 \<or> i \<ge> int TERM_FACE_COUNT then 0 else nat i);
          f = face palette ! i;
          mode = (if mode = TERM_COLORS_AUTO then TERM_COLORS_256 else mode);
          reset = (if reverse f then csi ''[0;7m'' else csi ''[0m'')
      in
        if mode = TERM_COLORS_MONO then reset
        else
          let (fi, bi) = (if reverse f then (bg256 f, fg256 f) else (fg256 f, bg256 f));
              (fc, bc) = (if reverse f then (bg f, fg f) else (fg f, bg f));
              part = (\<lambda>c shift. show_nat (unat (drop_bit shift c AND 255)))
          in
            if mode = TERM_COLORS_RGB
            then reset @ csi ''[38;2;'' @ part fc 16 @ lit '';'' @ part fc 8 @ lit '';'' @ part fc 0 @ lit ''m'' @
              csi ''[48;2;'' @ part bc 16 @ lit '';'' @ part bc 8 @ lit '';'' @ part bc 0 @ lit ''m''
            else reset @ csi ''[38;5;'' @ show_nat fi @ lit ''m'' @ csi ''[48;5;'' @ show_nat bi @ lit ''m'')"

subsection \<open>Floating point\<close>

text \<open>Rounding is exact at 0 and off by at most a thousandth elsewhere; \<open>pow\<close> is roughly right near 1.\<close>

definition fp_ok :: "Fp \<Rightarrow> bool" where
  "fp_ok fp \<longleftrightarrow> rnd fp 0 = 0 \<and> (\<forall>x. 1 / 1000 \<le> x \<and> x \<le> 1000 \<longrightarrow> \<bar>rnd fp x - x\<bar> \<le> x / 1000) \<and>
     (\<forall>x y. 9 / 10 \<le> x \<and> x \<le> 11 / 10 \<and> 2 \<le> y \<and> y \<le> 3 \<longrightarrow> 1 / 2 \<le> pow fp x y \<and> pow fp x y \<le> 2)"

lemma rnd_near:
  assumes "fp_ok fp" "a \<le> x" "x \<le> b" "1 / 1000 \<le> a" "b \<le> 1000"
  shows "a * 0.999 \<le> rnd fp x" "rnd fp x \<le> b * 1.001"
proof -
  have "\<bar>rnd fp x - x\<bar> \<le> x / 1000" using assms by (simp add: fp_ok_def)
  then have "- (x / 1000) \<le> rnd fp x - x" "rnd fp x - x \<le> x / 1000" by (simp_all only: abs_le_iff) linarith+
  then have "x * 0.999 \<le> rnd fp x" "rnd fp x \<le> x * 1.001" by (simp_all add: field_simps)
  then show "a * 0.999 \<le> rnd fp x" "rnd fp x \<le> b * 1.001" using assms by simp_all
qed

lemma luminance_black: "fp_ok fp \<Longrightarrow> luminance fp 0 = 0"
  using rnd_near [of fp "0.04045" "0.04045" "0.04045"]
  by (simp add: luminance_def linear_def Let_def fp_ok_def)

lemma linear_white:
  assumes ok: "fp_ok fp" shows "1 / 2 \<le> linear fp 255 \<and> linear fp 255 \<le> 2"
proof -
  note R = rnd_near [OF ok]
  let ?s = "rnd fp 1"
  have s: "0.999 \<le> ?s" "?s \<le> 1.001" using R [of 1 1 1] by simp_all
  have c: "0.054 \<le> rnd fp 0.055" "rnd fp 0.055 \<le> 0.056" "rnd fp 0.04045 \<le> 0.05"
    "1.053 \<le> rnd fp 1.055" "rnd fp 1.055 \<le> 1.057" "2 \<le> rnd fp 2.4" "rnd fp 2.4 \<le> 3"
    using R [of "0.055" "0.055" "0.055"] R [of "0.04045" "0.04045" "0.04045"] R [of "1.055" "1.055" "1.055"]
      R [of "2.4" "2.4" "2.4"] by simp_all
  have n: "1.05 \<le> rnd fp (?s + rnd fp 0.055)" "rnd fp (?s + rnd fp 0.055) \<le> 1.06"
    using R [of "1.053" "?s + rnd fp 0.055" "1.057"] s c by simp_all
  let ?q = "rnd fp (?s + rnd fp 0.055) / rnd fp 1.055"
  have "0.98 \<le> ?q" "?q \<le> 1.02"
    using n c by (simp_all add: field_simps)
  then have "0.9 \<le> rnd fp ?q" "rnd fp ?q \<le> 1.1" using R [of "0.98" ?q "1.02"] by simp_all
  then have "1 / 2 \<le> pow fp (rnd fp ?q) (rnd fp 2.4) \<and> pow fp (rnd fp ?q) (rnd fp 2.4) \<le> 2"
    using ok c by (simp add: fp_ok_def)
  then show ?thesis using s c by (simp add: linear_def Let_def)
qed

lemma luminance_white:
  assumes ok: "fp_ok fp" shows "0.4 \<le> luminance fp 0xffffff \<and> luminance fp 0xffffff \<le> 3"
proof -
  note R = rnd_near [OF ok]
  define l where "l = linear fp 255"
  have l: "0.5 \<le> l" "l \<le> 2" using linear_white [OF ok] by (simp_all add: l_def)
  have w: "luminance fp 0xffffff = rnd fp (rnd fp (rnd fp (rnd fp 0.2126 * l) + rnd fp (rnd fp 0.7152 * l)) +
      rnd fp (rnd fp 0.0722 * l))"
    by (simp add: luminance_def Let_def l_def)
  have c: "0.21 \<le> rnd fp 0.2126" "rnd fp 0.2126 \<le> 0.22" "0.71 \<le> rnd fp 0.7152" "rnd fp 0.7152 \<le> 0.72"
    "0.07 \<le> rnd fp 0.0722" "rnd fp 0.0722 \<le> 0.08"
    using R [of "0.2126" "0.2126" "0.2126"] R [of "0.7152" "0.7152" "0.7152"] R [of "0.0722" "0.0722" "0.0722"]
    by simp_all
  have m: "a * 0.5 * 0.999 \<le> rnd fp (k * l)" "rnd fp (k * l) \<le> b * 2 * 1.001"
    if "a \<le> k" "k \<le> b" "0.07 \<le> a" "b \<le> 1" for a b k
  proof -
    have "a * 0.5 \<le> k * l" by (rule mult_mono) (use that l in auto)
    moreover have "k * l \<le> b * 2" by (rule mult_mono) (use that l in auto)
    ultimately show "a * 0.5 * 0.999 \<le> rnd fp (k * l)" "rnd fp (k * l) \<le> b * 2 * 1.001"
      using R [of "a * 0.5" "k * l" "b * 2"] that by simp_all
  qed
  have t: "0.104 \<le> rnd fp (rnd fp 0.2126 * l)" "rnd fp (rnd fp 0.2126 * l) \<le> 0.45"
    "0.35 \<le> rnd fp (rnd fp 0.7152 * l)" "rnd fp (rnd fp 0.7152 * l) \<le> 1.45"
    "0.03 \<le> rnd fp (rnd fp 0.0722 * l)" "rnd fp (rnd fp 0.0722 * l) \<le> 0.17"
    using m [OF c(1,2)] m [OF c(3,4)] m [OF c(5,6)] by simp_all
  define u where "u = rnd fp (rnd fp (rnd fp 0.2126 * l) + rnd fp (rnd fp 0.7152 * l))"
  have u: "0.45 \<le> u" "u \<le> 1.91"
    using R [of "0.454" "rnd fp (rnd fp 0.2126 * l) + rnd fp (rnd fp 0.7152 * l)" "1.9"] t
    by (simp_all add: u_def)
  show ?thesis
    using R [of "0.48" "u + rnd fp (rnd fp 0.0722 * l)" "2.1"] u t(5,6) unfolding w u_def [symmetric] by simp
qed

lemma contrast_black_white:
  assumes ok: "fp_ok fp"
  shows "7.5 \<le> term_contrast fp 0 0xffffff" "7.5 \<le> term_contrast fp 0xffffff 0"
proof -
  note R = rnd_near [OF ok] and W = luminance_white [OF ok] and B = luminance_black [OF ok]
  let ?y = "luminance fp 0xffffff"
  define k where "k = rnd fp 0.05"
  have k: "0.0499 \<le> k" "k \<le> 0.0501" using R [of "0.05" "0.05" "0.05"] by (simp_all add: k_def)
  have d: "0.0498 \<le> rnd fp k" "rnd fp k \<le> 0.0502" using R [of "0.0499" k "0.0501"] k by simp_all
  have n: "0.44 \<le> rnd fp (?y + k)" "rnd fp (?y + k) \<le> 3.1"
    using R [of "0.4499" "?y + k" "3.0501"] W k by simp_all
  let ?q = "rnd fp (?y + k) / rnd fp k"
  have "8.7 \<le> ?q" "?q \<le> 100" using n d by (simp_all add: field_simps)
  then have "7.5 \<le> rnd fp ?q" using R [of "8.7" ?q 100] by simp
  then show "7.5 \<le> term_contrast fp 0 0xffffff" "7.5 \<le> term_contrast fp 0xffffff 0"
    using W B unfolding k_def by (simp_all add: term_contrast_def Let_def)
qed

subsection \<open>The colours chosen\<close>

text \<open>Both loops end with a colour that passes: the better of black and white, and black or white itself.\<close>

lemma contrast_text_ok:
  assumes "7 \<le> term_contrast fp 0 b \<or> 7 \<le> term_contrast fp 0xffffff b"
  shows "7 \<le> term_contrast fp (contrast_text fp f b) b"
  using assms by (auto simp: contrast_text_def Let_def find_Some_iff split: option.splits)

lemma contrast_background_ok:
  assumes "fp_ok fp"
  shows "7 \<le> term_contrast fp 0 (contrast_background fp b) \<or> 7 \<le> term_contrast fp 0xffffff (contrast_background fp b)"
proof -
  define tgt :: rgb where "tgt = (if luminance fp b < rnd fp 0.18 then 0 else 0xffffff)"
  define ink :: rgb where "ink = (if tgt \<noteq> 0 then 0 else 0xffffff)"
  have t: "ink = 0 \<or> ink = 0xffffff" "7.5 \<le> term_contrast fp ink tgt"
    using contrast_black_white [OF assms] by (auto simp: ink_def tgt_def)
  have "7.5 \<le> term_contrast fp ink (contrast_background fp b)"
    using t(2) unfolding contrast_background_def Let_def tgt_def [symmetric] ink_def [symmetric]
    by (auto simp: find_Some_iff split: option.splits)
  then have "7 \<le> term_contrast fp ink (contrast_background fp b)" by simp
  with t(1) show ?thesis by metis
qed

lemma square_bound: "\<bar>d\<bar> \<le> 255 \<Longrightarrow> d * d \<le> 65025" for d :: int
  using mult_mono [of "\<bar>d\<bar>" 255 "\<bar>d\<bar>" 255] by simp

lemma byte_part: "uint (c AND 255) \<le> 255" for c :: rgb
  using word_and_le1 [of c 255] by (simp add: word_le_def)

lemma distance_less: "distance a b < 2 ^ 32 - 1"
proof -
  have "\<bar>uint (x AND 255) - uint (y AND 255)\<bar> \<le> 255" for x y :: rgb
    using byte_part [of x] byte_part [of y] uint_ge_0 [of "x AND 255"] uint_ge_0 [of "y AND 255"] by linarith
  then have "nat ((uint (x AND 255) - uint (y AND 255)) * (uint (x AND 255) - uint (y AND 255))) \<le> 65025" for x y :: rgb
    by (simp add: nat_le_iff square_bound)
  note B = this [of "drop_bit 0 a" "drop_bit 0 b"] this [of "drop_bit 8 a" "drop_bit 8 b"]
    this [of "drop_bit 16 a" "drop_bit 16 b"]
  show ?thesis using B by (simp add: distance_def Let_def)
qed

text \<open>The loop of \<open>quantize\<close> keeps the first index of least distance.\<close>

lemma quantize_loop:
  fixes d :: "nat \<Rightarrow> nat"
  assumes "foldl (\<lambda>(pick, cost) i. if \<not> adm i then (pick, cost) else if d i < cost then (i, d i) else (pick, cost))
      (b0, c0) [m..<n] = (pick, cost)"
    and "\<And>i. d i < c0" "m \<le> n"
  shows "(\<forall>i \<in> {m..<n}. adm i \<longrightarrow> cost \<le> d i \<and> (d i = cost \<longrightarrow> pick \<le> i)) \<and> cost \<le> c0 \<and>
    (if \<exists>i \<in> {m..<n}. adm i then pick \<in> {m..<n} \<and> adm pick \<and> cost = d pick else pick = b0 \<and> cost = c0)"
  using assms(3,1)
proof (induction n arbitrary: pick cost rule: dec_induct)
  case (step n)
  obtain b c where bc: "foldl (\<lambda>(pick, cost) i. if \<not> adm i then (pick, cost) else if d i < cost then (i, d i) else (pick, cost))
      (b0, c0) [m..<n] = (b, c)" by (rule prod.exhaust)
  note IH = step.IH [OF bc]
  have s: "(pick, cost) = (if \<not> adm n then (b, c) else if d n < c then (n, d n) else (b, c))"
    using step.prems step.hyps bc by simp
  have less: "c0 > d n" by (rule assms(2))
  show ?case
  proof (cases "adm n \<and> d n < c")
    case True
    then show ?thesis using IH s less step.hyps by (auto simp: less_Suc_eq)
  next
    case False
    then have "pick = b" "cost = c" using s by (auto split: if_splits)
    moreover have "\<exists>i \<in> {m..<n}. adm i" if "adm n" using that False IH less by (auto split: if_splits)
    ultimately show ?thesis using IH False step.hyps by (auto simp: less_Suc_eq split: if_splits)
  qed
qed simp

lemma quantize_best:
  assumes "i \<in> {16..<256}" "admissible fp b f i"
  shows "quantize fp c b f \<in> {16..<256}" "admissible fp b f (quantize fp c b f)"
    "\<forall>i \<in> {16..<256}. admissible fp b f i \<longrightarrow>
       distance c (term_index_rgb (quantize fp c b f)) \<le> distance c (term_index_rgb i) \<and>
       (distance c (term_index_rgb i) = distance c (term_index_rgb (quantize fp c b f)) \<longrightarrow> quantize fp c b f \<le> i)"
proof -
  let ?d = "\<lambda>i. distance c (term_index_rgb i)"
  obtain pick cost where q: "foldl (\<lambda>(pick, cost) i. if \<not> admissible fp b f i then (pick, cost)
      else if ?d i < cost then (i, ?d i) else (pick, cost)) (16, 2 ^ 32 - 1) [16..<256] = (pick, cost)" by (rule prod.exhaust)
  have "quantize fp c b f = pick" by (simp only: quantize_def Let_def q fst_conv)
  moreover have "\<exists>i \<in> {16..<256}. admissible fp b f i" using assms by blast
  ultimately show "quantize fp c b f \<in> {16..<256}" "admissible fp b f (quantize fp c b f)"
    "\<forall>i \<in> {16..<256}. admissible fp b f i \<longrightarrow> ?d (quantize fp c b f) \<le> ?d i \<and>
       (?d i = ?d (quantize fp c b f) \<longrightarrow> quantize fp c b f \<le> i)"
    using quantize_loop [OF q distance_less] by auto
qed

lemma index_black_white: "term_index_rgb 16 = 0" "term_index_rgb 231 = 0xffffff"
  by (simp_all add: term_index_rgb_def levels_def)

lemma quantize_background:
  assumes "fp_ok fp"
  shows "quantize fp c 0 False \<in> {16..<256}"
    "\<exists>t \<in> {16, 231}. 7 \<le> term_contrast fp (term_index_rgb t) (term_index_rgb (quantize fp c 0 False))"
proof -
  have "admissible fp 0 False 16"
    using contrast_black_white(2) [OF assms] by (simp add: admissible_def index_black_white)
  note Q = quantize_best [OF _ this, of c]
  show "quantize fp c 0 False \<in> {16..<256}" using Q(1) by simp
  show "\<exists>t \<in> {16, 231}. 7 \<le> term_contrast fp (term_index_rgb t) (term_index_rgb (quantize fp c 0 False))"
    using Q(2) by (auto simp: admissible_def Let_def index_black_white not_less)
qed

lemma quantize_foreground:
  assumes "\<exists>t \<in> {16, 231}. 7 \<le> term_contrast fp (term_index_rgb t) b"
  shows "quantize fp c b True \<in> {16..<256}" "7 \<le> term_contrast fp (term_index_rgb (quantize fp c b True)) b"
proof -
  obtain t where "t \<in> {16, 231}" "7 \<le> term_contrast fp (term_index_rgb t) b" using assms by blast
  then have t: "t \<in> {16..<256}" "admissible fp b True t" by (auto simp: admissible_def)
  show "quantize fp c b True \<in> {16..<256}" using t by (rule quantize_best)
  show "7 \<le> term_contrast fp (term_index_rgb (quantize fp c b True)) b"
    using quantize_best(2) [OF t, of c] by (simp add: admissible_def)
qed

subsection \<open>Properties\<close>

text \<open>What a face promises: indices outside the 16 colours a user can redefine, and a contrast of at least 7
  in indexed colours and, the fixed cursor face aside, in true colour.\<close>

definition face_ok :: "Fp \<Rightarrow> nat \<Rightarrow> TermFace \<Rightarrow> bool" where
  "face_ok fp i f \<longleftrightarrow> fg256 f \<in> {16..<256} \<and> bg256 f \<in> {16..<256} \<and>
     7 \<le> term_contrast fp (term_index_rgb (fg256 f)) (term_index_rgb (bg256 f)) \<and>
     (i \<noteq> TERM_CURSOR_FACE \<longrightarrow> 7 \<le> term_contrast fp (fg f) (bg f))"

definition palette_ok :: "Fp \<Rightarrow> TermPalette \<Rightarrow> bool" where
  "palette_ok fp p \<longleftrightarrow> (initialized p \<longrightarrow> length (face p) = TERM_FACE_COUNT \<and>
     (\<forall>i < TERM_FACE_COUNT. face_ok fp i (face p ! i)))"

lemma make_face_ok:
  assumes ok: "fp_ok fp" and bg0: "bg0 = contrast_background fp c"
  shows "face_ok fp i (make_face fp src bg0 i)"
proof -
  define b where "b = (if i = 8 \<or> i = 9 then contrast_background fp (src ! i) else bg0)"
  define f where "f = contrast_text fp (src ! (if i = 1 \<or> i \<ge> 8 then 0 else i)) b"
  have "7 \<le> term_contrast fp 0 b \<or> 7 \<le> term_contrast fp 0xffffff b"
    using contrast_background_ok [OF ok] by (simp add: b_def bg0)
  then have c: "7 \<le> term_contrast fp f b" unfolding f_def by (rule contrast_text_ok)
  obtain f' b' v where t: "(if i = TERM_CURSOR_FACE then (0x101018, 0xfff4b8, True) else (f, b, i = 8 \<or> i = 9)) = (f', b', v)"
    by (rule prod_cases3)
  let ?q = "quantize fp b' 0 False"
  have m: "make_face fp src bg0 i = \<lparr>fg = f', bg = b', fg256 = quantize fp f' (term_index_rgb ?q) True,
      bg256 = ?q, reverse = v\<rparr>"
    by (simp only: make_face_def Let_def b_def [symmetric] f_def [symmetric] t prod.case)
  have "7 \<le> term_contrast fp f' b'" if "i \<noteq> TERM_CURSOR_FACE" using c t that by simp
  then show ?thesis
    unfolding m face_ok_def TermFace.simps
    using quantize_background(1) [OF ok] quantize_foreground [OF quantize_background(2) [OF ok]] by blast
qed


definition blank_palette :: TermPalette where
  "blank_palette = \<lparr>palette_source = [], face = [], initialized = False\<rparr>"

text \<open>Exact arithmetic.\<close>

definition exact :: Fp where
  "exact = \<lparr>rnd = (\<lambda>x. x), pow = (powr)\<rparr>"

lemma exact_ok: "fp_ok exact"
proof -
  have "1 / 2 \<le> x powr y \<and> x powr y \<le> 2" if "9 / 10 \<le> x" "x \<le> 11 / 10" "2 \<le> y" "y \<le> 3" for x y :: real
  proof
    have "1 / 2 \<le> (9 / 10 :: real) ^ 3" by (simp add: power3_eq_cube)
    also have "... = (9 / 10) powr 3" by (simp add: powr_numeral)
    also have "... \<le> (9 / 10) powr y" using that by (intro powr_mono') auto
    also have "... \<le> x powr y" using that by (intro powr_mono2) auto
    finally show "1 / 2 \<le> x powr y" .
    have "x powr y \<le> (11 / 10) powr y" using that by (intro powr_mono2) auto
    also have "... \<le> (11 / 10) powr 3" using that by (intro powr_mono) auto
    also have "... = (11 / 10) ^ 3" by (simp add: powr_numeral)
    also have "... \<le> (2 :: real)" by (simp add: power3_eq_cube)
    finally show "x powr y \<le> 2" .
  qed
  then show ?thesis by (simp add: fp_ok_def exact_def)
qed


text \<open>\<open>quantize\<close> picks, among the palette entries it may use, the one nearest to the colour, the first of them
  when several are as near.\<close>

theorem quantize_nearest:
  assumes "i \<in> {16..<256}" "admissible fp b f i" "quantize fp c b f = q"
  shows "q \<in> {16..<256} \<and> admissible fp b f q \<and> distance c (term_index_rgb q) \<le> distance c (term_index_rgb i) \<and>
    (distance c (term_index_rgb i) = distance c (term_index_rgb q) \<longrightarrow> q \<le> i)"
  using quantize_best [OF assms(1,2), of c] assms by simp

text \<open>The terminal is only sent 24-bit colours when the user asked for them; the mode that is resolved from the
  environment is indexed or monochrome.\<close>

theorem rgb_needs_opt_in:
  "(term_colors_resolve m t c = TERM_COLORS_RGB \<longleftrightarrow> m = TERM_COLORS_RGB) \<and>
   term_colors_resolve m t c \<noteq> TERM_COLORS_AUTO \<and>
   term_colors_resolve m t c = term_colors_resolve m t c'"
  by (auto simp: term_colors_resolve_def Let_def)

end
