(* ===== verification/Transport.thy ===== *)
theory Transport
  imports Editor_State
begin

section \<open>JSON values and line framing (\<open>src/transport.c\<close>)\<close>

text \<open>
  The helpers on JSON objects and the framing of a connection: one JSON text per line. The
  json-c library is represented by the values it stores: a null pointer is \<open>JNull\<close>, an object
  the list of its members with distinct names in insertion order, and a string the bytes it
  holds. Printing and parsing are parameters. A file descriptor is the list of what the
  kernel does next; \<open>None\<close> is a call that never returns because nothing more happens.
\<close>

subsection \<open>JSON values\<close>

datatype json = JNull | JBool bool | JInt int | JReal bytes | JString bytes | JArray "json list"
  | JObject "(bytes \<times> json) list"

fun json_field :: "json \<Rightarrow> bytes \<Rightarrow> json" where
  "json_field (JObject members) key = (case map_of members key of Some v \<Rightarrow> v | None \<Rightarrow> JNull)"
| "json_field _ key = JNull"

text \<open>A C string ends at its first NUL.\<close>

definition c_string :: "bytes \<Rightarrow> bytes" where
  "c_string s = takeWhile (\<lambda>c. c \<noteq> 0) s"

definition json_string :: "json \<Rightarrow> bytes \<Rightarrow> bytes option \<Rightarrow> bytes option" where
  "json_string obj key fallback = (case json_field obj key of JString s \<Rightarrow> Some (c_string s) | _ \<Rightarrow> fallback)"

text \<open>\<open>json_object_get_int64\<close> clips numbers beyond 64 bits.\<close>

definition clip64 :: "int \<Rightarrow> int" where
  "clip64 i = max (- (2 ^ 63)) (min (2 ^ 63 - 1) i)"

definition json_int :: "json \<Rightarrow> bytes \<Rightarrow> int \<Rightarrow> int" where
  "json_int obj key fallback = (case json_field obj key of JInt i \<Rightarrow> clip64 i | _ \<Rightarrow> fallback)"

definition jbool :: "json \<Rightarrow> bytes \<Rightarrow> bool \<Rightarrow> bool" where
  "jbool obj key fallback = (case json_field obj key of JBool b \<Rightarrow> b | _ \<Rightarrow> fallback)"

text \<open>\<open>json_object_object_add\<close> replaces a member of that name or adds one at the end.\<close>

fun put_member :: "bytes \<Rightarrow> json \<Rightarrow> (bytes \<times> json) list \<Rightarrow> (bytes \<times> json) list" where
  "put_member k v [] = [(k, v)]"
| "put_member k v ((k', v') # ms) = (if k = k' then (k, v) # ms else (k', v') # put_member k v ms)"

fun json_add :: "json \<Rightarrow> bytes \<Rightarrow> json \<Rightarrow> json" where
  "json_add (JObject members) k v = JObject (put_member k v members)"
| "json_add obj k v = obj"

definition json_set_string :: "json \<Rightarrow> bytes \<Rightarrow> bytes option \<Rightarrow> json" where
  "json_set_string obj key value = json_add obj key (JString (case value of Some s \<Rightarrow> s | None \<Rightarrow> []))"

definition json_set_int :: "json \<Rightarrow> bytes \<Rightarrow> int \<Rightarrow> json" where
  "json_set_int obj key value = json_add obj key (JInt value)"

definition request_new :: "bytes \<Rightarrow> json" where
  "request_new op = json_set_string (JObject []) (lit ''op'') (Some op)"

lemma map_of_put_member [simp]: "map_of (put_member k v ms) = (map_of ms)(k \<mapsto> v)"
  by (induction ms rule: put_member.induct) (auto simp: fun_eq_iff)

lemma json_field_add: "json_field (json_add (JObject ms) k v) k' = (if k' = k then v else json_field (JObject ms) k')"
  by simp

subsection \<open>Writing\<close>

text \<open>What one \<open>write\<close> does: take the first bytes (none is the result 0), be interrupted, or fail.\<close>

datatype write_event = Accept nat | Write_interrupted | Write_failed

fun protocol_write :: "write_event list \<Rightarrow> bytes \<Rightarrow> (bool \<times> bytes \<times> write_event list) option" where
  "protocol_write evs [] = Some (True, [], evs)"
| "protocol_write [] (c # s) = None"
| "protocol_write (Write_interrupted # evs) (c # s) = protocol_write evs (c # s)"
| "protocol_write (Write_failed # evs) (c # s) = Some (False, [], evs)"
| "protocol_write (Accept k # evs) (c # s) =
     (if k = 0 then Some (False, [], evs)
      else do {
        (ok, sent, evs) \<leftarrow> protocol_write evs (drop k (c # s));
        Some (ok, take k (c # s) @ sent, evs) })"

lemma protocol_write_sent:
  "protocol_write evs s = Some (ok, sent, evs') \<Longrightarrow> (\<exists>rest. s = sent @ rest \<and> (ok \<longleftrightarrow> rest = []))"
proof (induction evs s arbitrary: ok sent rule: protocol_write.induct)
  case (5 k evs c s)
  then show ?case
    by (auto split: if_splits bind_splits) (metis append_take_drop_id append_assoc)+
qed auto

subsection \<open>Reading a line\<close>

definition CP_MAX_FRAME :: nat where
  "CP_MAX_FRAME = 16 * 1024 * 1024"

text \<open>The bytes that arrive, an interrupted read, and the end or a failure of the connection. A read takes
  what fits; the rest stays for the next.\<close>

datatype read_result = Arrive bytes | Read_interrupted | Read_end

record Connection =
  conn_input :: bytes
  capacity :: nat

definition read_event_size :: "read_result \<Rightarrow> nat" where
  "read_event_size ev = (case ev of Arrive s \<Rightarrow> length s + 1 | _ \<Rightarrow> 1)"

definition grow_input :: "Connection \<Rightarrow> Connection" where
  "grow_input c =
     (if capacity c - length (conn_input c) < 4096 then
        let cap = (if capacity c \<noteq> 0 then capacity c * 2 else 8192);
            cap = (if cap > CP_MAX_FRAME + 1 then CP_MAX_FRAME + 1 else cap)
        in c\<lparr>capacity := cap\<rparr>
      else c)"

text \<open>The line before the first newline, and what follows it.\<close>

definition cut_line :: "bytes \<Rightarrow> (bytes \<times> bytes) option" where
  "cut_line s = (if 10 \<in> set s then Some (takeWhile (\<lambda>c. c \<noteq> 10) s, tl (dropWhile (\<lambda>c. c \<noteq> 10) s)) else None)"

function protocol_read_line :: "read_result list \<Rightarrow> Connection \<Rightarrow> (bytes option \<times> read_result list \<times> Connection) option" where
  "protocol_read_line evs c =
     (case cut_line (conn_input c) of
        Some (line, rest) \<Rightarrow> Some (Some line, evs, c\<lparr>conn_input := rest\<rparr>)
      | None \<Rightarrow>
        if length (conn_input c) \<ge> CP_MAX_FRAME then Some (None, evs, c)
        else
          let c = grow_input c; room = capacity c - length (conn_input c) in
          case evs of
            [] \<Rightarrow> None
          | Read_interrupted # evs \<Rightarrow> protocol_read_line evs c
          | Read_end # evs \<Rightarrow> Some (None, evs, c)
          | Arrive s # evs \<Rightarrow>
              if take room s = [] then Some (None, evs, c)
              else protocol_read_line (if drop room s = [] then evs else Arrive (drop room s) # evs)
                (c\<lparr>conn_input := conn_input c @ take room s\<rparr>))"
  by pat_completeness auto
termination
  by (relation "measure (\<lambda>(evs, c). sum_list (map read_event_size evs))") (auto simp: read_event_size_def Let_def)

declare protocol_read_line.simps [simp del]

subsection \<open>Requests over a connection\<close>

text \<open>\<open>connection_request\<close> with json-c's printer and parser as parameters.\<close>

definition connection_request :: "(json \<Rightarrow> bytes) \<Rightarrow> (bytes \<Rightarrow> json) \<Rightarrow> write_event list \<Rightarrow> read_result list \<Rightarrow>
    Connection \<Rightarrow> json \<Rightarrow> (json \<times> bytes \<times> Connection) option" where
  "connection_request print parse out inp c request =
     (let s = print request in
      if length s > CP_MAX_FRAME then Some (JNull, [], c)
      else do {
        (ok, sent, out) \<leftarrow> protocol_write out s;
        if \<not> ok then Some (JNull, sent, c)
        else do {
          (ok, sent', out) \<leftarrow> protocol_write out [10];
          if \<not> ok then Some (JNull, sent @ sent', c)
          else do {
            (line, inp, c) \<leftarrow> protocol_read_line inp c;
            Some (case line of None \<Rightarrow> JNull | Some l \<Rightarrow> parse (c_string l), sent @ sent', c) } } })"

subsection \<open>Framing\<close>

text \<open>The bytes still to come, when nothing goes wrong before them.\<close>

fun arriving :: "read_result list \<Rightarrow> bytes" where
  "arriving [] = []"
| "arriving (Arrive s # evs) = s @ arriving evs"
| "arriving (Read_interrupted # evs) = arriving evs"
| "arriving (Read_end # evs) = []"

text \<open>Every chunk holds bytes: a \<open>read\<close> of none is the end.\<close>

definition conn_ok :: "Connection \<Rightarrow> bool" where
  "conn_ok c \<longleftrightarrow> length (conn_input c) \<le> capacity c \<and> capacity c \<le> CP_MAX_FRAME + 1 \<and>
     (capacity c = 0 \<or> 8192 \<le> capacity c)"

lemma grow_input_ok:
  assumes "conn_ok c" "length (conn_input c) < CP_MAX_FRAME"
  shows "conn_ok (grow_input c)" "conn_input (grow_input c) = conn_input c"
    "length (conn_input c) < capacity (grow_input c)"
  using assms by (auto simp: conn_ok_def grow_input_def Let_def CP_MAX_FRAME_def)

lemma cut_line_append: "10 \<notin> set s \<Longrightarrow> cut_line (s @ 10 # rest) = Some (s, rest)"
  by (induction s) (auto simp: cut_line_def)

lemma cut_line_none: "cut_line s = None \<longleftrightarrow> 10 \<notin> set s"
  by (simp add: cut_line_def)

lemma cut_line_prefix:
  assumes "cut_line s = Some (l, r)" "s @ t = line @ 10 # rest" "10 \<notin> set line"
  shows "l = line \<and> r @ t = rest"
proof -
  obtain a b where s: "s = a @ 10 # b" "10 \<notin> set a" using assms(1) split_list_first [of 10 s] by (auto simp: cut_line_def split: if_splits)
  then have "a @ 10 # (b @ t) = line @ 10 # rest" using assms(2) by simp
  then have "a = line" "b @ t = rest"
    using s(2) assms(3) by (auto simp: append_eq_append_conv2 append_eq_Cons_conv Cons_eq_append_conv)
  then show ?thesis using assms(1) s cut_line_append [OF s(2)] by simp
qed

definition chunks_ok :: "read_result list \<Rightarrow> bool" where
  "chunks_ok evs \<longleftrightarrow> Arrive [] \<notin> set evs"

lemma cut_line_shorter: "cut_line s = Some (l, r) \<Longrightarrow> length r < length s"
proof -
  assume c: "cut_line s = Some (l, r)"
  then obtain a b where "s = a @ 10 # b" "10 \<notin> set a" using split_list_first [of 10 s] by (auto simp: cut_line_def split: if_splits)
  with c cut_line_append [of a b] show ?thesis by simp
qed

text \<open>What one read does when no line is complete: bytes that arrive go behind those kept, the rest stays in the socket.\<close>

definition after_read :: "nat \<Rightarrow> bytes \<Rightarrow> read_result list \<Rightarrow> read_result list" where
  "after_read space s evs = (if drop space s = [] then evs else Arrive (drop space s) # evs)"

lemma after_read_ok:
  "take space s @ arriving (after_read space s evs) = s @ arriving evs"
  "chunks_ok (Arrive s # evs) \<Longrightarrow> chunks_ok (after_read space s evs)"
proof -
  have "take space s @ (drop space s @ arriving evs) = s @ arriving evs" by (metis append_assoc append_take_drop_id)
  then show "take space s @ arriving (after_read space s evs) = s @ arriving evs" by (auto simp: after_read_def)
qed (auto simp: after_read_def chunks_ok_def)

lemma read_line_arrive:
  assumes "cut_line (conn_input c) = None" "length (conn_input c) < CP_MAX_FRAME" "space = capacity (grow_input c) - length (conn_input (grow_input c))"
    and "take space s \<noteq> []"
  shows "protocol_read_line (Arrive s # evs) c =
    protocol_read_line (after_read space s evs) ((grow_input c)\<lparr>conn_input := conn_input (grow_input c) @ take space s\<rparr>)"
  using assms by (subst protocol_read_line.simps) (simp add: Let_def after_read_def)

lemma read_line_interrupted:
  assumes "cut_line (conn_input c) = None" "length (conn_input c) < CP_MAX_FRAME"
  shows "protocol_read_line (Read_interrupted # evs) c = protocol_read_line evs (grow_input c)"
  using assms by (subst protocol_read_line.simps) (simp add: Let_def)

lemma read_line_frames:
  assumes "conn_ok c" "chunks_ok evs" "conn_input c @ arriving evs = line @ 10 # rest" "10 \<notin> set line"
    "length line < CP_MAX_FRAME"
  shows "\<exists>evs' c'. protocol_read_line evs c = Some (Some line, evs', c') \<and> conn_ok c' \<and> chunks_ok evs' \<and>
    conn_input c' @ arriving evs' = rest"
  using assms
proof (induction evs c rule: protocol_read_line.induct)
  case (1 evs c)
  show ?case
  proof (cases "cut_line (conn_input c)")
    case (Some p)
    obtain l r where p: "p = (l, r)" by fastforce
    have "l = line \<and> r @ arriving evs = rest" using Some p 1(5,6) cut_line_prefix by blast
    with Some p 1(3,4) less_imp_le [OF cut_line_shorter, of "conn_input c" l r] show ?thesis
      by (subst protocol_read_line.simps) (simp add: conn_ok_def)
  next
    case None
    then have "10 \<notin> set (conn_input c)" by (simp add: cut_line_none)
    then obtain more where line: "line = conn_input c @ more" "arriving evs = more @ 10 # rest"
      using 1(5,6) by (auto simp: append_eq_append_conv2 append_eq_Cons_conv Cons_eq_append_conv)
    then have short: "\<not> CP_MAX_FRAME \<le> length (conn_input c)" using 1(7) by simp
    let ?c = "grow_input c"
    let ?room = "capacity ?c - length (conn_input ?c)"
    have g: "conn_ok ?c" "conn_input ?c = conn_input c" "0 < ?room" using grow_input_ok [OF 1(3)] short by simp_all
    from line(2) obtain ev evs1 where evs: "evs = ev # evs1" by (cases evs) simp_all
    show ?thesis
    proof (cases ev)
      case (Arrive s)
      have t: "take ?room s \<noteq> []" using 1(4) evs Arrive g(3) by (auto simp: chunks_ok_def)
      let ?c' = "?c\<lparr>conn_input := conn_input ?c @ take ?room s\<rparr>"
      have "conn_ok ?c'" using g(1) by (auto simp: conn_ok_def)
      moreover have "conn_input ?c' @ arriving (after_read ?room s evs1) = line @ 10 # rest"
        using 1(5) evs Arrive g(2) after_read_ok(1) [of ?room s evs1] by simp
      moreover have "chunks_ok (after_read ?room s evs1)" using 1(4) evs Arrive after_read_ok(2) by simp
      ultimately show ?thesis
        using 1(1) [OF None short refl refl evs Arrive t, folded after_read_def] 1(6,7) read_line_arrive [OF None _ refl t, of evs1] short
        by (simp add: evs Arrive not_le)
    next
      case Read_interrupted
      then show ?thesis
        using 1(2) [OF None short refl refl evs Read_interrupted g(1)] 1(4-7) g(2) evs short
        by (simp add: read_line_interrupted [OF None] chunks_ok_def)
    qed (use line evs in simp)
  qed
qed

text \<open>A line sent over a connection is read back whole, however the kernel splits the bytes and however often
  the read is interrupted, and what follows it stays for the next call; the buffer stays within its limit.\<close>

theorem lines_are_framed:
  assumes "conn_ok c" "chunks_ok evs" "conn_input c @ arriving evs = line @ 10 # rest" "10 \<notin> set line"
    "length line < CP_MAX_FRAME"
  shows "\<exists>evs' c'. protocol_read_line evs c = Some (Some line, evs', c') \<and> conn_ok c' \<and> chunks_ok evs' \<and>
    conn_input c' @ arriving evs' = rest"
  using assms by (rule read_line_frames)

text \<open>A \<open>protocol_write\<close> that reports success has sent every byte, and one that fails has sent a proper prefix,
  however the kernel splits and interrupts the writes.\<close>

theorem writes_are_complete:
  assumes "protocol_write evs s = Some (ok, sent, evs')"
  shows "\<exists>rest. s = sent @ rest \<and> (ok \<longleftrightarrow> rest = [])"
  using assms by (rule protocol_write_sent)

end
