(* ===== verification/View.thy ===== *)
theory View
  imports Transport Syntax Motion
begin

section \<open>Screen snapshots (\<open>src/view.c\<close>)\<close>

text \<open>
  What the front ends are sent to draw. \<open>None\<close> is a call that does not return, or writes past
  the end of its array. Of the buffer a line is taken from, drawing only changes the column
  caches and the cached line states.
\<close>

subsection \<open>One line\<close>

definition color_span :: "nat \<Rightarrow> nat \<Rightarrow> nat \<Rightarrow> style_span list \<Rightarrow> style_span list" where
  "color_span a z style spans =
     (if a = z then spans
      else if spans \<noteq> [] \<and> snd (snd (last spans)) = style \<and> fst (snd (last spans)) = a
      then butlast spans @ [(fst (last spans), z, style)]
      else spans @ [(a, z, style)])"

text \<open>What one character adds to the display: the blanks of a tab that are in view, a control character in
  caret notation, a character that fits, or blanks for one cut at the right edge.\<close>

definition cells :: "nat \<Rightarrow> nat \<Rightarrow> nat \<Rightarrow> nat \<Rightarrow> 32 word \<Rightarrow> bytes \<Rightarrow> bytes" where
  "cells left ncols column width ch s =
     (if ch = 9 then map (\<lambda>_. 32) (filter (\<lambda>v. column + v \<ge> left \<and> column + v < left + ncols) [0..<width])
      else if column \<ge> left \<and> column + width \<le> left + ncols then
        (if ch < 32 \<or> ch = 127 then [94, if ch = 127 then 63 else ucast (ch + 64)] else s)
      else if column \<ge> left then replicate (left + ncols - column) 32
      else [])"

text \<open>The scanner's spans that end at or before the character are passed; the next may cover it.\<close>

definition style_at :: "nat \<Rightarrow> style_span list \<Rightarrow> nat" where
  "style_at rel spans = (case spans of [] \<Rightarrow> 0 | (a, z, style) # _ \<Rightarrow> if a \<le> rel then style else 0)"

text \<open>The loop over the characters, from the byte \<open>at\<close> of the line on; \<open>sel\<close> is the marked range.\<close>

function draw_chars :: "World \<Rightarrow> nat \<Rightarrow> nat \<Rightarrow> nat \<Rightarrow> (nat \<times> nat) option \<Rightarrow> nat \<Rightarrow> nat \<Rightarrow> bytes \<Rightarrow> nat \<Rightarrow>
    style_span list \<Rightarrow> bytes \<Rightarrow> style_span list \<Rightarrow> bytes \<times> style_span list" where
  "draw_chars w tab left ncols sel line_begin at s column found display styles =
     (if s \<noteq> [] \<and> column < left + ncols then
        let (ch, k) = utf8_decode s;
            width = (if ch = 9 then tab - column mod tab else char_width w ch);
            found = dropWhile (\<lambda>(a, z, style). z \<le> at - line_begin) found;
            style = style_at (at - line_begin) found;
            style = (case sel of Some (a, z) \<Rightarrow> if at \<ge> a \<and> at < z then 8 else style | None \<Rightarrow> style);
            shown = display @ cells left ncols column width ch (take k s)
        in draw_chars w tab left ncols sel line_begin (at + k) (drop k s) (column + width) found shown
             (color_span (length display) (length shown) style styles)
      else (display, styles))"
  by pat_completeness auto
termination
proof (relation "measure (\<lambda>(w, tab, left, ncols, sel, lb, at, s, column, found, display, styles). length s)", goal_cases)
  case (2 w tab left ncols sel lb at s column found display styles x ch k width found' style style' shown)
  then have "1 \<le> k" using utf8_decode_used [of s] by (metis snd_conv)
  with 2 show ?case by (cases s) auto
qed simp

declare draw_chars.simps [simp del]

definition json_spans :: "style_span list \<Rightarrow> json" where
  "json_spans spans = JArray (map (\<lambda>(a, z, style). JArray [JInt (int a), JInt (int z), JInt (int style)]) spans)"

definition visible_line :: "World \<Rightarrow> bool \<Rightarrow> nat \<Rightarrow> nat \<Rightarrow> nat \<Rightarrow> nat \<Rightarrow> Buffer \<Rightarrow> (json \<times> Buffer) option" where
  "visible_line w highlight row left ncols pt b =
     (let line_begin = text_line_start (buf_text b) row; z = line_end (buf_text b) row in do {
        ((at, column), b) \<leftarrow> editor_at_column_ex w b row left;
        let rawlen = (if z - at > ncols * 8 + 8 then ncols * 8 + 8 else z - at);
        let rawlen = bound_back (buf_text b) at rawlen;
        let raw = text_slice (buf_text b) at rawlen;
        let (b, found) = (if highlight \<and> text_size (buf_text b) \<le> 16 * 1024 * 1024 \<and> z - line_begin \<le> 256 * 1024
          then editor_line_spans row (text_slice (buf_text b) line_begin (z - line_begin)) b else (b, []));
        let sel = (if mark_active b then Some (min (mark b) pt, max (mark b) pt) else None);
        let (display, styles) = draw_chars w (tab_width b) left ncols sel line_begin at raw column found [] [];
        if length display + 1 > ncols * 8 + 16 then None
        else Some (JObject [(lit ''text'', JString display), (lit ''line'', JInt (int row)),
          (lit ''offset'', JInt (int at)), (lit ''spans'', json_spans styles)], b) })"

subsection \<open>Windows\<close>

record Frame =
  fx :: int
  fy :: int
  fwidth :: int
  fheight :: int
  fgutter :: int

text \<open>How many windows are shown, and where the \<open>v\<close>-th of them is.\<close>

definition shown_panes :: "Editor \<Rightarrow> int \<Rightarrow> int \<Rightarrow> int" where
  "shown_panes e rs cs =
     (let n = int (length (panes e)); n = (if split_vertical e \<and> cs div n < 12 then 1 else n) in
      if \<not> split_vertical e \<and> (rs - 1) div n < 3 then 1 else n)"

definition pane_frame :: "bool \<Rightarrow> bool \<Rightarrow> int \<Rightarrow> int \<Rightarrow> int \<Rightarrow> int \<Rightarrow> Frame" where
  "pane_frame vertical numbers rs cs n v =
     (let x = (if vertical then v * cs div n else 0); y = (if vertical then 0 else v * (rs - 1) div n);
          width = (if vertical then (v + 1) * cs div n - x else cs);
          height = (if vertical then rs - 1 else (v + 1) * (rs - 1) div n - y);
          gutter = (if numbers then 8 else 0)
      in \<lparr>fx = x, fy = y, fwidth = width, fheight = height, fgutter = (if gutter > width div 2 then 0 else gutter)\<rparr>)"

text \<open>The scrolling that keeps the cursor of the active window in view, along one axis.\<close>

definition scroll_to :: "nat \<Rightarrow> int \<Rightarrow> nat \<Rightarrow> nat" where
  "scroll_to pos extent first =
     (let first = (if pos < first then pos else first) in
      if int pos \<ge> int first + extent then nat (int pos - extent + 1) else first)"

fun pane_lines :: "World \<Rightarrow> bool \<Rightarrow> nat \<Rightarrow> nat \<Rightarrow> nat \<Rightarrow> nat \<Rightarrow> nat \<Rightarrow> Buffer \<Rightarrow> (json list \<times> Buffer) option" where
  "pane_lines w highlight physical 0 left ncols pt b = Some ([], b)"
| "pane_lines w highlight physical (Suc r) left ncols pt b = do {
     (line, b) \<leftarrow>
       (if physical \<ge> text_lines (buf_text b)
        then Some (JObject [(lit ''text'', JString []), (lit ''line'', JInt (- 1)), (lit ''spans'', JArray [])], b)
        else visible_line w highlight physical left ncols pt b);
     (lines, b) \<leftarrow> pane_lines w highlight (physical + 1) r left ncols pt b;
     Some (line # lines, b) }"

definition mode_line :: "Buffer \<Rightarrow> bool \<Rightarrow> nat \<Rightarrow> nat \<Rightarrow> bytes" where
  "mode_line b active row column = take 511
     ((if readonly b then lit ''%%-'' else if buf_state b \<noteq> saved_state b then lit ''**'' else lit ''--'') @ lit '' '' @
      (if active then lit ''>'' else lit '' '') @ lit '' '' @ take 120 (buf_name b) @ lit ''  '' @ show_nat (row + 1) @
      lit '':'' @ show_nat column @ lit ''  '' @ take 80 (buf_mode b) @ lit ''  '' @ lit (if crlf b then ''CRLF'' else ''LF''))"

text \<open>The members of a window.\<close>

definition pane_fields :: "nat \<Rightarrow> bool \<Rightarrow> Buffer \<Rightarrow> Pane \<Rightarrow> Frame \<Rightarrow> nat \<Rightarrow> nat \<Rightarrow> nat \<Rightarrow> (bytes \<times> json) list" where
  "pane_fields index active b p f pt row column =
     [(lit ''index'', JInt (int index)), (lit ''id'', JInt (buf_id b)), (lit ''x'', JInt (fx f)),
      (lit ''y'', JInt (fy f)), (lit ''width'', JInt (fwidth f)), (lit ''height'', JInt (fheight f)),
      (lit ''gutter'', JInt (fgutter f)), (lit ''top'', JInt (int (pane_top p))), (lit ''left'', JInt (int (pane_left p))),
      (lit ''point'', JInt (int pt)), (lit ''mark'', JInt (int (mark b))), (lit ''size'', JInt (int (text_size (buf_text b)))),
      (lit ''characters'', JInt (int (text_chars (buf_text b)))), (lit ''line_count'', JInt (int (text_lines (buf_text b)))),
      (lit ''revision'', JInt (int (revision b))), (lit ''cursor_row'', JInt (int row - int (pane_top p))),
      (lit ''cursor_col'', JInt (int column - int (pane_left p) + fgutter f)),
      (lit ''tab_width'', JInt (int (tab_width b))), (lit ''indent_width'', JInt (int (indent_width b))),
      (lit ''name'', JString (buf_name b)), (lit ''path'', JString (case path b of Some s \<Rightarrow> s | None \<Rightarrow> [])),
      (lit ''mode'', JString (buf_mode b)), (lit ''active'', JBool active),
      (lit ''modified'', JBool (buf_state b \<noteq> saved_state b)), (lit ''mark_active'', JBool (mark_active b)),
      (lit ''readonly'', JBool (readonly b)), (lit ''auto_indent'', JBool (auto_indent b))]"

text \<open>One window of the snapshot: \<open>v\<close> is its place on the screen, \<open>index\<close> its number. A window whose buffer is
  gone is left out.\<close>

definition pane_json :: "World \<Rightarrow> int \<Rightarrow> int \<Rightarrow> int \<Rightarrow> int \<Rightarrow> nat \<Rightarrow> Editor \<Rightarrow> (Editor \<times> json option) option" where
  "pane_json w rs cs n v index e =
     (let p = panes e ! index; active = (index = active_pane e) in
      case editor_by_id e (pane_buffer p) of
        None \<Rightarrow> Some (e, None)
      | Some i \<Rightarrow> do {
          let b = buffers e ! i;
          let pt = (if active then point b else pane_point p);
          let pt = (if pt > text_size (buf_text b) then text_size (buf_text b) else pt);
          let f = pane_frame (split_vertical e) (show_line_numbers e) rs cs n v;
          let textcols = fwidth f - fgutter f;
          let textrows = fheight f - 1;
          let row = text_line_of (buf_text b) pt;
          (column, b) \<leftarrow> editor_column w b pt;
          let p = (if active then p\<lparr>pane_top := scroll_to row textrows (pane_top p),
                     pane_left := scroll_to column textcols (pane_left p)\<rparr> else p);
          (lines, b) \<leftarrow> pane_lines w (show_highlight e) (pane_top p) (nat textrows) (pane_left p) (nat textcols) pt b;
          Some (e\<lparr>buffers := (buffers e)[i := b], panes := (panes e)[index := p]\<rparr>,
            Some (JObject (pane_fields index active b p f pt row column @ [(lit ''modeline'', JString (mode_line b active row column)),
              (lit ''lines'', JArray lines)]))) })"

fun panes_json :: "World \<Rightarrow> int \<Rightarrow> int \<Rightarrow> int \<Rightarrow> nat list \<Rightarrow> Editor \<Rightarrow> (Editor \<times> json list) option" where
  "panes_json w rs cs n [] e = Some (e, [])"
| "panes_json w rs cs n (v # vs) e = do {
     (e, one) \<leftarrow> pane_json w rs cs n (int v) (if n = 1 then active_pane e else v) e;
     (e, more) \<leftarrow> panes_json w rs cs n vs e;
     Some (e, (case one of None \<Rightarrow> [] | Some j \<Rightarrow> [j]) @ more) }"

definition clamp :: "int \<Rightarrow> int \<Rightarrow> int \<Rightarrow> int" where
  "clamp lo hi i = (let i = (if i < lo then lo else i) in if i > hi then hi else i)"

definition editor_snapshot :: "World \<Rightarrow> int \<Rightarrow> int \<Rightarrow> Editor \<Rightarrow> (Editor \<times> json) option" where
  "editor_snapshot w rs cs e =
     (let rs = clamp 4 200 rs; cs = clamp 12 500 cs; e = e\<lparr>rows := rs, cols := cs\<rparr>;
          fields = [(lit ''protocol'', JInt 1), (lit ''kill_generation'', JInt (int (kill_generation e))),
            (lit ''rows'', JInt rs), (lit ''cols'', JInt cs), (lit ''message'', JString (message e)),
            (lit ''prompt'', JString (prompt_label e)), (lit ''input'', JString (input e)),
            (lit ''input_point'', JInt (int (input_point e))), (lit ''prefix'', JString (key_prefix e)),
            (lit ''quit'', JBool (quit e)), (lit ''detach'', JBool (detach e)), (lit ''theme'', JString (theme e)),
            (lit ''font'', JString (font e)), (lit ''font_size'', JInt (font_size e)),
            (lit ''colors'', JArray (map (\<lambda>c. JInt (int c)) (colors e)))];
          e = upd_pane (active_pane e) (\<lambda>p. p\<lparr>pane_point := point (editor_buffer e)\<rparr>) e;
          n = shown_panes e rs cs
      in do {
        (e, ps) \<leftarrow> panes_json w rs cs n [0..<nat n] e;
        Some (e, JObject (fields @ [(lit ''panes'', JArray ps)])) })"

subsection \<open>The display array\<close>

text \<open>No character of zero width.\<close>

definition wide :: "World \<Rightarrow> bytes \<Rightarrow> bool" where
  "wide w s \<longleftrightarrow> (\<forall>i < length s. boundary s i \<longrightarrow> 0 < char_width w (fst (utf8_decode (drop i s))))"

lemma wide_char:
  assumes "text_scalar c" "utf8_valid s" "wide w (utf8_encode c @ s)"
  shows "0 < char_width w (word_of_nat c)" "wide w s"
proof -
  have v: "utf8_valid (utf8_encode c @ s)" using assms(1,2) by (simp add: decode_valid_step)
  then show "0 < char_width w (word_of_nat c)"
    using assms(1,3) encode_nonempty [of c] boundary_0 [OF v]
    by (force simp: wide_def decode_encode text_scalar_def dest: spec [of _ 0])
  show "wide w s"
    unfolding wide_def
  proof (intro allI impI)
    fix i assume "i < length s" "boundary s i"
    then show "0 < char_width w (fst (utf8_decode (drop i s)))"
      using assms(3) boundary_suffix [of "utf8_encode c" s i] by (auto simp: wide_def dest: spec [of _ "length (utf8_encode c) + i"])
  qed
qed

lemma draw_char:
  fixes w :: World and tab column :: nat
  assumes "text_scalar c" "column < left + ncols"
  defines "ch \<equiv> word_of_nat c :: 32 word" and "k \<equiv> length (utf8_encode c)"
  defines "width \<equiv> (if ch = 9 then tab - column mod tab else char_width w ch)"
  shows "\<exists>found' styles'. draw_chars w tab left ncols sel lb at (utf8_encode c @ s) column found display styles =
    draw_chars w tab left ncols sel lb (at + k) s (column + width) found'
      (display @ cells left ncols column width ch (utf8_encode c)) styles'"
  using assms by (subst draw_chars.simps) (simp add: encode_nonempty decode_encode text_scalar_def Let_def, blast)

lemma draw_chars_stop: "s = [] \<or> column \<ge> left + ncols \<Longrightarrow>
    draw_chars w tab left ncols sel lb at s column found display styles = (display, styles)"
  by (subst draw_chars.simps) auto

lemma tab_cells: "length (filter (\<lambda>v. left \<le> column + v \<and> column + v < left + ncols) [0..<width]) + (left + ncols - max left (column + width))
    \<le> left + ncols - max left column"
proof (induction width)
  case (Suc width)
  then show ?case by (auto simp: max_def split: if_splits)
qed simp

lemma cells_length:
  assumes "0 < width" "length s \<le> 4" "column < left + ncols"
  shows "length (cells left ncols column width ch s) + 4 * (left + ncols - max left (column + width))
    \<le> 4 * (left + ncols - max left column)"
  using assms tab_cells [of left column ncols width] by (auto simp: cells_def max_def split: if_splits)

lemma draw_length:
  assumes "utf8_valid s" "wide w s" "0 < tab"
  shows "length (fst (draw_chars w tab left ncols sel lb at s column found display styles))
    \<le> length display + 4 * (left + ncols - max left column)"
  using assms
proof (induction arbitrary: at column found display styles rule: utf8_valid_induct)
  case (Char c s)
  show ?case
  proof (cases "column < left + ncols")
    case True
    let ?ch = "word_of_nat c :: 32 word"
    let ?width = "if ?ch = 9 then tab - column mod tab else char_width w ?ch"
    let ?cells = "cells left ncols column ?width ?ch (utf8_encode c)"
    note W = wide_char [OF Char.hyps(1,2) Char.prems(1)]
    obtain found' styles' where d: "draw_chars w tab left ncols sel lb at (utf8_encode c @ s) column found display styles =
      draw_chars w tab left ncols sel lb (at + length (utf8_encode c)) s (column + ?width) found' (display @ ?cells) styles'"
      using draw_char [OF Char.hyps(1) True] by blast
    have "0 < ?width" using W(1) Char.prems(2) by simp
    moreover have "length (utf8_encode c) \<le> 4" by (simp add: utf8_encode_def)
    ultimately show ?thesis
      unfolding d using cells_length [OF _ _ True, of ?width "utf8_encode c" ?ch]
        Char.IH [OF W(2) Char.prems(2), of "at + length (utf8_encode c)" "column + ?width" found' "display @ ?cells" styles']
      by simp
  next
    case False
    then show ?thesis by (simp add: draw_chars_stop)
  qed
qed (simp add: draw_chars_stop)

lemma valid_first_char: "utf8_valid s \<Longrightarrow> s \<noteq> [] \<Longrightarrow> \<exists>c t. s = utf8_encode c @ t \<and> text_scalar c \<and> utf8_valid t"
  by (induction rule: utf8_valid_induct) blast+

lemma wide_seg:
  assumes "utf8_valid xs" "wide w xs" "boundary xs at" "boundary xs (at + n)"
  shows "wide w (seg at n xs)"
  unfolding wide_def
proof (intro allI impI)
  fix i assume i: "i < length (seg at n xs)" "boundary (seg at n xs) i"
  let ?s = "seg at n xs"
  have le: "at + n \<le> length xs" using assms(4) by (rule boundary_le)
  have b: "boundary xs (at + i)" using boundary_of_seg [OF i(2) le assms(4)] .
  have v: "utf8_valid (drop i ?s)" using valid_cut [OF valid_seg [OF assms(1,3,4)] i(2)] by simp
  obtain c t where c: "drop i ?s = utf8_encode c @ t" "text_scalar c"
  proof -
    have "drop i ?s \<noteq> []" using i(1) by (simp only: drop_eq_Nil not_le)
    from valid_first_char [OF v this] that show thesis by blast
  qed
  have l: "i - length (take n (drop at xs)) = 0" using i(1) le by simp
  have "drop i (drop at xs) = drop i (take n (drop at xs)) @ drop n (drop at xs)"
    using drop_append [of i "take n (drop at xs)" "drop n (drop at xs)"] unfolding append_take_drop_id l drop_0 .
  then have "drop (at + i) xs = drop i ?s @ drop (at + n) xs" by (simp only: seg_def drop_drop add.commute)
  then have "utf8_decode (drop (at + i) xs) = utf8_decode (drop i ?s)"
    using c by (simp add: decode_encode text_scalar_def)
  moreover have "at + i < length xs" using i(1) le by simp
  ultimately show "0 < char_width w (fst (utf8_decode (drop i ?s)))"
    using assms(2) b by (auto simp: wide_def)
qed

text \<open>The pieces of \<open>visible_line\<close>: where the line's drawing starts, and the bytes it draws.\<close>

lemma visible_line_parts:
  fixes row left ncols :: nat
  assumes inv: "text_inv (buf_text b)" and ok: "caches_ok w b"
  defines "xs \<equiv> content b" and "start \<equiv> line_start (content b) row" and "z \<equiv> line_end (buf_text b) row"
  obtains i col c b1 raw where
    "seek w (tab_width b) (seg start (z - start) xs) 0 left = (i, col)"
    "b1 = b\<lparr>seek_cache := c\<rparr>" "caches_ok w b1"
    "raw = seg (start + i) (bound_back (buf_text b) (start + i) (min (z - (start + i)) (ncols * 8 + 8))) xs"
    "utf8_valid raw" "boundary xs (start + i)" "boundary xs (start + i + length raw)"
    "\<And>highlight pt. \<exists>b' found. visible_line w highlight row left ncols pt b =
      (let (display, styles) = draw_chars w (tab_width b) left ncols
           (if mark_active b then Some (min (mark b) pt, max (mark b) pt) else None) start (start + i) raw col found [] [] in
       if length display + 1 > ncols * 8 + 16 then None
       else Some (JObject [(lit ''text'', JString display), (lit ''line'', JInt (int row)),
         (lit ''offset'', JInt (int (start + i))), (lit ''spans'', json_spans styles)], b')) \<and> relexed b1 b'"
proof -
  have v: "utf8_valid xs" unfolding xs_def using inv by (rule text_inv_valid)
  obtain i col where s: "seek w (tab_width b) (seg start (z - start) xs) 0 left = (i, col)" by fastforce
  obtain b1 c where e: "editor_at_column_ex w b row left = Some ((start + i, col), b1)" "b1 = b\<lparr>seek_cache := c\<rparr>"
    and ok1: "caches_ok w b1"
    using editor_at_column_ok [OF inv ok refl refl, of row left] s by (auto simp: xs_def start_def z_def)
  have bz: "boundary xs z" "start \<le> z" using line_end_ok [OF inv, of row] by (simp_all add: xs_def start_def z_def)
  have bs: "boundary xs start" unfolding start_def xs_def using v [unfolded xs_def] by (rule line_start_boundary)
  have zz: "start + (z - start) = z" using bz(2) by simp
  have vl: "utf8_valid (seg start (z - start) xs)" using v bs bz by (intro valid_seg) simp_all
  have bi: "boundary (seg start (z - start) xs) i" using seek_boundary [OF vl, of w "tab_width b" 0 left] s by simp
  have bat: "boundary xs (start + i)" using boundary_of_seg [OF bi] bz boundary_le [OF bz(1)] by simp
  let ?n = "bound_back (buf_text b) (start + i) (min (z - (start + i)) (ncols * 8 + 8))"
  define raw where "raw = seg (start + i) ?n xs"
  have nb: "boundary xs (start + i + ?n)"
    using bound_back_boundary [of "buf_text b" "start + i" "min (z - (start + i)) (ncols * 8 + 8)"] bat inv
    by (cases "?n = 0") (auto simp: text_boundary_content xs_def)
  then have len: "length raw = ?n" using boundary_le [OF nb] by (simp add: raw_def)
  have "\<exists>b' found. visible_line w highlight row left ncols pt b =
      (let (display, styles) = draw_chars w (tab_width b) left ncols
           (if mark_active b then Some (min (mark b) pt, max (mark b) pt) else None) start (start + i) raw col found [] [] in
       if length display + 1 > ncols * 8 + 16 then None
       else Some (JObject [(lit ''text'', JString display), (lit ''line'', JInt (int row)),
         (lit ''offset'', JInt (int (start + i))), (lit ''spans'', json_spans styles)], b')) \<and> relexed b1 b'" for highlight pt
  proof -
    define hl where "hl \<longleftrightarrow> highlight \<and> text_size (buf_text b) \<le> 16 * 1024 * 1024 \<and> z - start \<le> 256 * 1024"
    obtain b' found where f: "(if hl then editor_line_spans row (text_slice (buf_text b) start (z - start)) b1 else (b1, [])) = (b', found)"
      by fastforce
    have r: "relexed b1 b'" using f line_spans_relexed relexed_refl by (auto split: if_splits)
    have ts: "text_line_start (buf_text b) row = start" using inv by (simp add: text_line_start_ok start_def)
    have mn: "(if z - (start + i) > ncols * 8 + 8 then ncols * 8 + 8 else z - (start + i)) = min (z - (start + i)) (ncols * 8 + 8)"
      by simp
    have sl: "text_slice (buf_text b) (start + i) ?n = raw" using inv by (simp add: text_slice_ok raw_def xs_def)
    have b1: "buf_text b1 = buf_text b" "tab_width b1 = tab_width b" "mark_active b1 = mark_active b" "mark b1 = mark b"
      by (simp_all add: e(2))
    have "visible_line w highlight row left ncols pt b =
      (let (display, styles) = draw_chars w (tab_width b) left ncols
           (if mark_active b then Some (min (mark b) pt, max (mark b) pt) else None) start (start + i) raw col found [] [] in
       if length display + 1 > ncols * 8 + 16 then None
       else Some (JObject [(lit ''text'', JString display), (lit ''line'', JInt (int row)),
         (lit ''offset'', JInt (int (start + i))), (lit ''spans'', json_spans styles)], b'))"
      by (simp only: visible_line_def Let_def ts z_def [symmetric] e(1) Option.bind.bind_lunit prod.case b1 mn sl
          hl_def [symmetric] f relexedD [OF r] split_def fst_conv snd_conv)
    with r show ?thesis by blast
  qed
  moreover have "utf8_valid raw" using valid_seg [OF v bat nb] by (simp add: raw_def)
  moreover have "boundary xs (start + i + length raw)" using nb len by simp
  ultimately show thesis using that [OF s e(2) ok1 raw_def _ bat] by blast
qed

text \<open>What drawing keeps of a buffer.\<close>

definition redrawn :: "World \<Rightarrow> Buffer \<Rightarrow> Buffer \<Rightarrow> bool" where
  "redrawn w b b' \<longleftrightarrow> caches_ok w b' \<and> buf_text b' = buf_text b \<and> tab_width b' = tab_width b \<and>
     buf_id b' = buf_id b \<and> point b' = point b"

lemma redrawn_trans: "redrawn w a b \<Longrightarrow> redrawn w b c \<Longrightarrow> redrawn w a c"
  by (simp add: redrawn_def)

lemma visible_line_wide:
  assumes "text_inv (buf_text b)" "caches_ok w b" "wide w (content b)" "0 < tab_width b"
  shows "\<exists>j b'. visible_line w highlight row left ncols pt b = Some (j, b') \<and> redrawn w b b'"
proof (rule visible_line_parts [OF assms(1,2), of row left ncols])
  fix i col c b1 raw
  assume b1: "b1 = b\<lparr>seek_cache := c\<rparr>" "caches_ok w b1"
  let ?start = "line_start (content b) row"
  assume raw: "raw = seg (?start + i) (bound_back (buf_text b) (?start + i)
      (min (line_end (buf_text b) row - (?start + i)) (ncols * 8 + 8))) (content b)"
    and v: "utf8_valid raw" "boundary (content b) (?start + i)" "boundary (content b) (?start + i + length raw)"
    and vis: "\<And>highlight pt. \<exists>b' found. visible_line w highlight row left ncols pt b =
      (let (display, styles) = draw_chars w (tab_width b) left ncols
           (if mark_active b then Some (min (mark b) pt, max (mark b) pt) else None) ?start (?start + i) raw col found [] [] in
       if length display + 1 > ncols * 8 + 16 then None
       else Some (JObject [(lit ''text'', JString display), (lit ''line'', JInt (int row)),
         (lit ''offset'', JInt (int (?start + i))), (lit ''spans'', json_spans styles)], b')) \<and> relexed b1 b'"
  have "seg at (length (seg at n xs)) xs = seg at n xs" for at n and xs :: bytes
    by (cases "n \<le> length xs - at") (simp_all add: seg_def)
  then have "raw = seg (?start + i) (length raw) (content b)" by (simp only: raw)
  then have "wide w raw" using wide_seg [OF text_inv_valid [OF assms(1)] assms(3) v(2,3)] by simp
  then have "length (fst (draw_chars w (tab_width b) left ncols sel lb at raw col found [] [])) \<le> 4 * ncols" for sel lb at found
    using draw_length [OF v(1) _ assms(4), of w left ncols sel lb at col found "[]" "[]"] by (simp add: max_def split: if_splits)
  then have "\<not> length (fst (draw_chars w (tab_width b) left ncols sel lb at raw col found [] [])) + 1 > ncols * 8 + 16"
    for sel lb at found by (simp add: not_less le_trans [of _ "4 * ncols"])
  then obtain b' found where "visible_line w highlight row left ncols pt b =
      (let (display, styles) = draw_chars w (tab_width b) left ncols
           (if mark_active b then Some (min (mark b) pt, max (mark b) pt) else None) ?start (?start + i) raw col found [] [] in
        Some (JObject [(lit ''text'', JString display), (lit ''line'', JInt (int row)),
         (lit ''offset'', JInt (int (?start + i))), (lit ''spans'', json_spans styles)], b'))" "relexed b1 b'"
    using vis [of highlight pt] by (auto simp only: case_prod_beta Let_def if_False)
  moreover have "redrawn w b b'" if "relexed b1 b'" for b'
    using relexedD [OF that] b1(2) by (simp add: redrawn_def b1(1) caches_ok_def)
  ultimately show ?thesis by (auto simp only: case_prod_beta Let_def)
qed

text \<open>Drawing a run of one character of zero width, and one character after another on concrete lines.\<close>

lemma draw_zero_run:
  assumes "text_scalar c" "c \<noteq> 9" "char_width w (word_of_nat c) = 0" "left \<le> column" "column < left + ncols"
    and "\<not> ((word_of_nat c :: 32 word) < 32 \<or> (word_of_nat c :: 32 word) = 127)" "(word_of_nat c :: 32 word) \<noteq> 9"
  shows "\<exists>at' found' styles'. draw_chars w tab left ncols sel lb at (concat (replicate k (utf8_encode c)) @ s) column found display styles =
    draw_chars w tab left ncols sel lb at' s column found' (display @ concat (replicate k (utf8_encode c))) styles'"
proof (induction k arbitrary: at found display styles)
  case 0
  show ?case by simp blast
next
  case (Suc k)
  have "cells left ncols column 0 (word_of_nat c) (utf8_encode c) = utf8_encode c"
    using assms(4-7) by (simp add: cells_def)
  then obtain found' styles' where d: "draw_chars w tab left ncols sel lb at
      (utf8_encode c @ concat (replicate k (utf8_encode c)) @ s) column found display styles =
    draw_chars w tab left ncols sel lb (at + length (utf8_encode c)) (concat (replicate k (utf8_encode c)) @ s) column
      found' (display @ utf8_encode c) styles'"
    using draw_char [OF assms(1,5), of w tab sel lb at "concat (replicate k (utf8_encode c)) @ s" found display styles]
      assms(3,7) by auto
  then show ?case using Suc.IH [of "at + length (utf8_encode c)" found' "display @ utf8_encode c" styles'] by auto
qed

lemma draw_tab:
  assumes "left \<le> column" "column + (tab - column mod tab) \<le> left + ncols" "column < left + ncols"
  shows "\<exists>at' found' styles'. draw_chars w tab left ncols sel lb at (9 # s) column found display styles =
    draw_chars w tab left ncols sel lb at' s (column + (tab - column mod tab)) found'
      (display @ replicate (tab - column mod tab) 32) styles'"
proof -
  have e: "utf8_encode 9 = [9]" by code_simp
  have "filter (\<lambda>v. left \<le> column + v \<and> column + v < left + ncols) [0..<tab - column mod tab] = [0..<tab - column mod tab]"
    using assms by (intro filter_True) auto
  then have "cells left ncols column (tab - column mod tab) 9 [9] = replicate (tab - column mod tab) 32"
    by (simp add: cells_def map_replicate_const)
  moreover have "text_scalar 9" by (simp add: text_scalar_def scalar_def)
  ultimately show ?thesis
    using draw_char [of 9 column left ncols w tab sel lb at s found display styles] assms(3) by (auto simp: e)
qed

lemma line_end_single:
  assumes "text_inv t" "10 \<notin> set (text_content t)"
  shows "line_end t 0 = length (text_content t)"
proof -
  have "count_nl (text_content t) = 0" using assms(2) by (auto simp: count_nl_zero is_nl_def)
  then have "line_start (text_content t) 1 = length (text_content t)" by (simp add: line_start_past)
  moreover have "\<not> is_nl (text_content t ! (length (text_content t) - 1))" if "text_content t \<noteq> []"
  proof -
    have "text_content t ! (length (text_content t) - 1) \<in> set (text_content t)" using that by (intro nth_mem) simp
    then show ?thesis using assms(2) by (metis is_nl_def)
  qed
  ultimately show ?thesis
    using assms(1) by (auto simp: line_end_def Let_def text_line_start_ok text_byte_content)
qed

subsection \<open>Properties\<close>

text \<open>A line without characters of zero width is always drawn: \<open>visible_line\<close> returns, and what it writes fits
  the array it allocated, for every scroll position, width and selection.\<close>

theorem wide_lines_fit:
  assumes "text_inv (buf_text b)" "caches_ok w b" "wide w (content b)" "0 < tab_width b"
  shows "\<exists>j b'. visible_line w highlight row left ncols pt b = Some (j, b')"
  using visible_line_wide [OF assms, of highlight row left ncols pt] by blast

text \<open>A letter, fifty accents of width zero and three tabs: 112 bytes for twelve columns.\<close>

lemma draw_accents:
  assumes w: "char_width w 0x301 = 0" "char_width w 97 = 1" and r: "raw = [97] @ concat (replicate 50 [0xCC, 0x81]) @ [9, 9, 9]"
  shows "length (fst (draw_chars w 4 0 12 sel lb at raw 0 found [] styles)) = 112"
proof -
  let ?acc = "[0xCC, 0x81] :: bytes"
  have e: "utf8_encode 0x301 = ?acc" "utf8_encode 97 = [97]" by code_simp+
  have c: "text_scalar 0x301" "text_scalar 97" by (simp_all add: text_scalar_def scalar_def)
  have acc: "length (concat (replicate n ?acc)) = 2 * n" for n by (induction n) auto
  have c1: "cells 0 12 0 1 97 [97] = [97]" by (simp add: cells_def)
  obtain f1 s1 where 1: "draw_chars w 4 0 12 sel lb at raw 0 found [] styles =
      draw_chars w 4 0 12 sel lb (at + 1) (concat (replicate 50 ?acc) @ [9, 9, 9]) 1 f1 [97] s1"
    using draw_char [OF c(2), of 0 0 12 w 4 sel lb at "concat (replicate 50 ?acc) @ [9, 9, 9]" found "[]" styles]
    by (auto simp: r e w c1 [unfolded One_nat_def])
  obtain a2 f2 s2 where 2: "draw_chars w 4 0 12 sel lb (at + 1) (concat (replicate 50 ?acc) @ [9, 9, 9]) 1 f1 [97] s1 =
      draw_chars w 4 0 12 sel lb a2 [9, 9, 9] 1 f2 ([97] @ concat (replicate 50 ?acc)) s2"
    using draw_zero_run [OF c(1), of w 0 1 12 4 sel lb "at + 1" 50 "[9, 9, 9]" f1 "[97]" s1] w(1) by (auto simp: e)
  obtain a3 f3 s3 where 3: "draw_chars w 4 0 12 sel lb a2 [9, 9, 9] 1 f2 ([97] @ concat (replicate 50 ?acc)) s2 =
      draw_chars w 4 0 12 sel lb a3 [9, 9] 4 f3 (([97] @ concat (replicate 50 ?acc)) @ replicate 3 32) s3"
    using draw_tab [of 0 1 4 12 w sel lb a2 "[9, 9]" f2 "[97] @ concat (replicate 50 ?acc)" s2] by auto
  obtain a4 f4 s4 where 4: "draw_chars w 4 0 12 sel lb a3 [9, 9] 4 f3 (([97] @ concat (replicate 50 ?acc)) @ replicate 3 32) s3 =
      draw_chars w 4 0 12 sel lb a4 [9] 8 f4 ((([97] @ concat (replicate 50 ?acc)) @ replicate 3 32) @ replicate 4 32) s4"
    using draw_tab [of 0 4 4 12 w sel lb a3 "[9]" f3 "([97] @ concat (replicate 50 ?acc)) @ replicate 3 32" s3] by auto
  obtain a5 f5 s5 where 5: "draw_chars w 4 0 12 sel lb a4 [9] 8 f4 ((([97] @ concat (replicate 50 ?acc)) @ replicate 3 32) @ replicate 4 32) s4 =
      draw_chars w 4 0 12 sel lb a5 [] 12 f5 (((([97] @ concat (replicate 50 ?acc)) @ replicate 3 32) @ replicate 4 32) @ replicate 4 32) s5"
    using draw_tab [of 0 8 4 12 w sel lb a4 "[]" f4 "(([97] @ concat (replicate 50 ?acc)) @ replicate 3 32) @ replicate 4 32" s4] by auto
  have "fst (draw_chars w 4 0 12 sel lb at raw 0 found [] styles) =
      ((([97] @ concat (replicate 50 ?acc)) @ replicate 3 32) @ replicate 4 32) @ replicate 4 32"
    unfolding 1 2 3 4 5 by (subst draw_chars_stop) simp_all
  then show ?thesis using acc(1) [of 50] by (simp only: length_append length_replicate) simp
qed

text \<open>With characters of zero width the array is too small: on a line of one letter, fifty combining accents and
  three tabs, drawn twelve columns wide, \<open>visible_line\<close> writes past the end of the 112 bytes it allocated.\<close>

theorem zero_width_overflow:
  assumes inv: "text_inv (buf_text b)" "caches_ok w b" and tab: "tab_width b = 4"
    and xs: "content b = 97 # concat (replicate 50 [0xCC, 0x81]) @ [9, 9, 9]"
    and w: "char_width w 0x301 = 0" "char_width w 97 = 1"
  shows "visible_line w highlight 0 0 12 pt b = None"
proof (rule visible_line_parts [OF inv, of 0 0 12])
  let ?z = "line_end (buf_text b) 0" and ?xs = "content b"
  fix i col c b1 raw
  assume s: "seek w (tab_width b) (seg (line_start ?xs 0) (?z - line_start ?xs 0) ?xs) 0 0 = (i, col)"
    and raw: "raw = seg (line_start ?xs 0 + i) (bound_back (buf_text b) (line_start ?xs 0 + i)
      (min (?z - (line_start ?xs 0 + i)) (12 * 8 + 8))) ?xs"
    and vis: "\<And>highlight pt. \<exists>b' found. visible_line w highlight 0 0 12 pt b =
      (let (display, styles) = draw_chars w (tab_width b) 0 12
           (if mark_active b then Some (min (mark b) pt, max (mark b) pt) else None) (line_start ?xs 0)
           (line_start ?xs 0 + i) raw col found [] [] in
       if length display + 1 > 12 * 8 + 16 then None
       else Some (JObject [(lit ''text'', JString display), (lit ''line'', JInt (int 0)),
         (lit ''offset'', JInt (int (line_start ?xs 0 + i))), (lit ''spans'', json_spans styles)], b')) \<and> relexed b1 b'"
  let ?acc = "[0xCC, 0x81] :: bytes"
  have e: "utf8_encode 0x301 = ?acc" "utf8_encode 97 = [97]" by code_simp+
  have c: "text_scalar 0x301" "text_scalar 97" by (simp_all add: text_scalar_def scalar_def)
  have acc: "length (concat (replicate n ?acc)) = 2 * n" "set (concat (replicate n ?acc)) \<subseteq> {0xCC, 0x81}" for n
    by (induction n) auto
  have len: "length ?xs = 104" by (simp add: xs acc)
  have "10 \<notin> set ?xs" using acc(2) [of 50] by (auto simp: xs)
  then have z: "?z = 104" using line_end_single [OF inv(1)] len by simp
  have "seek w (tab_width b) ?xs 0 0 = (0, 0)"
    using seek_char [OF c(2), of w "tab_width b" "concat (replicate 50 ?acc) @ [9, 9, 9]" 0 0] w(2)
    by (simp add: xs e next_column_def)
  moreover have whole: "seg 0 104 ?xs = ?xs" using seg_whole [of ?xs] len by simp
  ultimately have ic: "i = 0" "col = 0" using s z by simp_all
  have "text_boundary (buf_text b) 104"
    using inv(1) len by (simp add: text_boundary_content boundary_def)
  then have "bound_back (buf_text b) 0 104 = 104" using bound_back_whole [of "buf_text b" 0 104] by simp
  then have r: "raw = [97] @ concat (replicate 50 ?acc) @ [9, 9, 9]" using raw ic z whole xs by simp
  note wide = draw_accents [OF w r]
  show ?thesis using vis [of highlight pt] by (auto simp: case_prod_beta ic tab wide)
qed

definition accents_world :: World where
  "accents_world = sample_world\<lparr>wcwidth := \<lambda>c. if c = 0x301 then 0 else 1\<rparr>"

subsection \<open>Windows cover the screen\<close>

text \<open>The cut points \<open>v * whole div n\<close> split a length into \<open>n\<close> consecutive parts.\<close>

lemma div_ge: "0 < n \<Longrightarrow> k * n \<le> x \<Longrightarrow> k \<le> x div n" for n :: int
  using zdiv_mono1 [of "k * n" x n] by simp

lemma div_floor: "0 < n \<Longrightarrow> x div n * n \<le> x" for n :: int
  using div_mult_mod_eq [of x n] pos_mod_sign [of n x] by linarith

lemma cut_width: "0 < n \<Longrightarrow> whole div n \<le> (v + 1) * whole div n - v * whole div n" for n :: int
  using div_ge [of n "v * whole div n + whole div n" "v * whole + whole"] div_floor [of n "v * whole"] div_floor [of n whole]
  by (simp add: distrib_right)

lemma cuts_cover:
  fixes f :: "nat \<Rightarrow> int"
  assumes "\<And>v. v < n \<Longrightarrow> f v \<le> f (Suc v)" "f 0 \<le> c" "c < f n"
  shows "\<exists>!v. v < n \<and> f v \<le> c \<and> c < f (Suc v)"
proof -
  have mono: "f u \<le> f v" if "u \<le> v" "v \<le> n" for u v
    using that assms(1) by (induction v rule: dec_induct) (auto intro: order_trans)
  define m where "m = (LEAST v. c < f v)"
  have m: "c < f m" "m \<le> n" unfolding m_def using assms(3) by (rule LeastI, rule Least_le)
  have "m \<noteq> 0" using m(1) assms(2) by (metis not_less)
  then obtain v where v: "m = Suc v" by (cases m) auto
  then have "f v \<le> c" using not_less_Least [of v "\<lambda>v. c < f v"] by (simp add: m_def)
  show ?thesis
  proof (rule ex1I [of _ v])
    show "v < n \<and> f v \<le> c \<and> c < f (Suc v)" using v m \<open>f v \<le> c\<close> by simp
    fix u assume u: "u < n \<and> f u \<le> c \<and> c < f (Suc u)"
    show "u = v"
    proof (rule antisym)
      show "u \<le> v" using mono [of "Suc v" u] u v m(1) by (intro leI) (auto simp: Suc_le_eq)
      show "v \<le> u" using mono [of "Suc u" v] u v m(2) \<open>f v \<le> c\<close> by (intro leI) (auto simp: Suc_le_eq)
    qed
  qed
qed

lemma cuts_total:
  fixes whole n :: int
  assumes "0 < n" "0 \<le> c" "c < whole"
  shows "\<exists>!v. v < nat n \<and> int v * whole div n \<le> c \<and> c < (int v + 1) * whole div n"
proof -
  have "int v * whole div n \<le> int (Suc v) * whole div n" for v
    using cut_width [OF assms(1), of whole "int v"] div_ge [OF assms(1), of 0 whole] assms(2,3) by (simp add: add.commute)
  then show ?thesis
    using cuts_cover [of "nat n" "\<lambda>v. int v * whole div n" c] assms by (simp add: add.commute)
qed

lemma shown_panes_range:
  assumes "panes e \<noteq> []"
  shows "1 \<le> shown_panes e rs cs" "shown_panes e rs cs \<le> int (length (panes e))"
    "shown_panes e rs cs > 1 \<Longrightarrow> split_vertical e \<Longrightarrow> 12 \<le> cs div shown_panes e rs cs"
    "shown_panes e rs cs > 1 \<Longrightarrow> \<not> split_vertical e \<Longrightarrow> 3 \<le> (rs - 1) div shown_panes e rs cs"
proof -
  have "1 \<le> int (length (panes e))" using assms by (cases "panes e") auto
  then show "1 \<le> shown_panes e rs cs" "shown_panes e rs cs \<le> int (length (panes e))"
    by (simp_all add: shown_panes_def Let_def)
qed (auto simp: shown_panes_def Let_def split: if_splits)

text \<open>A cell belongs to a frame.\<close>

definition in_frame :: "Frame \<Rightarrow> int \<Rightarrow> int \<Rightarrow> bool" where
  "in_frame f r c \<longleftrightarrow> fy f \<le> r \<and> r < fy f + fheight f \<and> fx f \<le> c \<and> c < fx f + fwidth f"

lemma frame_room:
  assumes "panes e \<noteq> []" "4 \<le> rs" "12 \<le> cs" "n = shown_panes e rs cs" "0 \<le> v" "v < n"
  shows "3 \<le> fheight (pane_frame (split_vertical e) numbers rs cs n v)"
    "0 \<le> fgutter (pane_frame (split_vertical e) numbers rs cs n v)"
    "6 \<le> fwidth (pane_frame (split_vertical e) numbers rs cs n v) - fgutter (pane_frame (split_vertical e) numbers rs cs n v)"
proof -
  note S = shown_panes_range [OF assms(1), of rs cs, folded assms(4)]
  have one: "n = 1 \<or> 1 < n" using S(1) by linarith
  let ?f = "pane_frame (split_vertical e) numbers rs cs n v"
  have w: "12 \<le> fwidth ?f"
    using one S(3) cut_width [of n cs v] assms(3) by (auto simp: pane_frame_def Let_def)
  show "3 \<le> fheight ?f"
    using one S(4) cut_width [of n "rs - 1" v] assms(2) by (auto simp: pane_frame_def Let_def)
  have "fgutter ?f = 0 \<or> fgutter ?f = 8 \<and> 8 \<le> fwidth ?f div 2"
    by (auto simp: pane_frame_def Let_def)
  then show "0 \<le> fgutter ?f" "6 \<le> fwidth ?f - fgutter ?f" using w by auto
qed

text \<open>C33 The windows of a snapshot tile the screen above the minibuffer: every cell is in exactly one of them, and
  each has room for a mode line and two lines of text, at least six columns wide beside its line numbers.\<close>

theorem windows_tile_screen:
  assumes "panes e \<noteq> []" "4 \<le> rs" "12 \<le> cs" "n = shown_panes e rs cs"
  shows "(0 \<le> r \<and> r < rs - 1 \<and> 0 \<le> c \<and> c < cs \<longrightarrow>
      (\<exists>!v. v < nat n \<and> in_frame (pane_frame (split_vertical e) numbers rs cs n (int v)) r c)) \<and>
    (0 \<le> v \<and> v < n \<longrightarrow> 3 \<le> fheight (pane_frame (split_vertical e) numbers rs cs n v) \<and>
      0 \<le> fgutter (pane_frame (split_vertical e) numbers rs cs n v) \<and>
      6 \<le> fwidth (pane_frame (split_vertical e) numbers rs cs n v) - fgutter (pane_frame (split_vertical e) numbers rs cs n v))"
proof -
  note S = shown_panes_range [OF assms(1), of rs cs, folded assms(4)]
  have tile: "\<exists>!v. v < nat n \<and> in_frame (pane_frame (split_vertical e) numbers rs cs n (int v)) r c"
    if "0 \<le> r" "r < rs - 1" "0 \<le> c" "c < cs"
    using that S(1) cuts_total [of n c cs] cuts_total [of n r "rs - 1"]
    by (cases "split_vertical e") (simp_all add: in_frame_def pane_frame_def Let_def)
  with frame_room [OF assms, of v numbers] show ?thesis by blast
qed

theorem windows_tile_screen_witness:
  "\<exists>!v. v < nat 1 \<and> in_frame (pane_frame False True 24 80 1 (int v)) 22 79"
proof -
  have "shown_panes sample_editor 24 80 = 1" by (simp add: shown_panes_def sample_editor_def blank_editor_def)
  moreover have "panes sample_editor \<noteq> []" "\<not> split_vertical sample_editor" by (simp_all add: sample_editor_def blank_editor_def)
  ultimately show ?thesis using windows_tile_screen [of sample_editor 24 80 1 22 79 True 0] by simp
qed

subsection \<open>The cursor stays in view\<close>

lemma scroll_to_range:
  assumes "1 \<le> extent"
  shows "scroll_to pos extent first \<le> pos" "int pos < int (scroll_to pos extent first) + extent"
  using assms by (auto simp: scroll_to_def Let_def)

text \<open>C32 In the window the user works in, the cursor the snapshot reports lies in the text area, right of the line
  numbers and above the mode line, wherever point was left by edits, searches and other windows.\<close>

theorem cursor_in_view:
  assumes "panes e \<noteq> []" "4 \<le> rs" "12 \<le> cs" "n = shown_panes e rs cs" "0 \<le> v" "v < n"
    and "pane_json w rs cs n v (active_pane e) e = Some (e', Some j)"
    and "f = pane_frame (split_vertical e) (show_line_numbers e) rs cs n v"
  shows "\<exists>r c. json_field j (lit ''cursor_row'') = JInt r \<and> 0 \<le> r \<and> r < fheight f - 1 \<and>
    json_field j (lit ''cursor_col'') = JInt c \<and> fgutter f \<le> c \<and> c < fwidth f"
proof -
  have room: "1 \<le> fheight f - 1" "1 \<le> fwidth f - fgutter f"
    using frame_room [OF assms(1-6), of "show_line_numbers e"] assms(8) by simp_all
  obtain b row column p pt lines where
    j: "j = JObject (pane_fields (active_pane e) True b p f pt row column @
        [(lit ''modeline'', JString (mode_line b True row column)), (lit ''lines'', JArray lines)])"
    and p: "pane_top p = scroll_to row (fheight f - 1) (pane_top (panes e ! active_pane e))"
      "pane_left p = scroll_to column (fwidth f - fgutter f) (pane_left (panes e ! active_pane e))"
    using assms(7) by (auto simp: pane_json_def Let_def assms(8) split: option.splits bind_splits)
  have "json_field j (lit ''cursor_row'') = JInt (int row - int (pane_top p))"
    "json_field j (lit ''cursor_col'') = JInt (int column - int (pane_left p) + fgutter f)"
    by (simp_all add: j pane_fields_def)
  then show ?thesis
    using scroll_to_range [OF room(1), of row "pane_top (panes e ! active_pane e)"]
      scroll_to_range [OF room(2), of column "pane_left (panes e ! active_pane e)"] by (simp add: p)
qed

subsection \<open>A snapshot always returns\<close>

text \<open>What drawing needs of a buffer, and of the window points that are not kept up to date by edits.\<close>

definition drawable :: "World \<Rightarrow> Editor \<Rightarrow> bool" where
  "drawable w e \<longleftrightarrow> (\<forall>b \<in> set (buffers e). text_inv (buf_text b) \<and> caches_ok w b \<and> wide w (content b) \<and>
       0 < tab_width b \<and> boundary (content b) (point b)) \<and>
     (\<forall>k < length (panes e). k \<noteq> active_pane e \<longrightarrow> (\<forall>b \<in> set (buffers e). buf_id b = pane_buffer (panes e ! k) \<longrightarrow>
       boundary (content b) (min (pane_point (panes e ! k)) (length (content b)))))"

lemma pane_lines_ok:
  assumes "text_inv (buf_text b)" "caches_ok w b" "wide w (content b)" "0 < tab_width b"
  shows "\<exists>lines b'. pane_lines w highlight physical r left ncols pt b = Some (lines, b') \<and> redrawn w b b'"
  using assms
proof (induction r arbitrary: physical b)
  case 0
  then show ?case by (simp add: redrawn_def)
next
  case (Suc r)
  have "\<exists>line b1. (if physical \<ge> text_lines (buf_text b)
        then Some (JObject [(lit ''text'', JString []), (lit ''line'', JInt (- 1)), (lit ''spans'', JArray [])], b)
        else visible_line w highlight physical left ncols pt b) = Some (line, b1) \<and> redrawn w b b1"
    using visible_line_wide [OF Suc.prems, of highlight physical left ncols pt] Suc.prems(2) by (simp add: redrawn_def)
  then obtain line b1 where 1: "(if physical \<ge> text_lines (buf_text b)
        then Some (JObject [(lit ''text'', JString []), (lit ''line'', JInt (- 1)), (lit ''spans'', JArray [])], b)
        else visible_line w highlight physical left ncols pt b) = Some (line, b1)" "redrawn w b b1" by blast
  obtain lines b2 where 2: "pane_lines w highlight (physical + 1) r left ncols pt b1 = Some (lines, b2)" "redrawn w b1 b2"
    using Suc.IH [of b1 "physical + 1"] Suc.prems 1(2) by (auto simp: redrawn_def)
  show ?case using 1 2 redrawn_trans by (simp only: pane_lines.simps) auto
qed

lemma drawable_redrawn:
  assumes "drawable w e" "i < length (buffers e)" "redrawn w (buffers e ! i) b"
    and "pane_point p = pane_point (panes e ! k)" "pane_buffer p = pane_buffer (panes e ! k)"
  shows "drawable w (e\<lparr>buffers := (buffers e)[i := b], panes := (panes e)[k := p]\<rparr>)"
proof -
  have m: "buffers e ! i \<in> set (buffers e)" using assms(2) by simp
  have b: "\<exists>y \<in> set (buffers e). buf_text x = buf_text y \<and> tab_width x = tab_width y \<and> point x = point y \<and>
      buf_id x = buf_id y \<and> caches_ok w x" if "x \<in> set ((buffers e)[i := b])" for x
  proof -
    have "x \<in> set (buffers e) \<or> x = b" using that set_update_subset_insert [of "buffers e" i b] by auto
    then show ?thesis using assms(1,3) m by (auto simp: drawable_def redrawn_def)
  qed
  have q: "pane_point ((panes e)[k := p] ! k') = pane_point (panes e ! k')"
    "pane_buffer ((panes e)[k := p] ! k') = pane_buffer (panes e ! k')" if "k' < length (panes e)" for k'
    using assms(4,5) that by (cases "k = k'"; simp)+
  show ?thesis
    unfolding drawable_def
  proof (intro conjI ballI allI impI)
    fix x assume "x \<in> set (buffers (e\<lparr>buffers := (buffers e)[i := b], panes := (panes e)[k := p]\<rparr>))"
    then obtain y where y: "y \<in> set (buffers e)" "buf_text x = buf_text y" "tab_width x = tab_width y" "point x = point y"
      "buf_id x = buf_id y" "caches_ok w x" using b [of x] by auto
    then show "text_inv (buf_text x)" "caches_ok w x" "wide w (content x)" "0 < tab_width x" "boundary (content x) (point x)"
      using assms(1) by (auto simp: drawable_def)
    fix k' assume k': "k' < length (panes (e\<lparr>buffers := (buffers e)[i := b], panes := (panes e)[k := p]\<rparr>))"
      "k' \<noteq> active_pane (e\<lparr>buffers := (buffers e)[i := b], panes := (panes e)[k := p]\<rparr>)"
      "buf_id x = pane_buffer (panes (e\<lparr>buffers := (buffers e)[i := b], panes := (panes e)[k := p]\<rparr>) ! k')"
    then have "k' < length (panes e)" "k' \<noteq> active_pane e" "buf_id y = pane_buffer (panes e ! k')" using q y(5) by auto
    then show "boundary (content x) (min (pane_point (panes (e\<lparr>buffers := (buffers e)[i := b], panes := (panes e)[k := p]\<rparr>) ! k'))
        (length (content x)))"
      using assms(1) y q by (auto simp: drawable_def)
  qed
qed

lemma pane_json_ok:
  assumes e: "drawable w e" and index: "index < length (panes e)"
  shows "\<exists>e' one. pane_json w rs cs n v index e = Some (e', one) \<and> drawable w e' \<and>
    length (panes e') = length (panes e) \<and> active_pane e' = active_pane e"
proof (cases "editor_by_id e (pane_buffer (panes e ! index))")
  case None
  then show ?thesis using e by (simp add: pane_json_def Let_def)
next
  case (Some i)
  let ?p = "panes e ! index" and ?b = "buffers e ! i" and ?active = "index = active_pane e"
  have i: "i < length (buffers e)" "buf_id ?b = pane_buffer ?p"
    using Some find_index_Some by (auto simp: editor_by_id_def)
  then have m: "?b \<in> set (buffers e)" by simp
  have inv: "text_inv (buf_text ?b)" "caches_ok w ?b" "wide w (content ?b)" "0 < tab_width ?b" "boundary (content ?b) (point ?b)"
    using e m by (auto simp: drawable_def)
  have sz: "text_size (buf_text ?b) = length (content ?b)" using inv(1) by (rule text_size_content)
  define pt0 where "pt0 = (if ?active then point ?b else pane_point ?p)"
  define pt where "pt = (if pt0 > text_size (buf_text ?b) then text_size (buf_text ?b) else pt0)"
  have "pt = min pt0 (length (content ?b))" by (simp add: pt_def sz)
  then have bpt: "boundary (content ?b) pt"
    using e index i(2) m inv(5) boundary_le [OF inv(5)] by (auto simp: pt0_def drawable_def min_absorb1)
  obtain column b1 c where col: "editor_column w ?b pt = Some (column, b1)" "caches_ok w b1" "b1 = ?b\<lparr>column_cache := c\<rparr>"
    using editor_column_ok [OF inv(1) bpt inv(2)] by auto
  let ?f = "pane_frame (split_vertical e) (show_line_numbers e) rs cs n v"
  define p where "p = (if ?active then ?p\<lparr>pane_top := scroll_to (text_line_of (buf_text ?b) pt) (fheight ?f - 1) (pane_top ?p),
      pane_left := scroll_to column (fwidth ?f - fgutter ?f) (pane_left ?p)\<rparr> else ?p)"
  obtain lines b2 where l: "pane_lines w (show_highlight e) (pane_top p) (nat (fheight ?f - 1)) (pane_left p)
      (nat (fwidth ?f - fgutter ?f)) pt b1 = Some (lines, b2)" "redrawn w b1 b2"
  proof -
    have "text_inv (buf_text b1)" "wide w (content b1)" "0 < tab_width b1" using inv by (simp_all add: col(3))
    then show thesis
      using that pane_lines_ok [OF _ col(2), of "show_highlight e" "pane_top p" "nat (fheight ?f - 1)" "pane_left p"
        "nat (fwidth ?f - fgutter ?f)" pt] by blast
  qed
  have r: "redrawn w ?b b2" using l(2) col(2,3) by (auto simp: redrawn_def)
  have "\<exists>j. pane_json w rs cs n v index e = Some (e\<lparr>buffers := (buffers e)[i := b2], panes := (panes e)[index := p]\<rparr>, Some j)"
    by (simp only: pane_json_def Let_def Some option.case pt0_def [symmetric] pt_def [symmetric] col(1)
        Option.bind.bind_lunit prod.case p_def [symmetric] l(1)) blast
  moreover have "drawable w (e\<lparr>buffers := (buffers e)[i := b2], panes := (panes e)[index := p]\<rparr>)"
    by (rule drawable_redrawn [OF e i(1) r]) (simp_all add: p_def)
  ultimately show ?thesis by auto
qed

lemma panes_json_ok:
  assumes "drawable w e" "active_pane e < length (panes e)" "\<And>v. v \<in> set vs \<Longrightarrow> v < length (panes e)"
  shows "\<exists>e' js. panes_json w rs cs n vs e = Some (e', js)"
  using assms
proof (induction vs arbitrary: e)
  case (Cons v vs)
  let ?index = "if n = 1 then active_pane e else v"
  have "?index < length (panes e)" using Cons.prems by simp
  from pane_json_ok [OF Cons.prems(1) this, of rs cs n "int v"] obtain e1 one where
    1: "pane_json w rs cs n (int v) ?index e = Some (e1, one)" "drawable w e1"
      "length (panes e1) = length (panes e)" "active_pane e1 = active_pane e" by blast
  obtain e2 js where "panes_json w rs cs n vs e1 = Some (e2, js)"
    using Cons.IH [OF 1(2)] 1(3,4) Cons.prems(2,3) by auto
  with 1(1) show ?case by simp
qed simp

text \<open>C31 A snapshot is always produced, for any screen size, when the buffers keep their invariants, hold no
  zero-width characters, and the points of the windows that are not selected are character boundaries.\<close>

theorem snapshot_returns:
  assumes "drawable w e" "active_pane e < length (panes e)"
  shows "\<exists>e' j. editor_snapshot w rs cs e = Some (e', j)"
proof -
  let ?rs = "clamp 4 200 rs" and ?cs = "clamp 12 500 cs"
  define e0 where "e0 = e\<lparr>rows := ?rs, cols := ?cs\<rparr>"
  define e1 where "e1 = upd_pane (active_pane e0) (\<lambda>p. p\<lparr>pane_point := point (editor_buffer e0)\<rparr>) e0"
  have "drawable w e1" "active_pane e1 < length (panes e1)"
    using assms by (auto simp: drawable_def e1_def e0_def upd_pane_def nth_list_update)
  moreover have "panes e1 \<noteq> []" using assms(2) by (auto simp: e1_def e0_def upd_pane_def)
  then have "v < length (panes e1)" if "v \<in> set [0..<nat (shown_panes e1 ?rs ?cs)]" for v
    using that shown_panes_range(2) [of e1 ?rs ?cs] by auto
  ultimately obtain e2 js where "panes_json w ?rs ?cs (shown_panes e1 ?rs ?cs) [0..<nat (shown_panes e1 ?rs ?cs)] e1 = Some (e2, js)"
    using panes_json_ok by blast
  then show ?thesis unfolding editor_snapshot_def Let_def e0_def [symmetric] e1_def [symmetric] by simp
qed

lemma sample_drawable: "drawable sample_world sample_editor"
proof -
  have "wide sample_world (content sample_buffer)"
    unfolding sample_content by (auto simp: wide_def char_width_def sample_world_def Let_def)
  then show ?thesis
    using sample_caches_ok [of sample_world] sample_ok(2)
    by (simp add: drawable_def sample_editor_simps sample_buffer_simps)
      (simp add: sample_editor_def blank_editor_def sample_ok sample_valid)
qed

theorem snapshot_returns_witness: "\<exists>e' j. editor_snapshot sample_world 24 80 sample_editor = Some (e', j)"
proof -
  have "active_pane sample_editor < length (panes sample_editor)" by (simp add: sample_editor_def blank_editor_def)
  then show ?thesis using snapshot_returns [OF sample_drawable] by blast
qed

theorem cursor_in_view_witness:
  "\<exists>e' j r c. pane_json sample_world 24 80 1 0 0 sample_editor = Some (e', Some j) \<and>
     json_field j (lit ''cursor_row'') = JInt r \<and> r < 22 \<and> json_field j (lit ''cursor_col'') = JInt c \<and> c < 80"
proof -
  have e: "panes sample_editor \<noteq> []" "active_pane sample_editor = 0" "\<not> split_vertical sample_editor"
    "\<not> show_line_numbers sample_editor" "shown_panes sample_editor 24 80 = 1"
    "editor_by_id sample_editor (pane_buffer (panes sample_editor ! 0)) = Some 0"
    by (simp_all add: sample_editor_def blank_editor_def shown_panes_def editor_by_id_def sample_buffer_def blank_buffer_def)
  have "0 < length (panes sample_editor)" using e(1) by simp
  from pane_json_ok [OF sample_drawable this, of 24 80 1 0] obtain e' one where
    j: "pane_json sample_world 24 80 1 0 0 sample_editor = Some (e', one)" by blast
  then obtain k where k: "one = Some k"
    using e(6) by (auto simp: pane_json_def Let_def split: bind_splits)
  have f: "fheight (pane_frame False False 24 80 1 0) = 23" "fwidth (pane_frame False False 24 80 1 0) = 80"
    by (simp_all add: pane_frame_def Let_def)
  show ?thesis
    using cursor_in_view [of sample_editor 24 80 1 0 sample_world e' k] e j k f by fastforce
qed

end
