(* ===== verification/Bounds.thy ===== *)
theory Bounds
  imports Keys
begin

section \<open>No array is ever overrun\<close>

text \<open>
  The fixed arrays of \<open>Editor\<close> and the indices into them. Every key and every command keeps
  them in bounds, whatever the buffers hold, provided plugins do.
\<close>

subsection \<open>The bounds\<close>

definition tables_ok :: "Editor \<Rightarrow> bool" where
  "tables_ok e \<longleftrightarrow> length (buffers e) \<le> CP_MAX_BUFFERS \<and> current e < length (buffers e) \<and>
     length (panes e) \<le> CP_MAX_PANES \<and> active_pane e < length (panes e) \<and>
     length (kill_ring e) \<le> CP_KILL_RING \<and> (kill_ring e \<noteq> [] \<longrightarrow> yank_index e < length (kill_ring e)) \<and>
     length (macro_keys e) \<le> 10000 \<and> (\<forall>k \<in> set (macro_keys e). length k \<le> 80)"

definition strings_ok :: "Editor \<Rightarrow> bool" where
  "strings_ok e \<longleftrightarrow> length (message e) < 2048 \<and> length (last_command e) < 100 \<and> length (key_prefix e) < 100 \<and>
     length (prompt_label e) < 100 \<and> length (prompt_command e) < 100 \<and> length (input e) < CP_PROMPT_MAX \<and>
     input_point e \<le> length (input e) \<and> length (search_good e) < CP_PROMPT_MAX \<and>
     length (last_search e) < CP_PROMPT_MAX \<and> length (replace_from e) < CP_PROMPT_MAX \<and>
     length (replace_to e) < CP_PROMPT_MAX \<and> 0 \<le> prefix_value e \<and> prefix_value e \<le> 100009"

definition arrays_ok :: "Editor \<Rightarrow> bool" where
  "arrays_ok e \<longleftrightarrow> tables_ok e \<and> strings_ok e"

lemmas arrays_defs = arrays_ok_def tables_ok_def strings_ok_def

text \<open>What plugins must keep.\<close>

definition plugins_keep :: "World \<Rightarrow> bool" where
  "plugins_keep w \<longleftrightarrow> (\<forall>e. arrays_ok e \<longrightarrow> (\<forall>n. arrays_ok (hook w n e)) \<and>
     arrays_ok (fst (before_save_hook w e)) \<and> (\<forall>c a n. arrays_ok (fst (python_command w c a n e))))"

text \<open>The same of a result, when there is one.\<close>

abbreviation keeps :: "result \<Rightarrow> bool" where
  "keeps r \<equiv> pred_option (\<lambda>(e, ok). arrays_ok e) r"

abbreviation keeps_sys :: "sys_result \<Rightarrow> bool" where
  "keeps_sys r \<equiv> pred_option (\<lambda>((d, e), ok). arrays_ok e) r"

lemma pred_option_bind [simp]: "pred_option P (r \<bind> f) \<longleftrightarrow> pred_option (\<lambda>x. pred_option P (f x)) r"
  by (cases r) simp_all

lemma pred_option_weak: "pred_option P r \<Longrightarrow> (\<And>x. P x \<Longrightarrow> Q x) \<Longrightarrow> pred_option Q r"
  by (cases r) simp_all

lemma pred_option_trivial: "(\<And>x. P x) \<Longrightarrow> pred_option P r"
  by (cases r) simp_all

lemma pred_option_map [simp]: "pred_option P (map_option f r) = pred_option (\<lambda>x. P (f x)) r"
  by (cases r) simp_all

subsection \<open>Updates outside the arrays\<close>

lemma arrays_upd_buf [simp]: "arrays_ok (upd_buf i f e) = arrays_ok e"
  by (simp add: arrays_defs upd_buf_def)

lemma arrays_other [simp]:
  "arrays_ok (e\<lparr>next_state := n\<rparr>) = arrays_ok e" "arrays_ok (e\<lparr>group := n\<rparr>) = arrays_ok e"
  "arrays_ok (e\<lparr>last_kind := n\<rparr>) = arrays_ok e" "arrays_ok (e\<lparr>yank_start := n\<rparr>) = arrays_ok e"
  "arrays_ok (e\<lparr>yank_end := n\<rparr>) = arrays_ok e" "arrays_ok (e\<lparr>quit := x\<rparr>) = arrays_ok e"
  "arrays_ok (e\<lparr>detach := x\<rparr>) = arrays_ok e" "arrays_ok (e\<lparr>search_origin := n\<rparr>) = arrays_ok e"
  "arrays_ok (e\<lparr>search_backward := x\<rparr>) = arrays_ok e" "arrays_ok (e\<lparr>search_failed := x\<rparr>) = arrays_ok e"
  "arrays_ok (e\<lparr>search_wrapped := x\<rparr>) = arrays_ok e" "arrays_ok (e\<lparr>replace_at := n\<rparr>) = arrays_ok e"
  "arrays_ok (e\<lparr>pending_buffer := i\<rparr>) = arrays_ok e" "arrays_ok (e\<lparr>show_line_numbers := x\<rparr>) = arrays_ok e"
  "arrays_ok (e\<lparr>font_size := i\<rparr>) = arrays_ok e" "arrays_ok (e\<lparr>macro_playing := x\<rparr>) = arrays_ok e"
  "arrays_ok (e\<lparr>macro_recording := x\<rparr>) = arrays_ok e" "arrays_ok (e\<lparr>command_depth := n\<rparr>) = arrays_ok e"
  "arrays_ok (e\<lparr>prefix_set := x\<rparr>) = arrays_ok e" "arrays_ok (e\<lparr>prefix_digits := x\<rparr>) = arrays_ok e"
  "arrays_ok (e\<lparr>prefix_negative := x\<rparr>) = arrays_ok e" "arrays_ok (e\<lparr>split_vertical := x\<rparr>) = arrays_ok e"
  by (simp_all add: arrays_defs)

text \<open>Rules that keep the bounds are collected here; \<open>keep\<close> is how every operation is proved.\<close>

named_theorems keep

lemma arrays_message [keep]: "arrays_ok e \<Longrightarrow> arrays_ok (editor_message m e)"
  by (simp add: arrays_defs editor_message_def)

lemma arrays_strings [keep]:
  "arrays_ok e \<Longrightarrow> arrays_ok (e\<lparr>message := []\<rparr>)" "arrays_ok e \<Longrightarrow> arrays_ok (e\<lparr>key_prefix := []\<rparr>)"
  "arrays_ok e \<Longrightarrow> arrays_ok (e\<lparr>search_good := []\<rparr>)" "arrays_ok e \<Longrightarrow> arrays_ok (e\<lparr>search_good := input e\<rparr>)"
  "arrays_ok e \<Longrightarrow> arrays_ok (e\<lparr>last_search := input e\<rparr>)" "arrays_ok e \<Longrightarrow> arrays_ok (e\<lparr>last_command := take 99 c\<rparr>)"
  "arrays_ok e \<Longrightarrow> arrays_ok (prompt l c i e)" "arrays_ok e \<Longrightarrow> arrays_ok (prompt_clear e)"
  by (auto simp: arrays_defs prompt_def prompt_clear_def CP_PROMPT_MAX_def)

lemma arrays_switch [keep]: "arrays_ok e \<Longrightarrow> arrays_ok (editor_switch e i)"
  by (simp add: arrays_defs editor_switch_def)

lemma arrays_pane [keep]: "arrays_ok e \<Longrightarrow> arrays_ok (upd_pane k f e)"
  by (simp add: arrays_defs upd_pane_def)

lemma arrays_push_kill [keep]:
  assumes "arrays_ok e" shows "arrays_ok (push_kill s back1 join e)"
proof -
  have "length (kill_ring (push_kill s back1 join e)) \<le> CP_KILL_RING \<and> kill_ring (push_kill s back1 join e) \<noteq> []"
    using assms by (auto simp: push_kill_def Let_def arrays_defs CP_KILL_RING_def Suc_le_eq)
  then show ?thesis using assms by (simp add: arrays_defs push_kill_def Let_def)
qed

subsection \<open>Results\<close>

lemma keeps_simps [simp]:
  "keeps (done_ok e) = arrays_ok e" "keeps (moved r) = pred_option arrays_ok r"
  by (simp_all add: done_ok_def moved_def)

lemma keeps_refuse [keep]: "arrays_ok e \<Longrightarrow> keeps (refuse m e)"
  by (simp add: refuse_def keep)

lemma keeps_if_ok [keep]: "keeps r \<Longrightarrow> (\<And>e. arrays_ok e \<Longrightarrow> keeps (f e)) \<Longrightarrow> keeps (if_ok r f)"
  by (auto simp: if_ok_def split: option.splits)

lemma keeps_on_disk [simp]: "keeps_sys (on_disk d r) = keeps r"
  by (cases r) (simp_all add: on_disk_def split: prod.split)

lemma keeps_event [keep]: "plugins_keep w \<Longrightarrow> arrays_ok e \<Longrightarrow> arrays_ok (plugins_event w e n)"
  by (simp add: plugins_event_def plugins_keep_def)

lemma keeps_before_save [keep]: "plugins_keep w \<Longrightarrow> arrays_ok e \<Longrightarrow> arrays_ok (fst (plugins_before_save w e))"
  by (simp add: plugins_before_save_def plugins_keep_def)

lemma keeps_plugin [keep]: "plugins_keep w \<Longrightarrow> arrays_ok e \<Longrightarrow> arrays_ok (fst (plugins_command w e c a n))"
  by (simp add: plugins_command_def plugins_keep_def)

lemma keeps_replace [keep]: "plugins_keep w \<Longrightarrow> arrays_ok e \<Longrightarrow> keeps (editor_replace w e at n s)"
  by (auto simp: editor_replace_def Let_def keep intro: pred_option_trivial)

lemma keeps_insert [keep]: "plugins_keep w \<Longrightarrow> arrays_ok e \<Longrightarrow> keeps (editor_insert w e s)"
  by (simp add: editor_insert_def keep)

lemma keeps_set_text [keep]: "plugins_keep w \<Longrightarrow> arrays_ok e \<Longrightarrow> keeps (editor_set_text w e s)"
  by (simp add: editor_set_text_def Let_def keep)

lemma keeps_undo [keep]: "plugins_keep w \<Longrightarrow> arrays_ok e \<Longrightarrow> keeps (undo w e redo n)"
  unfolding undo_def Let_def by (auto simp: keep intro: pred_option_trivial split: prod.split)

lemma arrays_set_point [simp]: "arrays_ok (set_point i p e) = arrays_ok e"
  by (simp add: set_point_def)

subsection \<open>The buffer table\<close>

lemma arrays_new_buffer [keep]: "arrays_ok e \<Longrightarrow> pred_option (\<lambda>(e, i). arrays_ok e) (editor_new_buffer e name)"
proof -
  assume e: "arrays_ok e"
  then have "arrays_ok (e\<lparr>next_id := i, buffers := buffers e @ [b]\<rparr>)" if "length (buffers e) < CP_MAX_BUFFERS" for i b
    using that by (simp add: arrays_defs less_Suc_eq)
  with e show ?thesis
    by (auto simp: editor_new_buffer_def Let_def not_le intro: keep pred_option_trivial)
qed

lemma new_buffer_room:
  "length (buffers e) < CP_MAX_BUFFERS \<Longrightarrow>
    pred_option (\<lambda>(e', i). length (buffers e') = Suc (length (buffers e)) \<and> current e' = current e) (editor_new_buffer e name)"
  by (auto simp: editor_new_buffer_def Let_def intro!: pred_option_trivial)

lemma arrays_removed:
  assumes "arrays_ok e" "i < length (buffers e)" "1 < length (buffers e)"
  shows "arrays_ok (editor_switch (e\<lparr>panes := leave_panes k b (panes e), buffers := remove_index i (buffers e)\<rparr>)
    (let sel = (if current e = i then (if i = 0 then 1 else 0) else current e) in if i < sel then sel - 1 else sel))"
  using assms
  by (auto simp: arrays_defs editor_switch_def remove_index_def leave_panes_def Let_def)

lemma arrays_drop_buffer [keep]:
  assumes e: "arrays_ok e" and i: "i < length (buffers e)"
  shows "pred_option arrays_ok (editor_drop_buffer e i)"
proof -
  have tail: "pred_option arrays_ok
     (if i = 0 \<and> length (buffers e) \<le> 1 then Some e
      else
       let fallback = (if i = 0 then 1 else 0);
           selected = (if current e = i then fallback else current e);
           e = e\<lparr>panes := leave_panes (buf_id (buffers e ! i)) (buffers e ! fallback) (panes e),
                 buffers := remove_index i (buffers e)\<rparr>
       in Some (editor_switch e (if i < selected then selected - 1 else selected)))"
    if "arrays_ok e" "i < length (buffers e)" for e
  proof (cases "1 < length (buffers e)")
    case True
    then show ?thesis using arrays_removed [OF that True] by (auto simp: Let_def)
  qed (use that in auto)
  show ?thesis
  proof (cases "length (buffers e) = 1")
    case True
    have "pred_option (\<lambda>e'. arrays_ok e' \<and> i < length (buffers e')) (map_option fst (editor_new_buffer e (lit ''*scratch*'')))"
      using arrays_new_buffer [OF e, of "lit ''*scratch*''"] new_buffer_room [of e "lit ''*scratch*''"] True i
      by (cases "editor_new_buffer e (lit ''*scratch*'')") (auto simp: CP_MAX_BUFFERS_def)
    then show ?thesis
      unfolding editor_drop_buffer_def if_P [OF True] pred_option_bind
      by (rule pred_option_weak) (rule tail, simp_all)
  next
    case False
    then show ?thesis
      unfolding editor_drop_buffer_def if_not_P [OF False] using tail [OF e i] by simp
  qed
qed

lemma find_index_less: "find_index p xs = Some i \<Longrightarrow> i < length xs"
  using find_index_Some by blast

lemma last_index_less: "last_index p xs = Some i \<Longrightarrow> i < length xs"
  using find_index_less [of p "rev xs"] by (auto simp: last_index_def split: option.splits)

subsection \<open>Editing commands\<close>

lemma keeps_kill_range [keep]: "plugins_keep w \<Longrightarrow> arrays_ok e \<Longrightarrow> keeps (kill_range w a z bk cp join e)"
  by (auto simp: kill_range_def Let_def intro!: keep)

lemma keeps_insert_lines [keep]: "plugins_keep w \<Longrightarrow> arrays_ok e \<Longrightarrow> keeps (insert_lines w n k e)"
  by (induction k arbitrary: e) (auto intro!: keep)

lemma keeps_newline [keep]:
  "plugins_keep w \<Longrightarrow> arrays_ok e \<Longrightarrow> keeps (cmd_newline w i x y n e)"
  "plugins_keep w \<Longrightarrow> arrays_ok e \<Longrightarrow> keeps (cmd_indent w i n e)"
  by (auto simp: cmd_newline_def cmd_indent_def Let_def intro!: keep)

lemma keeps_kills [keep]:
  "plugins_keep w \<Longrightarrow> arrays_ok e \<Longrightarrow> keeps (cmd_delete_char w i x n y pk e)"
  "plugins_keep w \<Longrightarrow> arrays_ok e \<Longrightarrow> keeps (cmd_kill_region w i x pk e)"
  "plugins_keep w \<Longrightarrow> arrays_ok e \<Longrightarrow> keeps (cmd_kill_line w i n x pk e)"
  "plugins_keep w \<Longrightarrow> arrays_ok e \<Longrightarrow> keeps (cmd_kill_word w i n pk e)"
  "plugins_keep w \<Longrightarrow> arrays_ok e \<Longrightarrow> keeps (cmd_delete_space w i e)"
  by (simp_all add: cmd_delete_char_def cmd_kill_region_def cmd_kill_line_def cmd_kill_word_def
      cmd_delete_space_def Let_def keep)

lemma arrays_marks [keep]:
  "arrays_ok e \<Longrightarrow> arrays_ok (cmd_set_mark i x e)" "arrays_ok e \<Longrightarrow> arrays_ok (cmd_mark_whole i e)"
  "arrays_ok e \<Longrightarrow> keeps (cmd_exchange i e)"
  by (simp_all add: cmd_set_mark_def cmd_mark_whole_def cmd_exchange_def keep)

lemma keeps_yank_insert [keep]: "plugins_keep w \<Longrightarrow> arrays_ok e \<Longrightarrow> keeps (yank_insert w i e)"
  by (auto simp: yank_insert_def Let_def intro!: keep)

lemma arrays_yank_index: "arrays_ok e \<Longrightarrow> kill_ring e \<noteq> [] \<longrightarrow> n < length (kill_ring e) \<Longrightarrow> arrays_ok (e\<lparr>yank_index := n\<rparr>)"
  by (simp add: arrays_defs)

lemma keeps_yank [keep]:
  "plugins_keep w \<Longrightarrow> arrays_ok e \<Longrightarrow> keeps (cmd_yank w i n x e)"
  "plugins_keep w \<Longrightarrow> arrays_ok e \<Longrightarrow> keeps (cmd_yank_pop w i n pk e)"
proof -
  assume a: "plugins_keep w" "arrays_ok e"
  show "keeps (cmd_yank w i n x e)"
    using a by (auto simp: cmd_yank_def intro!: keep arrays_yank_index)
  have "nat ((int (yank_index e) + n) mod int (length (kill_ring e))) < length (kill_ring e)" if "kill_ring e \<noteq> []"
    using that pos_mod_bound [of "int (length (kill_ring e))" "int (yank_index e) + n"] by (simp add: nat_less_iff)
  then show "keeps (cmd_yank_pop w i n pk e)"
    using a by (auto simp: cmd_yank_pop_def Let_def intro!: keep arrays_yank_index)
qed

lemma keeps_transpose [keep]: "plugins_keep w \<Longrightarrow> arrays_ok e \<Longrightarrow> keeps (cmd_transpose w i n e)"
proof -
  assume w: "plugins_keep w" and e: "arrays_ok e"
  have "keeps (transpose_loop w i x k e)" if "arrays_ok e" for x k e
    using that by (induction k arbitrary: e) (auto simp: Let_def w intro!: keep)
  then show ?thesis using e by (auto simp: cmd_transpose_def Let_def keep)
qed

lemma keeps_case_word [keep]:
  assumes "plugins_keep w" "arrays_ok e" shows "keeps (cmd_case_word w i u c n e)"
  using pred_option_weak [OF keeps_replace [OF assms]]
  by (auto simp: cmd_case_word_def Let_def split: prod.split)

subsection \<open>Files\<close>

lemma keeps_open [keep]:
  assumes w: "plugins_keep w" and e: "arrays_ok e" shows "keeps (editor_open w os d e name)"
proof -
  have pane: "arrays_ok (x\<lparr>panes := (panes x)[active_pane x := p]\<rparr>)" if "arrays_ok x" for x p
    using that by (simp add: arrays_defs)
  have new: "pred_option (\<lambda>(x, i). arrays_ok x) (editor_new_buffer e n)" for n
    using e by (rule arrays_new_buffer)
  show ?thesis
    unfolding editor_open_def Let_def
    using w e
    by (auto simp: keep pane intro!: pred_option_weak [OF new] pred_option_trivial [where r = "text_init t" for t]
        split: option.split sum.split)
qed

lemma arrays_save_commit [keep]:
  "plugins_keep w \<Longrightarrow> arrays_ok e \<Longrightarrow> arrays_ok (fst (snd (save_commit w os d e i p force)))"
  by (auto simp: save_commit_def Let_def keep split: option.split prod.split)

lemma arrays_save [keep]:
  assumes "plugins_keep w" "arrays_ok e" shows "arrays_ok (fst (snd (editor_save w os d e name force)))"
proof -
  have "arrays_ok x" if "plugins_before_save w e = (x, go)" for x go
    using keeps_before_save [OF assms] that by simp
  with assms show ?thesis
    by (auto simp: editor_save_def Let_def keep split: sum.split prod.split)
qed

subsection \<open>Prompts\<close>

lemma keeps_show_text [keep]:
  assumes w: "plugins_keep w" and e: "arrays_ok e" shows "pred_option arrays_ok (show_text w name s e)"
proof -
  have new: "pred_option (\<lambda>(x, i). arrays_ok x)
      (case buffer_named name e of Some i \<Rightarrow> Some (e, Some i) | None \<Rightarrow> editor_new_buffer e name)"
    using arrays_new_buffer [OF e] e by (simp split: option.split)
  show ?thesis
    unfolding show_text_def pred_option_bind
    using w by (rule_tac pred_option_weak [OF new])
      (auto simp: keep split: option.split intro!: pred_option_weak [OF keeps_set_text])
qed

lemma arrays_query_next [keep]:
  "arrays_ok e \<Longrightarrow> pred_option arrays_ok (query_next e)"
  by (auto simp: query_next_def Let_def keep intro!: pred_option_trivial)

lemma keeps_query_one [keep]:
  assumes w: "plugins_keep w" and e: "arrays_ok e" shows "keeps (query_replace_one w e)"
  unfolding query_replace_one_def pred_option_bind
  by (rule pred_option_weak [OF keeps_replace [OF w]])
    (auto simp: keep e intro!: pred_option_weak [OF arrays_query_next])

lemma keeps_query_all [keep]:
  assumes w: "plugins_keep w" shows "arrays_ok e \<Longrightarrow> keeps (query_replace_all w e)"
proof -
  have "plugins_keep w \<longrightarrow> arrays_ok e \<longrightarrow> arrays_ok (fst r)" if "query_replace_all w e = Some r" for w e r
    using that
  proof (induction rule: query_replace_all.raw_induct [rotated, consumes 1, case_names step])
    case (step f w e r)
    show ?case
    proof (intro impI)
      assume "plugins_keep w" "arrays_ok e"
      from keeps_query_one [OF this] this step show "arrays_ok (fst r)"
        by (cases "query_replace_one w e") (fastforce split: if_splits)+
    qed
  qed
  with w show "arrays_ok e \<Longrightarrow> keeps (query_replace_all w e)"
    by (cases "query_replace_all w e") auto
qed

lemma arrays_input:
  assumes "arrays_ok e" "length s < CP_PROMPT_MAX" "p \<le> length s"
  shows "arrays_ok (e\<lparr>input := s, input_point := p\<rparr>)"
  using assms by (simp add: arrays_defs)

lemma arrays_inputD: "arrays_ok e \<Longrightarrow> length (input e) < CP_PROMPT_MAX \<and> input_point e \<le> length (input e)"
  by (simp add: arrays_defs)

lemma arrays_input_insert [keep]: "arrays_ok e \<Longrightarrow> arrays_ok (fst (input_insert s e))"
  using arrays_inputD [of e]
  by (auto simp: input_insert_def keep intro!: arrays_input)

lemma search_label_length: "length (search_label a b c) < 100"
  by (simp add: search_label_def)

lemma arrays_search_update [keep]:
  assumes "arrays_ok e" shows "pred_option arrays_ok (search_update r e)"
proof -
  have label: "arrays_ok (x\<lparr>prompt_label := search_label a b c\<rparr>)" if "arrays_ok x" for x a b c
    using that search_label_length by (simp add: arrays_defs)
  have good: "arrays_ok (x\<lparr>search_good := input y\<rparr>)" if "arrays_ok x" "arrays_ok y" for x y
    using that by (simp add: arrays_defs)
  show ?thesis
    unfolding search_update_def Let_def using assms
    by (auto simp: label good intro!: pred_option_trivial)
qed

lemma common_len_le: "common_len a b \<le> length a"
  by (induction a b rule: common_len.induct) auto

lemma completion_le:
  assumes "completion ss f common choices = (Some x, k, c)" "\<forall>y. f = Some y \<longrightarrow> common \<le> length y"
  shows "k \<le> length x"
  using assms
proof (induction ss f common choices rule: completion.induct)
  case (2 s ss f common choices)
  show ?case
  proof (cases f)
    case None
    with 2 show ?thesis by (auto simp: Let_def)
  next
    case (Some y)
    have "common_len (take common y) s \<le> length y" using common_len_le [of "take common y" s] by simp
    with 2 Some show ?thesis by (auto simp: Let_def)
  qed
qed auto

lemma arrays_complete [keep]:
  assumes "arrays_ok e" shows "arrays_ok (complete_input w os e)"
  using assms completion_le
  by (force simp: complete_input_def Let_def CP_PROMPT_MAX_def split: option.split prod.split
      intro!: keep arrays_input)

subsection \<open>Commands\<close>

lemma arrays_motion [keep]:
  "arrays_ok e \<Longrightarrow> arrays_ok (cmd_quit_prompt i e)" "arrays_ok e \<Longrightarrow> arrays_ok (cmd_char i n e)"
  "arrays_ok e \<Longrightarrow> arrays_ok (cmd_word w i n e)" "arrays_ok e \<Longrightarrow> arrays_ok (cmd_line_edge i x n e)"
  "arrays_ok e \<Longrightarrow> arrays_ok (cmd_buffer_edge i x n y e)" "arrays_ok e \<Longrightarrow> arrays_ok (cmd_recenter i e)"
  by (simp_all add: cmd_quit_prompt_def cmd_char_def cmd_word_def cmd_line_edge_def cmd_buffer_edge_def
      cmd_recenter_def Let_def keep)

lemma arrays_line [keep]:
  "arrays_ok e \<Longrightarrow> pred_option arrays_ok (cmd_line w i n e)"
  "arrays_ok e \<Longrightarrow> pred_option arrays_ok (cmd_scroll w i x n y e)"
  by (simp_all add: cmd_line_def cmd_scroll_def Let_def case_prod_beta)
    (auto simp: keep intro!: pred_option_trivial)

lemma motion_keeps:
  assumes "arrays_ok e" "motion_command w i cmd n x e = Some r" shows "keeps r"
  using assms unfolding motion_command_def by (auto simp: keep split: if_splits)

lemma edit_keeps:
  assumes "plugins_keep w" "arrays_ok e" "edit_command w i pk cmd n x e = Some r" shows "keeps r"
  using assms unfolding edit_command_def by (auto simp: keep split: if_splits)

lemma file_keeps:
  assumes w: "plugins_keep w" and e: "arrays_ok e" and r: "file_command w os i cmd arg (d, e) = Some r"
  shows "keeps_sys r"
proof -
  have save: "keeps_sys (let (d, e, ok) = editor_save w os d e arg f in Some ((d, e), ok))" for f
    using arrays_save [OF w e, of os d arg f] by (auto simp: case_prod_beta)
  show ?thesis
    using r w e save unfolding file_command_def Let_def
    by (auto simp: keep Let_def split: if_splits option.splits)
qed

lemma nat_mod_less: "0 < m \<Longrightarrow> nat (k mod int m) < m"
  using pos_mod_bound [of "int m" k] by (simp add: nat_less_iff)

lemma arrays_other_window [keep]:
  assumes "arrays_ok e" shows "arrays_ok (cmd_other_window i n e)"
proof -
  have "arrays_ok (x\<lparr>active_pane := nat ((int k + n) mod int (length (panes x)))\<rparr>)" if "arrays_ok x" for x k
    using that nat_mod_less [of "length (panes x)" "int k + n"] by (cases "panes x") (auto simp: arrays_defs)
  then show ?thesis
    using assms by (auto simp: cmd_other_window_def Let_def keep split: option.split)
qed

lemma arrays_windows [keep]:
  "arrays_ok e \<Longrightarrow> arrays_ok (cmd_delete_other_windows e)" "arrays_ok e \<Longrightarrow> keeps (cmd_split i x e)"
  by (auto simp: cmd_delete_other_windows_def cmd_split_def Let_def upd_pane_def refuse_def done_ok_def
      arrays_defs editor_message_def CP_MAX_PANES_def split: if_splits)

lemma arrays_delete_window [keep]:
  assumes "arrays_ok e" shows "keeps (cmd_delete_window e)"
proof (cases "length (panes e) = 1")
  case True
  with assms show ?thesis by (simp add: cmd_delete_window_def keep)
next
  case False
  let ?e = "e\<lparr>panes := remove_index (active_pane e) (panes e)\<rparr>"
  have "arrays_ok (if active_pane ?e \<ge> length (panes ?e) then ?e\<lparr>active_pane := 0\<rparr> else ?e)"
    using assms False by (auto simp: arrays_defs remove_index_def)
  moreover have "keeps (done_ok (case editor_by_id x p of None \<Rightarrow> x | Some q \<Rightarrow> editor_switch x q))"
    if "arrays_ok x" for x p using that by (simp add: keep split: option.split)
  ultimately show ?thesis
    unfolding cmd_delete_window_def if_not_P [OF False] Let_def by blast
qed

lemma arrays_buffers [keep]:
  "arrays_ok e \<Longrightarrow> arrays_ok (cmd_next_buffer n e)"
  "plugins_keep w \<Longrightarrow> arrays_ok e \<Longrightarrow> keeps (cmd_switch_buffer w arg e)"
  "arrays_ok e \<Longrightarrow> keeps (cmd_kill_buffer i arg e)"
  by (auto simp: cmd_next_buffer_def cmd_switch_buffer_def cmd_kill_buffer_def buffer_named_def keep last_index_less
      split: option.split intro!: pred_option_weak [OF arrays_new_buffer] pred_option_weak [OF arrays_drop_buffer])

lemma arrays_goto [keep]:
  "arrays_ok e \<Longrightarrow> keeps (cmd_goto i x arg n y e)" "arrays_ok e \<Longrightarrow> arrays_ok (cmd_isearch i x arg e)"
  by (auto simp: cmd_goto_def cmd_isearch_def Let_def keep split: option.split)

lemma session_keeps:
  assumes "plugins_keep w" "arrays_ok e" "session_command w i cmd arg n x e = Some r" shows "keeps r"
  using assms unfolding session_command_def by (auto simp: keep cmd_list_buffers_def split: if_splits)

lemma setting_keeps:
  assumes w: "plugins_keep w" and e: "arrays_ok e" and r: "setting_command w i cmd n e = Some r" shows "keeps r"
proof -
  have "arrays_ok (cmd_start_macro e)" "arrays_ok (cmd_end_macro e)"
    using e by (auto simp: cmd_start_macro_def cmd_end_macro_def Let_def arrays_defs editor_message_def
        dest!: in_set_butlastD)
  moreover have "keeps (cmd_describe_bindings w e)"
    using keeps_show_text [OF w e] by (auto simp: cmd_describe_bindings_def intro!: pred_option_trivial)
  ultimately show ?thesis
    using r e unfolding setting_command_def
    by (auto simp: keep cmd_text_scale_def cmd_describe_mode_def Let_def split: if_splits)
qed

lemma plugin_keeps:
  assumes "plugins_keep w" "arrays_ok e" shows "keeps (plugin_command w cmd arg n e)"
proof -
  obtain x ok where x: "plugins_command w e cmd arg n = (x, ok)" by fastforce
  then have "arrays_ok x" using keeps_plugin [OF assms, of cmd arg n] by simp
  then show ?thesis by (simp add: plugin_command_def x keep)
qed

lemma first_some_cases: "P d \<Longrightarrow> \<forall>x \<in> set xs. \<forall>r. x = Some r \<longrightarrow> P r \<Longrightarrow> P (first_some xs d)"
proof (induction xs)
  case (Cons x xs)
  then show ?case by (cases x) (simp_all add: first_some_def)
qed (simp add: first_some_def)

text \<open>The recursive calls of a step keep the bounds.\<close>

definition commander_keeps :: "commander \<Rightarrow> bool" where
  "commander_keeps f \<longleftrightarrow> (\<forall>c a n x d e. arrays_ok e \<longrightarrow> keeps_sys (f c a n x (d, e)))"

definition keyer_keeps :: "(bytes \<Rightarrow> sys \<Rightarrow> sys_result) \<Rightarrow> bool" where
  "keyer_keeps f \<longleftrightarrow> (\<forall>k d e. arrays_ok e \<longrightarrow> keeps_sys (f k (d, e)))"

lemma play_keys_keeps:
  assumes "keyer_keeps f"
  shows "arrays_ok e \<Longrightarrow> pred_option (\<lambda>(d, e). arrays_ok e) (play_keys f k n (d, e))"
proof (induction n arbitrary: k d e)
  case (Suc n)
  have "keeps_sys (f (macro_keys e ! k) (d, e))" using assms Suc.prems by (simp add: keyer_keeps_def)
  with Suc show ?case by (auto elim!: pred_option_weak)
qed simp

lemma call_macro_keeps:
  assumes f: "keyer_keeps f" and e: "arrays_ok e" shows "keeps_sys (cmd_call_macro f n (d, e))"
proof -
  have "pred_option (\<lambda>(d, e). arrays_ok e) (play_macro f k (d, e))" if "arrays_ok e" for k d e
    using that
  proof (induction k arbitrary: d e)
    case (Suc k)
    from pred_option_weak [OF play_keys_keeps [OF f this(2)]] Suc.IH show ?case by auto
  qed simp
  then have "pred_option (\<lambda>(d, e). arrays_ok e) (play_macro f (nat n) (d, e\<lparr>macro_playing := True\<rparr>))"
    using e by simp
  then show ?thesis
    using e by (auto simp: cmd_call_macro_def Let_def keep elim!: pred_option_weak)
qed

lemma dispatch_keeps:
  assumes w: "plugins_keep w" and f: "commander_keeps f" and g: "keyer_keeps g" and e: "arrays_ok e"
  shows "keeps_sys (dispatch w os f g cmd arg n x (d, e))"
proof -
  have tables: "keeps_sys (first_some
      [map_option (on_disk d) (motion_command w i cmd n x e), map_option (on_disk d) (edit_command w i pk cmd n x e),
       file_command w os i cmd arg (d, e), map_option (on_disk d) (session_command w i cmd arg n x e),
       map_option (on_disk d) (setting_command w i cmd n e)] (on_disk d (plugin_command w cmd arg n e)))"
    if "arrays_ok e" for i pk e
  proof (rule first_some_cases)
    show "keeps_sys (on_disk d (plugin_command w cmd arg n e))" using plugin_keeps [OF w that] by simp
    have M: "keeps_sys r" if "map_option (on_disk d) t = Some r" "\<And>u. t = Some u \<Longrightarrow> keeps u" for t r
      using that by (cases t) (auto simp del: split_paired_All split_paired_Ex)
    have "\<And>r. map_option (on_disk d) (motion_command w i cmd n x e) = Some r \<Longrightarrow> keeps_sys r"
      "\<And>r. map_option (on_disk d) (edit_command w i pk cmd n x e) = Some r \<Longrightarrow> keeps_sys r"
      "\<And>r. map_option (on_disk d) (session_command w i cmd arg n x e) = Some r \<Longrightarrow> keeps_sys r"
      "\<And>r. map_option (on_disk d) (setting_command w i cmd n e) = Some r \<Longrightarrow> keeps_sys r"
      by (erule M, erule motion_keeps [OF that] edit_keeps [OF w that] session_keeps [OF w that]
        setting_keeps [OF w that])+
    then show "\<forall>y \<in> set [map_option (on_disk d) (motion_command w i cmd n x e),
        map_option (on_disk d) (edit_command w i pk cmd n x e), file_command w os i cmd arg (d, e),
        map_option (on_disk d) (session_command w i cmd arg n x e),
        map_option (on_disk d) (setting_command w i cmd n e)]. \<forall>r. y = Some r \<longrightarrow> keeps_sys r"
      using file_keeps [OF w that] unfolding list.set ball_simps(5,7) by blast
  qed
  define e1 where "e1 = (if cmd = lit ''next-line'' \<or> cmd = lit ''previous-line'' then e\<lparr>last_kind := 0\<rparr>
    else upd_buf (current e) (\<lambda>b. b\<lparr>goal_valid := False\<rparr>) (e\<lparr>last_kind := 0\<rparr>))"
  have e1: "arrays_ok e1" using e by (simp add: e1_def)
  have macro: "keeps_sys (cmd_call_macro g n (d, e1))" using g e1 by (rule call_macro_keeps)
  have ext: "keeps_sys (case arg of None \<Rightarrow> on_disk d (done_ok (prompt l cmd [] e1)) | Some name \<Rightarrow> f name None n x (d, e1))" for l
    using f e1 by (simp add: commander_keeps_def keep split: option.split)
  show ?thesis
    using tables [OF e1, of "current e" "last_kind e"] macro ext
    unfolding dispatch_def Let_def prod.case e1_def [symmetric] by (simp only: if_split simp_thms)
qed

lemma command_step_keeps:
  assumes "plugins_keep w" "commander_keeps f" "keyer_keeps g"
  shows "commander_keeps (command_step w os f g)"
  unfolding commander_keeps_def
proof (intro allI impI)
  fix c a n x d e assume e: "arrays_ok e"
  define e1 where "e1 = (let e' = e\<lparr>command_depth := command_depth e + 1\<rparr> in
    if command_depth e = 0 then e'\<lparr>group := group e' + 1, message := []\<rparr> else e')"
  have "arrays_ok (y\<lparr>group := k, message := []\<rparr>)" if "arrays_ok y" for y k
    using that by (simp add: arrays_defs)
  then have "arrays_ok e1" using e by (simp add: e1_def Let_def)
  note D = dispatch_keeps [OF assms this, of os c a n x d]
  show "keeps_sys (command_step w os f g c a n x (d, e))"
  proof (cases "32 \<le> command_depth e \<or> n < -100000 \<or> 100000 < n")
    case True
    with e show ?thesis by (auto simp: command_step_def keep)
  next
    case False
    then have c: "\<not> 32 \<le> command_depth e" "\<not> (n < -100000 \<or> 100000 < n)" by simp_all
    have eq: "command_step w os f g c a n x (d, e) = dispatch w os f g c a n x (d, e1) \<bind> (\<lambda>((d, e'), ok).
        let e' = e'\<lparr>command_depth := command_depth e' - 1\<rparr>
        in Some ((d, if command_depth e = 0 then e'\<lparr>last_command := take 99 c\<rparr> else e'), ok))"
      unfolding command_step_def e1_def Let_def prod.case if_not_P [OF c(1)] if_not_P [OF c(2)] by (rule refl)
    show ?thesis
      unfolding eq pred_option_bind by (rule pred_option_weak [OF D]) (auto simp: Let_def keep)
  qed
qed

subsection \<open>Keys\<close>

lemma kill_confirm_keeps [keep]:
  assumes "arrays_ok e" shows "keeps (kill_confirm_key key e)"
proof -
  have "buffers (prompt_clear e) = buffers e" by (simp add: prompt_clear_def)
  then have "pred_option arrays_ok (editor_drop_buffer (prompt_clear e) k)"
    if "editor_by_id e i = Some k" for k i
    using that find_index_less assms by (intro keep) (auto simp: editor_by_id_def)
  with assms show ?thesis
    by (auto simp: kill_confirm_key_def keep split: option.split)
qed

lemma save_modified_keeps:
  assumes w: "plugins_keep w"
  shows "arrays_ok e \<Longrightarrow> arrays_ok (snd (fst (save_modified w os k n (d, e))))"
proof (induction n arbitrary: k d e)
  case (Suc n)
  obtain d1 e1 ok where s: "editor_save w os d (editor_switch e k) None False = (d1, e1, ok)"
    by (metis prod_cases3)
  have "arrays_ok e1" using arrays_save [OF w arrays_switch [OF Suc.prems]] s by (metis fst_conv snd_conv)
  with s Suc show ?case by (simp add: keep Let_def)
qed simp

lemma quit_confirm_keeps [keep]:
  assumes "plugins_keep w" "arrays_ok e" shows "keeps_sys (quit_confirm_key w os key (d, e))"
proof -
  obtain d1 e1 ok where s: "save_modified w os 0 CP_MAX_BUFFERS (d, e) = ((d1, e1), ok)"
    by (metis surj_pair)
  have "arrays_ok e1" using save_modified_keeps [OF assms, of os 0 CP_MAX_BUFFERS d] s by simp
  with s assms show ?thesis by (simp add: quit_confirm_key_def Let_def keep)
qed

lemma query_step_keeps [keep]:
  "plugins_keep w \<Longrightarrow> arrays_ok e \<Longrightarrow> keeps (query_step_key w key e)"
  by (simp add: query_step_key_def keep)

lemma str_prev_le: "str_prev s i \<le> i"
  by (induction s i rule: str_prev.induct) auto

lemma str_skip_le: "i \<le> length s \<Longrightarrow> str_skip s i \<le> length s"
  by (induction s i rule: str_skip.induct) (subst str_skip.simps, auto)

lemma str_next_le: "i \<le> length s \<Longrightarrow> str_next s i \<le> length s"
  by (simp add: str_next_def str_skip_le)

lemma str_skip_ge: "i \<le> str_skip s i"
  by (induction s i rule: str_skip.induct) (subst str_skip.simps, auto)

lemma str_next_ge: "i \<le> str_next s i"
  using str_skip_ge [of "i + 1" s] by (simp add: str_next_def)

lemma arrays_input_key:
  assumes "arrays_ok e" "input_key key e = Some e'" shows "arrays_ok e'"
proof -
  let ?s = "input e" and ?p = "input_point e"
  have b: "length ?s < CP_PROMPT_MAX" "?p \<le> length ?s" using arrays_inputD [OF assms(1)] by simp_all
  have pt: "arrays_ok (e\<lparr>input_point := p\<rparr>)" if "p \<le> length ?s" for p
    using that assms(1) by (simp add: arrays_defs)
  have cut: "arrays_ok (e\<lparr>input := t\<rparr>)" if "length t < CP_PROMPT_MAX" "?p \<le> length t" for t
    using that assms(1) by (simp add: arrays_defs)
  have "str_prev ?s ?p \<le> ?p" "str_next ?s ?p \<le> length ?s" "?p \<le> str_next ?s ?p"
    using str_prev_le str_next_le [OF b(2)] str_next_ge by simp_all
  with assms b show ?thesis
    by (auto simp: input_key_def Let_def keep split: if_splits intro!: pt cut arrays_input)
qed

lemma prompt_return_keeps:
  assumes f: "commander_keeps f" and p: "keyer_keeps p" and e: "arrays_ok e"
  shows "keeps_sys (prompt_return f p (d, e))"
proof -
  let ?c = "prompt_clear e"
  have str: "arrays_ok (?c\<lparr>last_search := input e\<rparr>)" "arrays_ok (?c\<lparr>replace_from := input e\<rparr>)"
    "arrays_ok (?c\<lparr>replace_to := input e\<rparr>)" and c: "arrays_ok ?c"
    using e by (auto simp: arrays_defs prompt_clear_def CP_PROMPT_MAX_def)
  have q: "keeps_sys (query_next (?c\<lparr>replace_to := input e\<rparr>) \<bind>
      (\<lambda>e. if b \<and> prompt_command e \<noteq> [] then p (lit ''!'') (d, e) else Some ((d, e), True)))" for b
    unfolding pred_option_bind using p
    by (intro pred_option_weak [OF arrays_query_next [OF str(3)]]) (auto simp: keyer_keeps_def)
  show ?thesis
    using f q str c by (simp add: prompt_return_def Let_def commander_keeps_def keep)
qed

lemma prompt_step_keeps:
  assumes w: "plugins_keep w" and f: "commander_keeps f" and p: "keyer_keeps p" and k: "keyer_keeps k"
  shows "keyer_keeps (prompt_step w os f p k)"
  unfolding keyer_keeps_def
proof (intro allI impI)
  fix key d e assume e: "arrays_ok e"
  have good: "arrays_ok (e\<lparr>input := search_good e, input_point := length (search_good e), search_failed := False\<rparr>)"
    and last: "arrays_ok (e\<lparr>search_backward := b, input := last_search e, input_point := length (last_search e)\<rparr>)"
    and kept: "arrays_ok (prompt_clear (e\<lparr>last_search := input e\<rparr>))" for b
    using e by (auto simp: arrays_defs prompt_clear_def CP_PROMPT_MAX_def)
  note F = f [unfolded commander_keeps_def, rule_format, OF e]
  show "keeps_sys (prompt_step w os f p k key (d, e))"
  proof (cases "input_key key e")
    case None
    have "keeps_sys (k key (d, prompt_clear (e\<lparr>last_search := input e\<rparr>)))"
      using k kept by (simp add: keyer_keeps_def)
    with None e good last F prompt_return_keeps [OF f p e] show ?thesis
      by (simp add: prompt_step_def Let_def keep w)
  next
    case (Some e')
    have "arrays_ok e'" using e Some by (rule arrays_input_key)
    with Some e good last F prompt_return_keeps [OF f p e] show ?thesis
      by (simp add: prompt_step_def Let_def keep w)
  qed
qed

lemma arrays_prefix:
  "arrays_ok e \<Longrightarrow> 0 \<le> v \<Longrightarrow> v \<le> 100009 \<Longrightarrow> arrays_ok (e\<lparr>prefix_value := v\<rparr>)"
  "arrays_ok e \<Longrightarrow> 0 \<le> prefix_value e" "arrays_ok e \<Longrightarrow> prefix_value e \<le> 100009"
  by (simp_all add: arrays_defs)

lemma arrays_universal [keep]:
  assumes "arrays_ok e" shows "arrays_ok (universal_argument e)"
proof -
  have four: "arrays_ok (e\<lparr>prefix_value := 4\<rparr>)"
    and times: "prefix_value e \<le> 25000 \<Longrightarrow> arrays_ok (e\<lparr>prefix_value := prefix_value e * 4\<rparr>)"
    using arrays_prefix [OF assms] assms by (simp_all add: arrays_defs)
  have set: "arrays_ok x \<Longrightarrow> arrays_ok (editor_message m (x\<lparr>prefix_set := True\<rparr>))" for x m
    by (rule arrays_message) simp
  show ?thesis
    unfolding universal_argument_def Let_def by (rule set) (simp add: four times assms)
qed

lemma digit_range: "is_digit c \<Longrightarrow> uint (c - 48) \<le> 9"
  by (simp add: is_digit_def) uint_arith

lemma arrays_digit:
  assumes "arrays_ok e" "is_digit c \<or> c = 45" shows "arrays_ok (fst (digit_argument c e))"
proof -
  define e1 where "e1 = (if \<not> prefix_set e
    then e\<lparr>prefix_value := 0, prefix_digits := False, prefix_negative := False\<rparr> else e)"
  have e1: "arrays_ok e1" using assms(1) by (simp add: e1_def) (simp add: arrays_defs)
  define e2 where "e2 = (if \<not> prefix_digits e1 then e1\<lparr>prefix_value := 0\<rparr> else e1)"
  have e2: "arrays_ok e2" using arrays_prefix(1) [OF e1, of 0] e1 by (simp add: e2_def)
  have set: "arrays_ok x \<Longrightarrow> arrays_ok (editor_message m (x\<lparr>prefix_set := True\<rparr>))" for x m
    by (rule arrays_message) simp
  have minus: "arrays_ok (e1\<lparr>prefix_negative := True, prefix_value := (if b then prefix_value e1 else 1)\<rparr>)" for b
    using e1 by (simp add: arrays_defs)
  have digit: "arrays_ok (e2\<lparr>prefix_value := prefix_value e2 * 10 + int (unat (c - 48)), prefix_digits := True\<rparr>)"
    if "prefix_value e2 \<le> 10000" "c \<noteq> 45"
    using that e2 digit_range [of c] assms(2) by (simp add: arrays_defs)
  show ?thesis
    unfolding digit_argument_def Let_def e1_def [symmetric] e2_def [symmetric]
    using e2 minus digit by (simp add: set keep)
qed

lemma argument_char_digit: "argument_char key e = Some c \<Longrightarrow> is_digit c \<or> c = 45"
  by (auto simp: argument_char_def split: if_splits)

lemma arrays_record: "arrays_ok e \<Longrightarrow> length key \<le> 80 \<Longrightarrow> record_key key e = Some e' \<Longrightarrow> arrays_ok e'"
  by (auto simp: record_key_def arrays_defs split: if_splits)

lemma arrays_clear_prefix [simp]: "arrays_ok (clear_prefix e) = arrays_ok e"
  by (simp add: clear_prefix_def arrays_defs)

lemma keeps_self_insert [keep]:
  assumes "plugins_keep w" "arrays_ok e" shows "keeps (self_insert w key e)"
proof -
  have "arrays_ok (x\<lparr>group := g, last_kind := 0, message := []\<rparr>)" if "arrays_ok x" for x g
    using that by (simp add: arrays_defs)
  with assms show ?thesis by (simp add: self_insert_def Let_def keep)
qed

lemma bound_key_keeps:
  assumes w: "plugins_keep w" and f: "commander_keeps f" and e: "arrays_ok e"
  shows "keeps_sys (bound_key w f key (d, e))"
proof -
  let ?full = "full_key (key_prefix e) key"
  have p: "arrays_ok (e\<lparr>key_prefix := ?full\<rparr>)"
    using e by (simp add: arrays_defs full_key_def)
  obtain c b where l: "lookup_key (bindings e) (buf_mode (editor_buffer e)) ?full = (c, b)" by fastforce
  show ?thesis
    using f e p by (simp add: bound_key_def l Let_def commander_keeps_def keep w split: option.split)
qed

lemma key_step_keeps:
  assumes w: "plugins_keep w" and f: "commander_keeps f" and p: "keyer_keeps p"
  shows "keyer_keeps (key_step w f p)"
  unfolding keyer_keeps_def
proof (intro allI impI)
  fix key d e assume e: "arrays_ok e"
  show "keeps_sys (key_step w f p key (d, e))"
  proof (cases "key = [] \<or> 80 < length key \<or> record_key key e = None")
    case True
    with e show ?thesis by (auto simp: key_step_def keep)
  next
    case False
    then obtain e1 where e1: "record_key key e = Some e1" by (cases "record_key key e") auto
    note e1 = e1 arrays_record [OF e _ e1]
    have e1: "record_key key e = Some e1" "arrays_ok e1" using e1 False by simp_all
    have "keeps (Some (digit_argument c e1))" if "argument_char key e1 = Some c" for c
      using arrays_digit [OF e1(2) argument_char_digit [OF that]] by (simp add: case_prod_beta)
    with e1 False bound_key_keeps [OF w f e1(2)] f p show ?thesis
      by (simp add: key_step_def Let_def commander_keeps_def keyer_keeps_def keep split: option.split)
  qed
qed

text \<open>Hence every call, at any depth.\<close>

lemma run_keeps:
  assumes w: "plugins_keep w" shows "arrays_ok e \<Longrightarrow> keeps_sys (run w os n c (d, e))"
proof (induction n arbitrary: c d e)
  case (Suc n)
  have "commander_keeps (\<lambda>cmd arg count explicit. run w os n (Command cmd arg count explicit))"
    "keyer_keeps (\<lambda>key. run w os n (Key key))" "keyer_keeps (\<lambda>key. run w os n (Prompt_key key))"
    using Suc.IH by (simp_all add: commander_keeps_def keyer_keeps_def)
  from command_step_keeps [OF w this(1,2)] key_step_keeps [OF w this(1,3)] prompt_step_keeps [OF w this(1,3,2)]
  show ?case using Suc.prems by (cases c) (simp_all add: Let_def commander_keeps_def keyer_keeps_def)
qed simp

lemma keys_keep:
  assumes w: "plugins_keep w" shows "arrays_ok e \<Longrightarrow> keeps_sys (editor_keys w os n ks (d, e))"
proof (induction ks arbitrary: d e)
  case (Cons k ks)
  show ?case
    unfolding editor_keys.simps pred_option_bind editor_key_def
    by (rule pred_option_weak [OF run_keeps [OF w Cons.prems]])
      (auto intro!: pred_option_weak [OF Cons.IH])
qed simp

text \<open>The initial editor.\<close>

lemma arrays_bind [simp]: "arrays_ok (editor_bind e k c m) = arrays_ok e"
proof -
  have "arrays_ok (e\<lparr>bindings := bs\<rparr>) = arrays_ok e" for bs by (simp add: arrays_defs)
  then show ?thesis by (simp add: editor_bind_def split: option.split)
qed

lemma arrays_init: "pred_option arrays_ok editor_init"
proof -
  have fold: "arrays_ok (foldl (\<lambda>e (k, c). editor_bind e (lit k) (lit c) []) e ps) = arrays_ok e" for e ps
    by (induction ps arbitrary: e) (simp_all add: case_prod_beta)
  have "arrays_ok (blank_editor\<lparr>next_id := i, buffers := [b], panes := [p]\<rparr>)" for i b p
    unfolding arrays_defs blank_editor_def CP_MAX_BUFFERS_def CP_MAX_PANES_def CP_PROMPT_MAX_def CP_KILL_RING_def
    by simp
  moreover have "length (buffers blank_editor) = 0" "length (panes blank_editor) = 1" "buffers blank_editor = []"
    by (simp_all add: blank_editor_def)
  moreover from this(2) have "(panes blank_editor)[0 := p] = [p]" for p by (cases "panes blank_editor") auto
  ultimately show ?thesis
    by (simp add: editor_init_def editor_new_buffer_def editor_default_bindings_def Let_def fold keep
        CP_MAX_BUFFERS_def pred_option_trivial)
qed

subsection \<open>Properties\<close>


lemma sample_plugins_keep: "plugins_keep sample_world"
  by (simp add: plugins_keep_def sample_world_def)

lemma sample_editor_arrays: "arrays_ok sample_editor"
  unfolding arrays_defs sample_editor_def blank_editor_def CP_MAX_BUFFERS_def CP_MAX_PANES_def CP_PROMPT_MAX_def
    CP_KILL_RING_def by simp


end
