(* ===== verification/Protocol.thy ===== *)
theory Protocol
  imports View Bounds
begin

section \<open>Requests (\<open>src/protocol.c\<close>)\<close>

text \<open>
  Every operation a front end can ask for. An operation yields the new state and either the
  message of an early refusal or its outcome with the value it returns. \<open>None\<close> is, as in the
  commands it runs, a request that never returns.
\<close>

subsection \<open>Checking a request\<close>

datatype json_type = Type_null | Type_boolean | Type_int | Type_double | Type_string | Type_array | Type_object

definition json_type_of :: "json \<Rightarrow> json_type" where
  "json_type_of j = (case j of JNull \<Rightarrow> Type_null | JBool b \<Rightarrow> Type_boolean | JInt i \<Rightarrow> Type_int | JReal r \<Rightarrow> Type_double
     | JString s \<Rightarrow> Type_string | JArray xs \<Rightarrow> Type_array | JObject ms \<Rightarrow> Type_object)"

definition field_type :: "json \<Rightarrow> bytes \<Rightarrow> json_type \<Rightarrow> bool \<Rightarrow> bool" where
  "field_type req name t required =
     (let v = json_field req name in if v \<noteq> JNull then json_type_of v = t else \<not> required)"

definition failure :: "bytes \<Rightarrow> json" where
  "failure msg = JObject [(lit ''ok'', JBool False), (lit ''error'', JString msg)]"

fun safe_strings :: "json \<Rightarrow> bool" and safe_items :: "json list \<Rightarrow> bool" and safe_members :: "(bytes \<times> json) list \<Rightarrow> bool" where
  "safe_strings (JString s) = utf8_valid s"
| "safe_strings (JArray xs) = safe_items xs"
| "safe_strings (JObject ms) = safe_members ms"
| "safe_strings _ = True"
| "safe_items [] = True"
| "safe_items (x # xs) = (safe_strings x \<and> safe_items xs)"
| "safe_members [] = True"
| "safe_members ((k, x) # ms) = (safe_strings x \<and> safe_members ms)"

text \<open>The bytes of a string member, all of them.\<close>

definition field_bytes :: "json \<Rightarrow> bytes \<Rightarrow> bytes" where
  "field_bytes req name = (case json_field req name of JString s \<Rightarrow> s | _ \<Rightarrow> [])"

definition field_c_string :: "json \<Rightarrow> bytes \<Rightarrow> bytes" where
  "field_c_string req name = (case json_string req name (Some []) of Some s \<Rightarrow> s | None \<Rightarrow> [])"

subsection \<open>The operations\<close>

type_synonym outcome = "(sys \<times> (bytes + bool \<times> json)) option"

definition refused :: "string \<Rightarrow> sys \<Rightarrow> outcome" where
  "refused msg s = Some (s, Inl (lit msg))"

definition answered :: "json \<Rightarrow> sys \<Rightarrow> outcome" where
  "answered value s = Some (s, Inr (True, value))"

definition outcome_of :: "sys_result \<Rightarrow> outcome" where
  "outcome_of r = map_option (\<lambda>(s, ok). (s, Inr (ok, JNull))) r"

definition new_group :: "Editor \<Rightarrow> Editor" where
  "new_group e = e\<lparr>group := group e + 1\<rparr>"

definition MAX_TRANSFER :: nat where
  "MAX_TRANSFER = 2 * 1024 * 1024"

text \<open>\<open>keys\<close>: stops with a refusal at the first element that is no string.\<close>

fun request_keys :: "World \<Rightarrow> Os \<Rightarrow> nat \<Rightarrow> json list \<Rightarrow> bool \<Rightarrow> sys \<Rightarrow> outcome" where
  "request_keys w os n [] ok s = Some (s, Inr (ok, JNull))"
| "request_keys w os n (k # ks) ok s =
     (case k of
        JString key \<Rightarrow> do {
          (s, done) \<leftarrow> editor_key w os n (c_string key) s;
          request_keys w os n ks (ok \<and> done) s }
      | _ \<Rightarrow> refused ''Every key must be a string'' s)"

definition op_keys :: "World \<Rightarrow> Os \<Rightarrow> nat \<Rightarrow> json \<Rightarrow> sys \<Rightarrow> outcome" where
  "op_keys w os n req s =
     (case json_field req (lit ''keys'') of
        JArray ks \<Rightarrow> if length ks > 10000 then refused ''keys must be an array of at most 10000 strings'' s
          else request_keys w os n ks True s
      | _ \<Rightarrow> refused ''keys must be an array of at most 10000 strings'' s)"

definition op_insert :: "World \<Rightarrow> json \<Rightarrow> sys \<Rightarrow> outcome" where
  "op_insert w req s =
     (let (d, e) = s; t = field_bytes req (lit ''text'') in
      if \<not> field_type req (lit ''text'') Type_string True then refused ''text must be a string'' s
      else
        let e = (new_group e)\<lparr>last_kind := 0\<rparr> in
        outcome_of (on_disk d (if utf8_valid t then editor_paste w t e else Some (e, False))))"

definition op_command :: "World \<Rightarrow> Os \<Rightarrow> nat \<Rightarrow> json \<Rightarrow> sys \<Rightarrow> outcome" where
  "op_command w os n req s =
     (if \<not> field_type req (lit ''name'') Type_string True \<or> \<not> field_type req (lit ''argument'') Type_string False \<or>
         \<not> field_type req (lit ''count'') Type_int False
      then refused ''command requires name; argument must be string and count integer'' s
      else outcome_of (editor_command w os n (field_c_string req (lit ''name'')) (json_string req (lit ''argument'') None)
        (json_int req (lit ''count'') 1) (json_field req (lit ''count'') \<noteq> JNull) s))"

definition op_open :: "World \<Rightarrow> Os \<Rightarrow> json \<Rightarrow> sys \<Rightarrow> outcome" where
  "op_open w os req s =
     (if \<not> field_type req (lit ''path'') Type_string True then refused ''path must be a string'' s
      else let (d, e) = s in
        outcome_of (on_disk d (editor_open w os d (new_group e) (field_c_string req (lit ''path'')))))"

definition op_save :: "World \<Rightarrow> Os \<Rightarrow> json \<Rightarrow> sys \<Rightarrow> outcome" where
  "op_save w os req s =
     (if \<not> field_type req (lit ''path'') Type_string False then refused ''path must be a string'' s
      else
        let (d, e) = s; (d, e, ok) = editor_save w os d (new_group e) (json_string req (lit ''path'') None)
              (jbool req (lit ''force'') False)
        in Some ((d, e), Inr (ok, JNull)))"

definition op_get_text :: "json \<Rightarrow> sys \<Rightarrow> outcome" where
  "op_get_text req s =
     (let t = buf_text (editor_buffer (snd s)); at = json_int req (lit ''start'') 0;
          z = json_int req (lit ''end'') (int (text_size t)) in
      if at < 0 \<or> z < at \<or> z > int (text_size t) \<or> z - at > int MAX_TRANSFER \<or>
        \<not> text_boundary t (nat at) \<or> \<not> text_boundary t (nat z)
      then refused ''Invalid byte range, or range exceeds 2 MiB; request chunks'' s
      else answered (JString (text_slice t (nat at) (nat (z - at)))) s)"

definition op_replace :: "World \<Rightarrow> json \<Rightarrow> sys \<Rightarrow> outcome" where
  "op_replace w req s =
     (if \<not> field_type req (lit ''text'') Type_string True \<or> \<not> field_type req (lit ''start'') Type_int True \<or>
         \<not> field_type req (lit ''end'') Type_int True
      then refused ''replace requires integer start/end and string text'' s
      else
        let (d, e) = s; a = json_int req (lit ''start'') (- 1); z = json_int req (lit ''end'') (- 1) in
        if a < 0 \<or> z < a then refused ''Invalid byte range'' s
        else outcome_of (on_disk d (editor_replace w (new_group e) (nat a) (nat (z - a)) (field_bytes req (lit ''text'')))))"

definition op_set_text :: "World \<Rightarrow> json \<Rightarrow> sys \<Rightarrow> outcome" where
  "op_set_text w req s =
     (if \<not> field_type req (lit ''text'') Type_string True then refused ''text must be a string'' s
      else let (d, e) = s in outcome_of (on_disk d (editor_set_text w (new_group e) (field_bytes req (lit ''text'')))))"

definition op_point :: "json \<Rightarrow> sys \<Rightarrow> outcome" where
  "op_point req s =
     (let (d, e) = s; at = json_int req (lit ''byte'') (- 1) in
      if at < 0 \<or> \<not> text_boundary (buf_text (editor_buffer e)) (nat at)
      then refused ''Point must be a valid UTF-8 byte boundary'' s
      else answered JNull (d, upd_current (\<lambda>b. b\<lparr>point := nat at, goal_valid := False\<rparr>) e))"

text \<open>The conversion \<open>(int)\<close> of a 64-bit number.\<close>

definition to_int32 :: "int \<Rightarrow> int" where
  "to_int32 i = sint (word_of_int i :: 32 word)"

text \<open>A click in a window whose buffer is gone dereferences a null pointer: \<open>None\<close>.\<close>

definition op_click :: "World \<Rightarrow> json \<Rightarrow> sys \<Rightarrow> outcome" where
  "op_click w req s =
     (let (d, e) = s; pane = to_int32 (json_int req (lit ''pane'') (int (active_pane e)));
          row = json_int req (lit ''line'') 0; col = json_int req (lit ''column'') 0 in
      if pane < 0 \<or> pane \<ge> int (length (panes e)) \<or> row < 0 \<or> col < 0 then refused ''Invalid click coordinates'' s
      else
        let e = (upd_pane (active_pane e) (\<lambda>p. p\<lparr>pane_point := point (editor_buffer e)\<rparr>) e)\<lparr>active_pane := nat pane\<rparr> in
        case editor_by_id e (pane_buffer (panes e ! nat pane)) of
          None \<Rightarrow> None
        | Some i \<Rightarrow>
            let e = editor_switch e i;
                e = upd_buf i (\<lambda>b. if jbool req (lit ''extend'') False
                    then if \<not> mark_active b then b\<lparr>mark := point b, has_mark := True, mark_active := True\<rparr> else b
                    else b\<lparr>mark_active := False\<rparr>) e
            in do {
              (at, b) \<leftarrow> editor_at_column w (buffers e ! i) (nat row) (nat col);
              answered JNull (d, upd_buf i (\<lambda>_. b\<lparr>point := at, goal_valid := False\<rparr>) e) })"

definition op_selection :: "sys \<Rightarrow> outcome" where
  "op_selection s =
     (let b = editor_buffer (snd s); a = min (point b) (mark b); z = max (point b) (mark b) in
      if \<not> mark_active b then answered (JString []) s
      else if z - a > MAX_TRANSFER then refused ''Selection exceeds 2 MiB'' s
      else answered (JString (text_slice (buf_text b) a (z - a))) s)"

definition op_kill_ring :: "sys \<Rightarrow> outcome" where
  "op_kill_ring s =
     (let t = (case kill_ring (snd s) of [] \<Rightarrow> [] | k # _ \<Rightarrow> k) in
      if length t > MAX_TRANSFER then refused ''Clipboard transfer exceeds 2 MiB'' s else answered (JString t) s)"

definition op_yank_external :: "World \<Rightarrow> Os \<Rightarrow> nat \<Rightarrow> json \<Rightarrow> sys \<Rightarrow> outcome" where
  "op_yank_external w os n req s =
     (if \<not> field_type req (lit ''text'') Type_string True then refused ''text must be a string'' s
      else
        let (d, e) = s; t = field_c_string req (lit ''text'') in
        outcome_of (if prompt_command e \<noteq> [] then on_disk d (editor_paste w t e) else editor_external_yank w os n t s))"

subsection \<open>One request\<close>

definition request_op :: "World \<Rightarrow> Os \<Rightarrow> nat \<Rightarrow> bytes \<Rightarrow> json \<Rightarrow> sys \<Rightarrow> outcome" where
  "request_op w os n op req s =
     (if op = lit ''snapshot'' \<or> op = lit ''hello'' then answered JNull s
      else if op = lit ''key'' then
        (if \<not> field_type req (lit ''key'') Type_string True then refused ''key must be a string'' s
         else outcome_of (editor_key w os n (field_c_string req (lit ''key'')) s))
      else if op = lit ''keys'' then op_keys w os n req s
      else if op = lit ''insert'' then op_insert w req s
      else if op = lit ''command'' then op_command w os n req s
      else if op = lit ''open'' then op_open w os req s
      else if op = lit ''save'' then op_save w os req s
      else if op = lit ''get_text'' then op_get_text req s
      else if op = lit ''replace'' then op_replace w req s
      else if op = lit ''set_text'' then op_set_text w req s
      else if op = lit ''point'' then op_point req s
      else if op = lit ''click'' then op_click w req s
      else if op = lit ''commands'' then answered (JArray (map JString (editor_command_names w (snd s)))) s
      else if op = lit ''selection'' then op_selection s
      else if op = lit ''kill_ring'' then op_kill_ring s
      else if op = lit ''yank_external'' then op_yank_external w os n req s
      else if op = lit ''quit'' then
        outcome_of (editor_command w os n
          (if jbool req (lit ''force'') False then lit ''kill-emacs'' else lit ''save-buffers-kill-terminal'') None 1 False s)
      else refused ''Unknown operation'' s)"

definition editor_request :: "World \<Rightarrow> Os \<Rightarrow> nat \<Rightarrow> json \<Rightarrow> sys \<Rightarrow> (sys \<times> json) option" where
  "editor_request w os n req s =
     (if json_type_of req \<noteq> Type_object \<or> \<not> field_type req (lit ''op'') Type_string True
      then Some (s, failure (lit ''Request must be an object with a string op''))
      else if \<not> safe_strings req then Some (s, failure (lit ''NUL bytes are not permitted in protocol strings''))
      else
        let e = (snd s)\<lparr>detach := False\<rparr>;
            rs = clamp 4 200 (json_int req (lit ''rows'') (rows e));
            cs = clamp 12 500 (json_int req (lit ''cols'') (cols e))
        in do {
          (s, r) \<leftarrow> request_op w os n (field_c_string req (lit ''op'')) req (fst s, e);
          case r of
            Inl msg \<Rightarrow> Some (s, failure msg)
          | Inr (ok, result) \<Rightarrow> do {
              let fields = [(lit ''ok'', JBool ok)] @
                (if ok then [] else [(lit ''error'', JString (message (snd s)))]) @
                (case json_field req (lit ''id'') of JNull \<Rightarrow> [] | i \<Rightarrow> [(lit ''id'', i)]) @
                (if result = JNull then [] else [(lit ''result'', result)]);
              if jbool req (lit ''no_snapshot'') False then Some (s, JObject fields)
              else do {
                (e, state) \<leftarrow> editor_snapshot w rs cs (snd s);
                Some ((fst s, e), JObject (fields @ [(lit ''state'', state)])) } } })"

subsection \<open>Every request keeps the arrays in bounds\<close>

lemma arrays_tables [simp]:
  "arrays_ok (e\<lparr>rows := i\<rparr>) = arrays_ok e" "arrays_ok (e\<lparr>cols := i\<rparr>) = arrays_ok e"
  by (simp_all add: arrays_defs)

lemma pane_json_keeps:
  assumes "arrays_ok e" "pane_json w rs cs n v index e = Some (e', j)" shows "arrays_ok e'"
proof -
  have "arrays_ok (e\<lparr>buffers := (buffers e)[i := b], panes := (panes e)[k := p]\<rparr>)" for i b k p
    using assms(1) by (simp add: arrays_defs)
  with assms show ?thesis
    by (auto simp: pane_json_def Let_def split: option.splits bind_splits)
qed

lemma panes_json_keeps: "arrays_ok e \<Longrightarrow> panes_json w rs cs n vs e = Some (e', js) \<Longrightarrow> arrays_ok e'"
proof (induction vs arbitrary: e js)
  case (Cons v vs)
  from Cons.prems(2) obtain e1 one more where
    "pane_json w rs cs n (int v) (if n = 1 then active_pane e else v) e = Some (e1, one)"
    "panes_json w rs cs n vs e1 = Some (e', more)"
    by (auto split: bind_splits)
  with Cons.IH pane_json_keeps [OF Cons.prems(1)] show ?case by blast
qed simp

lemma snapshot_keeps: "arrays_ok e \<Longrightarrow> pred_option (\<lambda>(e', j). arrays_ok e') (editor_snapshot w rs cs e)"
  by (cases "editor_snapshot w rs cs e")
    (auto simp: editor_snapshot_def Let_def keep split: bind_splits dest!: panes_json_keeps [rotated])

text \<open>The same of an outcome.\<close>

abbreviation keeps_outcome :: "outcome \<Rightarrow> bool" where
  "keeps_outcome r \<equiv> pred_option (\<lambda>((d, e), r). arrays_ok e) r"

lemma keeps_outcome_simps [simp]:
  "keeps_outcome (refused m (d, e)) = arrays_ok e" "keeps_outcome (answered j (d, e)) = arrays_ok e"
  "keeps_outcome (outcome_of r) = keeps_sys r" "arrays_ok (new_group e) = arrays_ok e"
  by (simp_all add: refused_def answered_def new_group_def) (cases r; auto simp: outcome_of_def)

lemma keeps_paste [keep]: "plugins_keep w \<Longrightarrow> arrays_ok e \<Longrightarrow> keeps (editor_paste w s e)"
  using arrays_input_insert [of e s]
  by (simp add: editor_paste_def case_prod_beta keep)

lemma keeps_call: "plugins_keep w \<Longrightarrow> arrays_ok e \<Longrightarrow> keeps_sys (editor_command w os n c a k x (d, e))"
  "plugins_keep w \<Longrightarrow> arrays_ok e \<Longrightarrow> keeps_sys (editor_key w os n key (d, e))"
  by (simp_all add: editor_command_def editor_key_def run_keeps)

lemma keeps_request_keys:
  "plugins_keep w \<Longrightarrow> arrays_ok e \<Longrightarrow> keeps_outcome (request_keys w os n ks ok (d, e))"
proof (induction ks arbitrary: ok d e)
  case (Cons k ks)
  show ?case
  proof (cases k)
    case (JString key)
    show ?thesis
      unfolding request_keys.simps JString json.case pred_option_bind
      by (rule pred_option_weak [OF keeps_call(2) [OF Cons.prems]]) (auto intro: Cons.IH Cons.prems)
  qed (use Cons.prems in simp_all)
qed simp

lemma keeps_click: "arrays_ok e \<Longrightarrow> keeps_outcome (op_click w req (d, e))"
proof -
  assume e: "arrays_ok e"
  have "arrays_ok (x\<lparr>active_pane := nat k\<rparr>)" if "arrays_ok x" "length (panes x) = length (panes e)"
    "0 \<le> k" "k < int (length (panes e))" for x k
    using that by (simp add: arrays_defs)
  moreover have "length (panes (upd_pane i f e)) = length (panes e)" for i f by (simp add: upd_pane_def)
  ultimately show ?thesis
    using e by (simp add: op_click_def Let_def keep case_prod_beta answered_def pred_option_trivial split: option.split)
qed

lemma keeps_edits:
  assumes w: "plugins_keep w" and e: "arrays_ok e"
  shows "keeps_outcome (op_insert w req (d, e))" "keeps_outcome (op_replace w req (d, e))"
    "keeps_outcome (op_set_text w req (d, e))" "keeps_outcome (op_point req (d, e))"
  using w e by (simp_all add: op_insert_def op_replace_def op_set_text_def op_point_def Let_def keep)

lemma keeps_reads:
  assumes "arrays_ok e"
  shows "keeps_outcome (op_get_text req (d, e))" "keeps_outcome (op_selection (d, e))" "keeps_outcome (op_kill_ring (d, e))"
  using assms by (simp_all add: op_get_text_def op_selection_def op_kill_ring_def Let_def)

lemma keeps_file_requests:
  assumes w: "plugins_keep w" and e: "arrays_ok e"
  shows "keeps_outcome (op_open w os req (d, e))" "keeps_outcome (op_save w os req (d, e))"
proof -
  have g: "arrays_ok (new_group e)" using e by simp
  show "keeps_outcome (op_open w os req (d, e))"
    using e by (simp add: op_open_def keeps_open [OF w g])
  obtain d' e' ok where save: "editor_save w os d (new_group e) (json_string req (lit ''path'') None)
      (jbool req (lit ''force'') False) = (d', e', ok)" by (metis prod_cases3)
  with arrays_save [OF w g, of os d] have "arrays_ok e'" by (metis fst_conv snd_conv)
  with save e show "keeps_outcome (op_save w os req (d, e))" by (simp add: op_save_def)
qed

lemma keeps_commands:
  assumes w: "plugins_keep w" and e: "arrays_ok e"
  shows "keeps_outcome (op_keys w os n req (d, e))" "keeps_outcome (op_command w os n req (d, e))"
    "keeps_outcome (op_yank_external w os n req (d, e))"
proof -
  show "keeps_outcome (op_keys w os n req (d, e))"
    using e keeps_request_keys [OF w e] by (simp add: op_keys_def split: json.split)
  show "keeps_outcome (op_command w os n req (d, e))"
    using e keeps_call [OF w e] by (simp add: op_command_def)
  have "keeps_sys (editor_external_yank w os n t (d, e))" for t
    using keeps_call(1) [OF w arrays_push_kill [OF e]] e by (simp add: editor_external_yank_def)
  then show "keeps_outcome (op_yank_external w os n req (d, e))"
    using e by (simp add: op_yank_external_def Let_def keeps_paste [OF w e])
qed

lemma request_op_keeps:
  assumes w: "plugins_keep w" and e: "arrays_ok e" shows "keeps_outcome (request_op w os n op req (d, e))"
  unfolding request_op_def
  using e keeps_edits [OF w e] keeps_reads [OF e] keeps_file_requests [OF w e] keeps_commands [OF w e]
    keeps_click [OF e] keeps_call [OF w e]
  by simp


subsection \<open>What requests answer\<close>

text \<open>The requests of a client that edits and reads back a range of bytes.\<close>

definition replace_request :: "nat \<Rightarrow> nat \<Rightarrow> bytes \<Rightarrow> json" where
  "replace_request a z s = JObject [(lit ''op'', JString (lit ''replace'')), (lit ''start'', JInt (int a)),
     (lit ''end'', JInt (int z)), (lit ''text'', JString s), (lit ''no_snapshot'', JBool True)]"

definition read_request :: "nat \<Rightarrow> nat \<Rightarrow> json" where
  "read_request a z = JObject [(lit ''op'', JString (lit ''get_text'')), (lit ''start'', JInt (int a)),
     (lit ''end'', JInt (int z)), (lit ''no_snapshot'', JBool True)]"

lemma c_string_lit [simp]: "c_string (lit ''replace'') = lit ''replace''" "c_string (lit ''get_text'') = lit ''get_text''"
  by (simp_all add: c_string_def lit_def byte_of_def)

lemma valid_lit [simp]: "utf8_valid (lit ''replace'')" "utf8_valid (lit ''get_text'')"
  by code_simp+

lemma clip64_int: "n < 2 ^ 63 \<Longrightarrow> clip64 (int n) = int n"
  by (simp add: clip64_def)

lemma replace_request_fields:
  assumes "z < 2 ^ 63" "a \<le> z" "utf8_valid s"
  shows "json_type_of (replace_request a z s) = Type_object" "field_type (replace_request a z s) (lit ''op'') Type_string True"
    "safe_strings (replace_request a z s)" "field_c_string (replace_request a z s) (lit ''op'') = lit ''replace''"
    "jbool (replace_request a z s) (lit ''no_snapshot'') b" "json_field (replace_request a z s) (lit ''id'') = JNull"
    "field_type (replace_request a z s) (lit ''text'') Type_string True"
    "field_type (replace_request a z s) (lit ''start'') Type_int True"
    "field_type (replace_request a z s) (lit ''end'') Type_int True"
    "json_int (replace_request a z s) (lit ''start'') k = int a" "json_int (replace_request a z s) (lit ''end'') k = int z"
    "field_bytes (replace_request a z s) (lit ''text'') = s"
  using assms clip64_int [of a] clip64_int [of z]
  by (simp_all add: replace_request_def json_type_of_def field_type_def field_c_string_def json_string_def jbool_def
      json_int_def field_bytes_def)

lemma read_request_fields:
  assumes "z < 2 ^ 63" "a \<le> z"
  shows "json_type_of (read_request a z) = Type_object" "field_type (read_request a z) (lit ''op'') Type_string True"
    "safe_strings (read_request a z)" "field_c_string (read_request a z) (lit ''op'') = lit ''get_text''"
    "jbool (read_request a z) (lit ''no_snapshot'') b" "json_field (read_request a z) (lit ''id'') = JNull"
    "json_int (read_request a z) (lit ''start'') k = int a" "json_int (read_request a z) (lit ''end'') k = int z"
  using assms clip64_int [of a] clip64_int [of z]
  by (simp_all add: read_request_def json_type_of_def field_type_def field_c_string_def json_string_def jbool_def json_int_def)

text \<open>Without a snapshot the reply is the envelope of the outcome.\<close>

lemma editor_request_plain:
  assumes "json_type_of req = Type_object" "field_type req (lit ''op'') Type_string True" "safe_strings req"
    and "jbool req (lit ''no_snapshot'') False" "json_field req (lit ''id'') = JNull"
    and "request_op w os n (field_c_string req (lit ''op'')) req (d, e\<lparr>detach := False\<rparr>) = Some (s, Inr (True, j))"
  shows "editor_request w os n req (d, e) =
    Some (s, JObject ((lit ''ok'', JBool True) # (if j = JNull then [] else [(lit ''result'', j)])))"
  using assms by (simp add: editor_request_def Let_def)

lemma ed_inv_request [simp]: "ed_inv (new_group e) = ed_inv e" "ed_inv (e\<lparr>detach := x\<rparr>) = ed_inv e"
  "editor_buffer (new_group e) = editor_buffer e" "editor_buffer (e\<lparr>detach := x\<rparr>) = editor_buffer e"
  "python_enabled (new_group e) = python_enabled e" "python_enabled (e\<lparr>detach := x\<rparr>) = python_enabled e"
  by (simp_all add: ed_inv_def new_group_def editor_buffer_def)

lemma read_range:
  assumes inv: "ed_inv e" and b: "boundary (content (editor_buffer e)) a" "boundary (content (editor_buffer e)) z"
    and z: "a \<le> z" "z - a \<le> MAX_TRANSFER" "z < 2 ^ 63"
  shows "editor_request w os n (read_request a z) (d, e) = Some ((d, e\<lparr>detach := False\<rparr>),
    JObject [(lit ''ok'', JBool True), (lit ''result'', JString (seg a (z - a) (content (editor_buffer e))))])"
proof -
  have t: "text_inv (buf_text (editor_buffer e))" using buf_invD(1) [OF ed_inv_buffer [OF inv]] .
  have "z \<le> length (content (editor_buffer e))" using b(2) by (rule boundary_le)
  moreover have "int z - int a \<le> int MAX_TRANSFER" using z(1,2) by linarith
  ultimately have "op_get_text (read_request a z) (d, e\<lparr>detach := False\<rparr>) =
      answered (JString (seg a (z - a) (content (editor_buffer e)))) (d, e\<lparr>detach := False\<rparr>)"
    using b z t read_request_fields [OF z(3,1)]
    by (simp add: op_get_text_def Let_def text_boundary_content text_size_content text_slice_ok nat_diff_distrib)
  then show ?thesis
    using read_request_fields [OF z(3,1)]
    by (subst editor_request_plain [where j = "JString (seg a (z - a) (content (editor_buffer e)))"])
      (simp_all add: request_op_def answered_def)
qed

text \<open>C17 A client that replaces a range of bytes and reads the new range back gets the text it sent, and the
  buffer holds it in the place of the old range; reading changes nothing.\<close>

theorem replace_then_read:
  assumes inv: "ed_inv e" "\<not> python_enabled e" and room: "length (added (buf_text (editor_buffer e))) + length s < size_max"
    and ok: "replace_ok (editor_buffer e) a (z - a) s" "a \<le> z" "length s \<le> MAX_TRANSFER" "z < 2 ^ 63" "a + length s < 2 ^ 63"
  shows "\<exists>e1. editor_request w os n (replace_request a z s) (d, e) = Some ((d, e1), JObject [(lit ''ok'', JBool True)]) \<and>
    content (editor_buffer e1) = splice a (z - a) s (content (editor_buffer e)) \<and>
    editor_request w os n (read_request a (a + length s)) (d, e1) =
      Some ((d, e1\<lparr>detach := False\<rparr>), JObject [(lit ''ok'', JBool True), (lit ''result'', JString s)])"
proof -
  let ?e = "new_group (e\<lparr>detach := False\<rparr>)" and ?xs = "content (editor_buffer e)"
  have b: "boundary ?xs a" "boundary ?xs (a + (z - a))" "utf8_valid s" using ok(1) by (simp_all add: replace_ok_def)
  have v: "utf8_valid ?xs" using text_inv_valid [OF buf_invD(1) [OF ed_inv_buffer [OF inv(1)]]] .
  obtain e1 where e1: "editor_replace w ?e a (z - a) s = Some (e1, True)" "ed_inv e1"
    "content (editor_buffer e1) = splice a (z - a) s ?xs"
    using editor_replace_ok [of ?e a "z - a" s w] inv room ok(1) by auto
  have "op_replace w (replace_request a z s) (d, e\<lparr>detach := False\<rparr>) = Some ((d, e1), Inr (True, JNull))"
    using replace_request_fields [OF ok(4,2) b(3)] ok(2) e1(1)
    by (simp add: op_replace_def Let_def outcome_of_def on_disk_def nat_diff_distrib)
  then have one: "editor_request w os n (replace_request a z s) (d, e) = Some ((d, e1), JObject [(lit ''ok'', JBool True)])"
    using replace_request_fields [OF ok(4,2) b(3)]
    by (subst editor_request_plain [where j = JNull]) (simp_all add: request_op_def)
  have "a \<le> length ?xs" using b(1) by (rule boundary_le)
  then have "seg a (length s) (splice a (z - a) s ?xs) = s" by (simp add: seg_def splice_def)
  then have "editor_request w os n (read_request a (a + length s)) (d, e1) =
      Some ((d, e1\<lparr>detach := False\<rparr>), JObject [(lit ''ok'', JBool True), (lit ''result'', JString s)])"
    using read_range [OF e1(2), of a "a + length s" w os n d] boundary_splice(1,2) [OF b(1,2) v b(3)] ok(3,5) e1(3) by simp
  with one e1(3) show ?thesis by blast
qed


text \<open>A \<open>keys\<close> request with an element that is no string is refused only after every key before that element
  has been executed.\<close>

theorem keys_refused_late:
  assumes "json_field req (lit ''keys'') = JArray (map JString ks @ bad # rest)"
    and "length ks + length rest < 10000" "json_type_of bad \<noteq> Type_string"
  shows "request_op w os n (lit ''keys'') req s =
    map_option (\<lambda>(s', ok). (s', Inl (lit ''Every key must be a string''))) (editor_keys w os n (map c_string ks) s)"
proof -
  have "request_keys w os n (map JString ks @ bad # rest) ok s =
      map_option (\<lambda>(s', ok). (s', Inl (lit ''Every key must be a string''))) (editor_keys w os n (map c_string ks) s)" for ok
    using assms(3)
  proof (induction ks arbitrary: ok s)
    case Nil
    then show ?case by (simp add: json_type_of_def refused_def split: json.splits)
  next
    case (Cons k ks)
    show ?case
    proof (cases "editor_key w os n (c_string k) s")
      case (Some r)
      obtain s1 ok1 where r: "r = (s1, ok1)" by fastforce
      show ?thesis
        using Some r Cons.IH [OF Cons.prems] by (cases "editor_keys w os n (map c_string ks) s1") auto
    qed simp
  qed
  with assms(1,2) show ?thesis by (simp add: request_op_def op_keys_def)
qed

subsection \<open>Witnesses\<close>

text \<open>Instances on the sample editor.\<close>

abbreviation empty_disk :: Disk where
  "empty_disk \<equiv> (\<lambda>_. None)"


theorem replace_then_read_witness:
  "\<exists>e1. editor_request sample_world sample_os 3 (replace_request 2 4 [120]) (empty_disk, sample_editor) =
      Some ((empty_disk, e1), JObject [(lit ''ok'', JBool True)]) \<and>
    content (editor_buffer e1) = [97, 98, 120, 10, 99, 100]"
proof -
  have "utf8_valid [120]" by code_simp
  moreover have "splice 2 2 [120] sample = [97, 98, 120, 10, 99, 100]" by (simp add: splice_def sample_def)
  ultimately show ?thesis
    using replace_then_read [OF sample_editor_inv sample_editor_simps(2), of "[120]" 2 4 sample_world sample_os 3 empty_disk]
      sample_room [of 1]
    by (auto simp: sample_editor_simps sample_buffer_simps sample_ok sample_content sample_boundary replace_ok_def
        MAX_TRANSFER_def)
qed


end
