(* ===== verification/Escapes.thy ===== *)
theory Escapes
  imports Columns Editor_State
begin

unbundle bit_operations_syntax

section \<open>Normalised request lines (\<open>strict_json_ascii\<close> in \<open>src/main.c\<close>)\<close>

text \<open>
  Before a request line is parsed, its characters beyond ASCII are written as \<open>\u\<close> escapes of
  their UTF-16 units. The lemmas compare the two lines under a reference decoder for the
  contents of a JSON string.
\<close>

subsection \<open>The code\<close>

definition hex_digit :: "32 word \<Rightarrow> byte" where
  "hex_digit u = lit ''0123456789abcdef'' ! unat (u AND 15)"

definition escape_unit :: "32 word \<Rightarrow> bytes" where
  "escape_unit u = [92, 117] @ map (\<lambda>shift. hex_digit (drop_bit shift u)) [12, 8, 4, 0]"

definition utf16_units :: "32 word \<Rightarrow> 32 word list" where
  "utf16_units c =
     (if c > 0xffff then let c = c - 0x10000 in [0xd800 + drop_bit 10 c, 0xdc00 + (c AND 1023)] else [c])"

function ascii_loop :: "bytes \<Rightarrow> bytes" where
  "ascii_loop s = (case s of [] \<Rightarrow> [] | b # t \<Rightarrow>
     if b < 128 then b # ascii_loop t
     else let (c, k) = utf8_decode s in concat (map escape_unit (utf16_units c)) @ ascii_loop (drop k s))"
  by pat_completeness auto
termination
proof (relation "measure length")
  fix s :: bytes and b t x c k
  assume "s = b # t" "x = utf8_decode s" "(c, k) = x"
  then have "1 \<le> k" "s \<noteq> []" using utf8_decode_used [of s] by (metis snd_conv, simp)
  then show "(drop k s, s) \<in> measure length" by simp
qed auto

declare ascii_loop.simps [simp del]

text \<open>\<open>None\<close> is the null pointer returned for a line that is ASCII already; otherwise the bytes written
  to the new block, which has room for three times the line and a NUL.\<close>

definition strict_json_ascii :: "bytes \<Rightarrow> bytes option" where
  "strict_json_ascii line = (if \<forall>c \<in> set line. c < 128 then None else Some (ascii_loop line))"

subsection \<open>A reference decoder for JSON strings\<close>

text \<open>The contents of a JSON string between its quotes, as RFC 8259 reads them: \<open>None\<close> is a syntax error.\<close>

definition hex_value :: "byte \<Rightarrow> nat option" where
  "hex_value c = (let n = unat c in
     if 48 \<le> n \<and> n \<le> 57 then Some (n - 48) else if 97 \<le> n \<and> n \<le> 102 then Some (n - 87)
     else if 65 \<le> n \<and> n \<le> 70 then Some (n - 55) else None)"

fun hex4 :: "bytes \<Rightarrow> (nat \<times> bytes) option" where
  "hex4 (a # b # c # d # s) = do {
     a \<leftarrow> hex_value a; b \<leftarrow> hex_value b; c \<leftarrow> hex_value c; d \<leftarrow> hex_value d;
     Some (((a * 16 + b) * 16 + c) * 16 + d, s) }"
| "hex4 _ = None"

fun low_surrogate :: "bytes \<Rightarrow> (nat \<times> bytes) option" where
  "low_surrogate (a # b # s) = (if a = 92 \<and> b = 117 then do {
     (l, s) \<leftarrow> hex4 s; if 0xdc00 \<le> l \<and> l < 0xe000 then Some (l, s) else None } else None)"
| "low_surrogate _ = None"

definition unicode_escape :: "bytes \<Rightarrow> (bytes \<times> bytes) option" where
  "unicode_escape s = do {
     (h, s) \<leftarrow> hex4 s;
     if 0xd800 \<le> h \<and> h < 0xdc00
     then do { (l, s) \<leftarrow> low_surrogate s; Some (utf8_encode (0x10000 + (h - 0xd800) * 1024 + (l - 0xdc00)), s) }
     else if 0xdc00 \<le> h \<and> h < 0xe000 then None else Some (utf8_encode h, s) }"

definition simple_escapes :: "(byte \<times> byte) list" where
  "simple_escapes = [(34, 34), (92, 92), (47, 47), (98, 8), (102, 12), (110, 10), (114, 13), (116, 9)]"

fun json_escape :: "bytes \<Rightarrow> (bytes \<times> bytes) option" where
  "json_escape [] = None"
| "json_escape (c # s) =
     (if c = 117 then unicode_escape s else map_option (\<lambda>b. ([b], s)) (map_of simple_escapes c))"

lemma hex4_Some: "hex4 s = Some (n, r) \<Longrightarrow> \<exists>a. s = a @ r \<and> (\<forall>x \<in> set a. x < 128) \<and> 0 \<notin> set a \<and> (\<forall>r'. hex4 (a @ r') = Some (n, r'))"
proof -
  assume h: "hex4 s = Some (n, r)"
  have d: "x < 128 \<and> x \<noteq> 0" if "hex_value x = Some v" for x v
    using that by (auto simp: hex_value_def Let_def word_less_nat_alt split: if_splits)
  from h obtain a b c e where s: "s = a # b # c # e # r"
    by (cases s rule: hex4.cases) (auto split: bind_splits)
  with h d have "(\<forall>x \<in> set [a, b, c, e]. x < 128 \<and> x \<noteq> 0) \<and> (\<forall>r'. hex4 ([a, b, c, e] @ r') = Some (n, r'))"
    by (auto split: bind_splits)
  with s show ?thesis by (intro exI [of _ "[a, b, c, e]"]) auto
qed

definition ascii :: "bytes \<Rightarrow> bool" where
  "ascii a \<longleftrightarrow> (\<forall>x \<in> set a. x < 128 \<and> x \<noteq> 0)"

lemma low_surrogate_Some: "low_surrogate s = Some (l, r) \<Longrightarrow> \<exists>a. s = a @ r \<and> ascii a \<and> (\<forall>r'. low_surrogate (a @ r') = Some (l, r'))"
proof -
  assume l: "low_surrogate s = Some (l, r)"
  then obtain t where s: "s = 92 # 117 # t" "hex4 t = Some (l, r)" "0xdc00 \<le> l \<and> l < 0xe000"
    by (cases s rule: low_surrogate.cases) (auto split: if_splits bind_splits)
  from hex4_Some [OF s(2)] obtain a where "t = a @ r" "\<forall>x \<in> set a. x < 128" "0 \<notin> set a" "\<forall>r'. hex4 (a @ r') = Some (l, r')"
    by blast
  with s show ?thesis by (intro exI [of _ "92 # 117 # a"]) (auto simp: ascii_def)
qed

lemma unicode_escape_Some: "unicode_escape s = Some (t, r) \<Longrightarrow> \<exists>a. s = a @ r \<and> ascii a \<and> (\<forall>r'. unicode_escape (a @ r') = Some (t, r'))"
proof -
  assume u: "unicode_escape s = Some (t, r)"
  then obtain h s1 where h: "hex4 s = Some (h, s1)" by (auto simp: unicode_escape_def split: bind_splits)
  from hex4_Some [OF h] obtain a where a: "s = a @ s1" "ascii a" "\<forall>r'. hex4 (a @ r') = Some (h, r')"
    by (auto simp: ascii_def)
  show ?thesis
  proof (cases "0xd800 \<le> h \<and> h < 0xdc00")
    case True
    with u h obtain l where l: "low_surrogate s1 = Some (l, r)" "t = utf8_encode (0x10000 + (h - 0xd800) * 1024 + (l - 0xdc00))"
      by (auto simp: unicode_escape_def split: bind_splits)
    from low_surrogate_Some [OF l(1)] obtain b where "s1 = b @ r" "ascii b" "\<forall>r'. low_surrogate (b @ r') = Some (l, r')" by blast
    with a l(2) True show ?thesis
      by (intro exI [of _ "a @ b"]) (auto simp: ascii_def unicode_escape_def)
  next
    case False
    with u h a show ?thesis
      by (intro exI [of _ a]) (auto simp: unicode_escape_def split: if_splits)
  qed
qed

lemma json_escape_Some: "json_escape s = Some (t, r) \<Longrightarrow> \<exists>a. s = a @ r \<and> a \<noteq> [] \<and> ascii a \<and> (\<forall>r'. json_escape (a @ r') = Some (t, r'))"
proof -
  assume e: "json_escape s = Some (t, r)"
  then obtain c s1 where s: "s = c # s1" by (cases s) auto
  show ?thesis
  proof (cases "c = 117")
    case True
    with e s have "unicode_escape s1 = Some (t, r)" by simp
    from unicode_escape_Some [OF this] obtain a where "s1 = a @ r" "ascii a" "\<forall>r'. unicode_escape (a @ r') = Some (t, r')" by blast
    with s True show ?thesis by (intro exI [of _ "c # a"]) (auto simp: ascii_def)
  next
    case False
    have "c < 128 \<and> c \<noteq> 0" if "map_of simple_escapes c = Some b" for b
      using that by (auto simp: simple_escapes_def split: if_splits)
    with False e s show ?thesis by (intro exI [of _ "[c]"]) (auto simp: ascii_def)
  qed
qed

function json_chars :: "bytes \<Rightarrow> bytes option" where
  "json_chars s = (case s of [] \<Rightarrow> Some [] | c # t \<Rightarrow>
     if c = 92 then (case json_escape t of None \<Rightarrow> None | Some (out, rest) \<Rightarrow> map_option ((@) out) (json_chars rest))
     else if c < 32 \<or> c = 34 then None else map_option ((#) c) (json_chars t))"
  by pat_completeness auto
termination
  by (relation "measure length") (auto dest!: json_escape_Some)

declare json_chars.simps [simp del]

subsection \<open>Escapes of characters\<close>

lemma hex_value_digit: "hex_value (hex_digit u) = Some (unat u mod 16)"
proof -
  have n: "unat (u AND 15) = unat u mod 16"
    using unat_and_mask [of u 4] by (simp add: mask_eq_exp_minus_1)
  have "\<forall>n \<in> set [0..<16]. hex_value (lit ''0123456789abcdef'' ! n) = Some n" by code_simp
  then have "hex_value (lit ''0123456789abcdef'' ! n) = Some n" if "n < 16" for n
    using that by (simp del: upt_rec_numeral)
  then show ?thesis unfolding hex_digit_def n by simp
qed

lemma hex_digit_range: "hex_digit u < 128" "hex_digit u \<noteq> 0"
proof -
  have "x < 128 \<and> x \<noteq> 0" if "hex_value x = Some v" for x v
    using that by (auto simp: hex_value_def Let_def word_less_nat_alt split: if_splits)
  from this [OF hex_value_digit] show "hex_digit u < 128" "hex_digit u \<noteq> 0" by blast+
qed

lemma hex4_unit:
  assumes "unat u < 0x10000"
  shows "hex4 (map (\<lambda>shift. hex_digit (drop_bit shift u)) [12, 8, 4, 0] @ r) = Some (unat u, r)"
proof -
  have d: "hex_value (hex_digit (drop_bit k u)) = Some (unat u div 2 ^ k mod 16)" for k
    by (simp only: hex_value_digit unat_drop_bit_eq) (simp add: drop_bit_eq_div)
  have "((n div 4096 mod 16 * 16 + n div 256 mod 16) * 16 + n div 16 mod 16) * 16 + n mod 16 = n" if "n < 0x10000" for n :: nat
    using that by (simp add: div_mult2_eq [of _ 16 16, simplified] div_mult2_eq [of _ 256 16, simplified])
  from this [OF assms] have n: "Some (((unat u div 4096 mod 16 * 16 + unat u div 256 mod 16) * 16 + unat u div 16 mod 16) * 16 +
      unat u mod 16, r) = Some (unat u, r)" by (simp only:)
  have k: "(2 :: nat) ^ 12 = 4096" "(2 :: nat) ^ 8 = 256" "(2 :: nat) ^ 4 = 16" "(2 :: nat) ^ 0 = 1" by simp_all
  show ?thesis
    by (simp only: list.map append.simps hex4.simps d k Option.bind.bind_lunit div_by_1 n)
qed

lemma escape_unit_cons: "escape_unit u @ r = 92 # 117 # map (\<lambda>shift. hex_digit (drop_bit shift u)) [12, 8, 4, 0] @ r"
  by (simp add: escape_unit_def)

lemma escape_units:
  assumes "scalar c"
  shows "unicode_escape (tl (tl (concat (map escape_unit (utf16_units (word_of_nat c))) @ r))) = Some (utf8_encode c, r)"
    "take 2 (concat (map escape_unit (utf16_units (word_of_nat c)))) = [92, 117]"
proof -
  let ?c = "word_of_nat c :: 32 word"
  have c: "c < 0x110000" "unat ?c = c" using assms by (simp_all add: scalar_def unat_of_nat)
  show "take 2 (concat (map escape_unit (utf16_units ?c))) = [92, 117]"
    by (simp add: utf16_units_def escape_unit_def Let_def)
  show "unicode_escape (tl (tl (concat (map escape_unit (utf16_units ?c)) @ r))) = Some (utf8_encode c, r)"
  proof (cases "?c > 0xffff")
    case False
    then have "c < 0x10000" using c by (simp add: word_less_nat_alt)
    then have "hex4 (map (\<lambda>shift. hex_digit (drop_bit shift ?c)) [12, 8, 4, 0] @ r) = Some (c, r)"
      using hex4_unit [of ?c r] c by simp
    moreover have "tl (tl (concat (map escape_unit (utf16_units ?c)) @ r)) =
        map (\<lambda>shift. hex_digit (drop_bit shift ?c)) [12, 8, 4, 0] @ r"
      using False by (simp add: utf16_units_def escape_unit_def)
    moreover have "\<not> (0xd800 \<le> c \<and> c < 0xdc00)" "\<not> (0xdc00 \<le> c \<and> c < 0xe000)"
      using assms by (auto simp: scalar_def)
    ultimately show ?thesis by (simp only: unicode_escape_def Option.bind.bind_lunit prod.case if_False)
  next
    case True
    then have big: "0x10000 \<le> c" using c by (simp add: word_less_nat_alt)
    define v where "v = ?c - 0x10000"
    have v: "unat v = c - 0x10000"
      using big c by (simp add: v_def unat_sub_if' )
    have hi: "unat (0xd800 + drop_bit 10 v) = 0xd800 + (c - 0x10000) div 1024"
      using c by (simp add: unat_word_ariths unat_drop_bit_eq drop_bit_eq_div v)
    have "unat (v AND 1023) = (c - 0x10000) mod 1024"
      using unat_and_mask [of v 10] by (simp add: mask_eq_exp_minus_1 v)
    then have lo: "unat (0xdc00 + (v AND 1023)) = 0xdc00 + (c - 0x10000) mod 1024"
      by (simp add: unat_word_ariths)
    have units: "utf16_units ?c = [0xd800 + drop_bit 10 v, 0xdc00 + (v AND 1023)]"
      using True by (simp add: utf16_units_def v_def Let_def)
    have d: "(c - 0x10000) div 1024 < 1024" "(c - 0x10000) mod 1024 < 1024" using c by auto
    have 1: "hex4 (map (\<lambda>shift. hex_digit (drop_bit shift (0xd800 + drop_bit 10 v))) [12, 8, 4, 0] @ x) =
        Some (0xd800 + (c - 0x10000) div 1024, x)" for x
      using hex4_unit [of "0xd800 + drop_bit 10 v" x] hi d by simp
    have 2: "hex4 (map (\<lambda>shift. hex_digit (drop_bit shift (0xdc00 + (v AND 1023)))) [12, 8, 4, 0] @ r) =
        Some (0xdc00 + (c - 0x10000) mod 1024, r)"
      using hex4_unit [of "0xdc00 + (v AND 1023)" r] lo d by simp
    have "tl (tl (concat (map escape_unit (utf16_units ?c)) @ r)) =
        map (\<lambda>shift. hex_digit (drop_bit shift (0xd800 + drop_bit 10 v))) [12, 8, 4, 0] @ (92 # 117 #
        (map (\<lambda>shift. hex_digit (drop_bit shift (0xdc00 + (v AND 1023)))) [12, 8, 4, 0] @ r))"
      by (simp add: units escape_unit_def)
    moreover have "0x10000 + (c - 0x10000) div 1024 * 1024 + (c - 0x10000) mod 1024 = c" using big by presburger
    moreover have "low_surrogate (92 # 117 # (map (\<lambda>shift. hex_digit (drop_bit shift (0xdc00 + (v AND 1023)))) [12, 8, 4, 0] @ r)) =
        Some (0xdc00 + (c - 0x10000) mod 1024, r)"
      unfolding low_surrogate.simps 2 using d by simp
    ultimately show ?thesis using d by (simp add: unicode_escape_def 1 del: list.map hex4.simps low_surrogate.simps)
  qed
qed

lemma escape_size:
  assumes "128 \<le> c" "c < 0x110000"
  shows "length (concat (map escape_unit (utf16_units (word_of_nat c)))) \<le> 3 * length (utf8_encode c)"
proof -
  have "unat (word_of_nat c :: 32 word) = c" using assms by (simp add: unat_of_nat)
  then show ?thesis
    using assms by (auto simp: utf16_units_def escape_unit_def Let_def utf8_encode_def word_less_nat_alt)
qed

lemma escape_ascii: "\<forall>x \<in> set (concat (map escape_unit us)). x < 128"
  using hex_digit_range(1) by (induction us) (auto simp: escape_unit_def)

subsection \<open>Lines\<close>

lemma ascii_loop_Nil [simp]: "ascii_loop [] = []"
  by (simp add: ascii_loop.simps)

lemma ascii_loop_ascii: "ascii a \<Longrightarrow> ascii_loop (a @ s) = a @ ascii_loop s"
proof (induction a)
  case (Cons x a)
  then have "x < 128" "ascii a" by (simp_all add: ascii_def)
  with Cons.IH show ?case by (subst (1) ascii_loop.simps) simp
qed simp

lemma encode_high: "text_scalar c \<Longrightarrow> 128 \<le> c \<Longrightarrow> \<forall>x \<in> set (utf8_encode c). 128 \<le> x"
proof (intro ballI, rule ccontr)
  fix x assume c: "text_scalar c" "128 \<le> c" "x \<in> set (utf8_encode c)" "\<not> 128 \<le> x"
  then have "utf8_encode c = [x]" using encode_ascii [of c x] by (simp add: word_le_nat_alt)
  with c(2) show False by (auto simp: utf8_encode_def split: if_splits)
qed

lemma ascii_loop_char:
  assumes "text_scalar c" "128 \<le> c"
  shows "ascii_loop (utf8_encode c @ s) = concat (map escape_unit (utf16_units (word_of_nat c))) @ ascii_loop s"
proof -
  obtain b t where e: "utf8_encode c = b # t" using encode_nonempty [of c] by (cases "utf8_encode c") auto
  have "\<not> b < 128" using encode_high [OF assms] e by auto
  moreover have "utf8_decode (b # (t @ s)) = (word_of_nat c, length (utf8_encode c))"
    using decode_encode [of c s] assms(1) e by (simp add: text_scalar_def)
  moreover have "drop (length (utf8_encode c)) (b # (t @ s)) = s" using e by simp
  ultimately show ?thesis by (subst ascii_loop.simps) (simp add: e)
qed

lemma ascii_char: "text_scalar c \<Longrightarrow> c < 128 \<Longrightarrow> utf8_encode c = [byte_of c] \<and> ascii [byte_of c]"
  by (auto simp: utf8_encode_def ascii_def text_scalar_def word_less_nat_alt word_unat_eq_iff)

lemma valid_ascii_prefix: "ascii a \<Longrightarrow> utf8_valid (a @ s) = utf8_valid s"
proof (induction a)
  case (Cons x a)
  have x: "unat x < 128" "unat x \<noteq> 0" using Cons.prems by (auto simp: ascii_def word_less_nat_alt word_unat_eq_iff)
  then have "text_scalar (unat x)" "utf8_encode (unat x) = [x]" by (auto simp: text_scalar_def scalar_def utf8_encode_def)
  from decode_valid_step [OF this(1), of "a @ s"] this(2) Cons show ?case by (simp add: ascii_def)
qed simp

lemma ascii_loop_room:
  "utf8_valid s \<Longrightarrow> length (ascii_loop s) \<le> 3 * length s \<and> (\<forall>x \<in> set (ascii_loop s). x < 128)"
proof (induction rule: utf8_valid_induct)
  case (Char c s)
  show ?case
  proof (cases "c < 128")
    case True
    note A = ascii_char [OF Char.hyps(1) True]
    have "ascii_loop (utf8_encode c @ s) = [byte_of c] @ ascii_loop s" using A ascii_loop_ascii [of "[byte_of c]" s] by simp
    with Char.IH A show ?thesis by (auto simp: ascii_def)
  next
    case False
    then have c: "128 \<le> c" "c < 0x110000" using Char.hyps(1) by (auto simp: text_scalar_def scalar_def)
    show ?thesis
      using Char.IH escape_size [OF c] escape_ascii [of "utf16_units (word_of_nat c)"]
      unfolding ascii_loop_char [OF Char.hyps(1) c(1)] by auto
  qed
qed simp

subsection \<open>The two lines under the decoder\<close>

lemma json_chars_Nil [simp]: "json_chars [] = Some []"
  by (subst json_chars.simps) simp

lemma json_chars_high: "\<forall>x \<in> set a. 128 \<le> x \<Longrightarrow> json_chars (a @ s) = map_option ((@) a) (json_chars s)"
proof (induction a)
  case (Cons x a)
  have "x \<noteq> 92" "\<not> x < 32" "x \<noteq> 34" using Cons.prems by (auto simp: word_le_nat_alt word_less_nat_alt)
  with Cons show ?case
    by (subst json_chars.simps) (cases "json_chars s"; simp)
next
  case Nil
  then show ?case by (cases "json_chars s") simp_all
qed

lemma json_chars_escape:
  "json_escape t = Some (out, rest) \<Longrightarrow> json_chars (92 # t) = map_option ((@) out) (json_chars rest)"
  by (subst json_chars.simps) simp

lemma json_chars_escaped:
  assumes "scalar c"
  shows "json_chars (concat (map escape_unit (utf16_units (word_of_nat c))) @ s) = map_option ((@) (utf8_encode c)) (json_chars s)"
proof -
  let ?s = "concat (map escape_unit (utf16_units (word_of_nat c)))"
  obtain t where t: "?s = 92 # 117 # t"
    using escape_units(2) [OF assms] by (cases ?s rule: low_surrogate.cases) auto
  then have "json_escape (117 # t @ s) = Some (utf8_encode c, s)"
    using escape_units(1) [OF assms, of s] by simp
  from json_chars_escape [OF this] show ?thesis unfolding t by simp
qed

lemma escapes_preserve:
  "utf8_valid s \<Longrightarrow> json_chars s = Some t \<Longrightarrow> json_chars (ascii_loop s) = Some t"
proof (induction s arbitrary: t rule: measure_induct_rule [where f = length])
  case (less s)
  show ?case
  proof (cases "s = []")
    case False
    obtain c u where s: "s = utf8_encode c @ u" "text_scalar c" "utf8_valid u"
      using less.prems(1) False by (induction rule: utf8_valid_induct) blast+
    show ?thesis
    proof (cases "128 \<le> c")
      case True
      have "length u < length s" using s(1) encode_nonempty [of c] by simp
      moreover obtain t' where t': "json_chars u = Some t'" "t = utf8_encode c @ t'"
        using less.prems(2) json_chars_high [OF encode_high [OF s(2) True], of u] s(1) by auto
      ultimately have "json_chars (ascii_loop u) = Some t'" using less.IH s(3) by blast
      then show ?thesis
        using json_chars_escaped [of c "ascii_loop u"] s(2) t'(2) ascii_loop_char [OF s(2) True, of u]
        by (simp add: s(1) text_scalar_def)
    next
      case False
      then have c: "utf8_encode c = [byte_of c]" "ascii [byte_of c]" using ascii_char [OF s(2)] by simp_all
      show ?thesis
      proof (cases "byte_of c = 92")
        case True
        then obtain out rest where e: "json_escape u = Some (out, rest)"
          using less.prems(2) s(1) c(1) by (auto simp: json_chars.simps [of "92 # u"] split: option.splits)
        from json_escape_Some [OF e] obtain a where a: "u = a @ rest" "ascii a" "\<forall>r'. json_escape (a @ r') = Some (out, r')"
          by blast
        obtain t' where t': "json_chars rest = Some t'" "t = out @ t'"
          using less.prems(2) json_chars_escape [OF e] s(1) c(1) True by auto
        have "length rest < length s" using s(1) a(1) c(1) by simp
        moreover have "utf8_valid rest" using s(3) a valid_ascii_prefix by simp
        ultimately have "json_chars (ascii_loop rest) = Some t'" using less.IH t'(1) by blast
        moreover have "ascii_loop s = 92 # a @ ascii_loop rest"
          using ascii_loop_ascii [of "92 # a" rest] a(1,2) c s(1) True by (simp add: ascii_def)
        ultimately show ?thesis
          using json_chars_escape [of "a @ ascii_loop rest" out "ascii_loop rest"] a(3) t'(2) by simp
      next
        case ne: False
        have ok: "\<not> (byte_of c < 32 \<or> byte_of c = 34)"
          using less.prems(2) ne s(1) c(1) by (auto simp: json_chars.simps [of "byte_of c # u"] split: if_splits)
        then obtain t' where t': "json_chars u = Some t'" "t = byte_of c # t'"
          using less.prems(2) ne s(1) c(1) by (auto simp: json_chars.simps [of "byte_of c # u"] split: if_splits)
        have "json_chars (ascii_loop u) = Some t'" using less.IH [of u t'] s(1,3) c(1) t'(1) by simp
        moreover have "ascii_loop s = byte_of c # ascii_loop u"
          using ascii_loop_ascii [OF c(2), of u] s(1) c(1) by simp
        ultimately show ?thesis
          using ne ok t'(2) by (simp add: json_chars.simps [of "byte_of c # ascii_loop u"])
      qed
    qed
  qed (use less.prems in simp)
qed

subsection \<open>Properties\<close>

text \<open>C21 The normalised line is ASCII, fits the block allocated for it, and as the contents of a JSON string
  means what the line means.\<close>

theorem normalised_line_means_same:
  assumes "utf8_valid line" "strict_json_ascii line = Some out"
  shows "length out < length line * 3 + 1 \<and> (\<forall>c \<in> set out. c < 128) \<and> (json_chars line = Some t \<longrightarrow> json_chars out = Some t)"
proof -
  have "out = ascii_loop line" using assms(2) by (simp add: strict_json_ascii_def split: if_splits)
  then show ?thesis using ascii_loop_room [OF assms(1)] escapes_preserve [OF assms(1)] by auto
qed

theorem normalised_line_means_same_witness:
  "\<exists>out. strict_json_ascii [34, 0xF0, 0x9F, 0x98, 0x80] = Some out \<and> length out = 13 \<and> (\<forall>c \<in> set out. c < 128)"
proof -
  let ?s = "[34, 0xF0, 0x9F, 0x98, 0x80] :: bytes"
  have s: "strict_json_ascii ?s = Some [34, 92, 117, 100, 56, 51, 100, 92, 117, 100, 101, 48, 48]" by code_simp
  have "utf8_valid ?s" by code_simp
  from normalised_line_means_same [OF this s] s show ?thesis by (intro exI conjI) auto
qed

text \<open>A backslash before a character beyond ASCII is an error in a JSON string, but the normalised line
  escapes the backslash itself and is accepted: the strict parser never sees the error.\<close>

theorem invalid_escape_hidden:
  assumes "text_scalar c" "128 \<le> c" "c < 0x10000"
  shows "json_chars (92 # utf8_encode c) = None \<and>
    strict_json_ascii (92 # utf8_encode c) = Some (92 # escape_unit (word_of_nat c)) \<and>
    json_chars (92 # escape_unit (word_of_nat c)) = Some (escape_unit (word_of_nat c))"
proof -
  obtain b t where e: "utf8_encode c = b # t" "128 \<le> b"
    using encode_nonempty [of c] encode_high [OF assms(1,2)] by (cases "utf8_encode c") auto
  have "b \<noteq> 117" "map_of simple_escapes b = None"
    using e(2) by (auto simp: simple_escapes_def word_le_nat_alt)
  then have 1: "json_chars (92 # utf8_encode c) = None" by (subst json_chars.simps) (simp add: e)
  have u: "utf16_units (word_of_nat c) = [word_of_nat c]"
    using assms(3) by (simp add: utf16_units_def word_less_nat_alt unat_of_nat)
  have "ascii_loop ([92] @ (utf8_encode c @ [])) = [92] @ ascii_loop (utf8_encode c @ [])"
    by (rule ascii_loop_ascii) (simp add: ascii_def)
  also have "\<dots> = 92 # escape_unit (word_of_nat c)"
    unfolding ascii_loop_char [OF assms(1,2)] u by simp
  finally have "ascii_loop (92 # utf8_encode c) = 92 # escape_unit (word_of_nat c)" by simp
  moreover have "\<not> (\<forall>x \<in> set (92 # utf8_encode c). x < 128)" using e by auto
  ultimately have 2: "strict_json_ascii (92 # utf8_encode c) = Some (92 # escape_unit (word_of_nat c))"
    by (simp add: strict_json_ascii_def)
  have d: "json_chars (map (\<lambda>shift. hex_digit (drop_bit shift u)) shifts) = Some (map (\<lambda>shift. hex_digit (drop_bit shift u)) shifts)"
    for u shifts
  proof (induction shifts)
    case (Cons k ks)
    have "x \<noteq> 92 \<and> \<not> x < 32 \<and> x \<noteq> 34" if "hex_value x = Some v" for x v
      using that by (auto simp: hex_value_def Let_def word_less_nat_alt split: if_splits)
    from this [OF hex_value_digit] Cons show ?case by (subst json_chars.simps) auto
  qed simp
  have "json_escape (escape_unit u) = Some ([92], tl (escape_unit u))" for u
    by (simp add: escape_unit_def simple_escapes_def)
  from json_chars_escape [OF this] have "json_chars (92 # escape_unit u) = map_option ((@) [92]) (json_chars (tl (escape_unit u)))" for u .
  moreover have "json_chars (tl (escape_unit u)) = Some (tl (escape_unit u))" for u
    using d [of u "[12, 8, 4, 0]"] by (subst json_chars.simps) (simp add: escape_unit_def)
  moreover have "92 # tl (escape_unit u) = escape_unit u" for u by (simp add: escape_unit_def)
  ultimately have "json_chars (92 # escape_unit u) = Some (escape_unit u)" for u by simp
  with 1 2 show ?thesis by blast
qed

end
