(* ===== verification/Server.thy ===== *)
theory Server
  imports Protocol Escapes "HOL-Library.Sublist"
begin

section \<open>The backend (\<open>src/main.c\<close>)\<close>

text \<open>
  Request lines from standard input, or from up to 32 connections at once. json-c's parser,
  which yields a value or a description of the error, and its printer are parameters; so are
  the interrupt flag and what the kernel does at each turn of the loop. \<open>None\<close> is a loop that
  has not ended by the last turn given, or a request that never returns.
\<close>

subsection \<open>One line\<close>

type_synonym parser = "bytes \<Rightarrow> bytes + json"
type_synonym printer = "json \<Rightarrow> bytes"

definition parse_request :: "World \<Rightarrow> Os \<Rightarrow> nat \<Rightarrow> parser \<Rightarrow> bytes \<Rightarrow> sys \<Rightarrow> (sys \<times> json) option" where
  "parse_request w os n parse line s =
     (if \<not> utf8_valid line then Some (s, failure (lit ''Invalid UTF-8 request''))
      else
        let ascii = strict_json_ascii line in
        case parse (case ascii of None \<Rightarrow> line | Some a \<Rightarrow> a) of
          Inl err \<Rightarrow> Some (s, failure err)
        | Inr request \<Rightarrow> editor_request w os n request s)"

subsection \<open>Standard input and output\<close>

text \<open>One turn per element of the list, the interrupt flag as the turn finds it. The line is a C string,
  cut at its first NUL; the result holds the bytes written.\<close>

fun backend_stdio :: "World \<Rightarrow> Os \<Rightarrow> nat \<Rightarrow> parser \<Rightarrow> printer \<Rightarrow> bool list \<Rightarrow> read_result list \<Rightarrow> write_event list \<Rightarrow>
    Connection \<Rightarrow> sys \<Rightarrow> (sys \<times> bytes) option" where
  "backend_stdio w os n parse print [] inp out c s = None"
| "backend_stdio w os n parse print (interrupted # turns) inp out c s =
     (if quit (snd s) \<or> interrupted then Some (s, [])
      else do {
        (line, inp, c) \<leftarrow> protocol_read_line inp c;
        case line of
          None \<Rightarrow> Some (s, [])
        | Some l \<Rightarrow> do {
            (s, response) \<leftarrow> parse_request w os n parse (c_string l) s;
            (ok, sent, out) \<leftarrow> protocol_write out (c_string (print response));
            (ok, nl, out) \<leftarrow> (if ok then protocol_write out [10] else Some (False, [], out));
            if \<not> ok then Some (s, sent @ nl)
            else do {
              (s, rest) \<leftarrow> backend_stdio w os n parse print turns inp out c s;
              Some (s, sent @ nl @ rest) } } })"

subsection \<open>Connections\<close>

record Peer =
  peer_open :: bool
  peer_in :: bytes
  peer_out :: bytes
  out_sent :: nat

definition peer_close :: "Peer \<Rightarrow> Peer" where
  "peer_close p = \<lparr>peer_open = False, peer_in = [], peer_out = [], out_sent = 0\<rparr>"

definition peer_queue :: "printer \<Rightarrow> json \<Rightarrow> Peer \<Rightarrow> Peer \<times> bool" where
  "peer_queue print response p =
     (let s = c_string (print response); pending = length (peer_out p) - out_sent p in
      if pending + length s + 1 > CP_MAX_FRAME * 4 then (p, False)
      else
        let p = (if out_sent p \<noteq> 0 then p\<lparr>peer_out := drop (out_sent p) (peer_out p), out_sent := 0\<rparr> else p)
        in (p\<lparr>peer_out := peer_out p @ s @ [10]\<rparr>, True))"

text \<open>Every complete line that has arrived.\<close>

function peer_lines :: "World \<Rightarrow> Os \<Rightarrow> nat \<Rightarrow> parser \<Rightarrow> printer \<Rightarrow> Peer \<Rightarrow> sys \<Rightarrow> (Peer \<times> sys) option" where
  "peer_lines w os n parse print p s =
     (case cut_line (peer_in p) of
        None \<Rightarrow> Some (p, s)
      | Some (line, rest) \<Rightarrow> do {
          (s, response) \<leftarrow> parse_request w os n parse line s;
          let (p, ok) = peer_queue print response p;
          if \<not> ok then Some (peer_close p, s) else peer_lines w os n parse print (p\<lparr>peer_in := rest\<rparr>) s })"
  by pat_completeness auto
termination
  by (relation "measure (\<lambda>(w, os, n, parse, print, p, s). length (peer_in p))") (auto dest: cut_line_shorter)

declare peer_lines.simps [simp del]

text \<open>What a \<open>read\<close> and a \<open>write\<close> on a connection do, and what \<open>poll\<close> reports: \<open>Got []\<close> is the end of the
  input; \<open>retry\<close> stands for \<open>EINTR\<close> and \<open>EAGAIN\<close>.\<close>

datatype peer_read = Got bytes | Read_retry | Read_error
datatype peer_write = Took nat | Write_retry | Write_error

record Ready =
  readable :: "peer_read option"
  writable :: "peer_write option"
  hung_up :: bool

text \<open>The result's flag is false where the code leaves the peer for this turn.\<close>

definition peer_receive :: "World \<Rightarrow> Os \<Rightarrow> nat \<Rightarrow> parser \<Rightarrow> printer \<Rightarrow> peer_read \<Rightarrow> Peer \<Rightarrow> sys \<Rightarrow> (Peer \<times> sys \<times> bool) option" where
  "peer_receive w os n parse print ev p s =
     (case ev of
        Got got \<Rightarrow>
          if got = [] \<or> length (peer_in p) + length got > CP_MAX_FRAME then Some (peer_close p, s, False)
          else do {
            (p, s) \<leftarrow> peer_lines w os n parse print (p\<lparr>peer_in := peer_in p @ got\<rparr>) s;
            Some (p, s, True) }
      | Read_retry \<Rightarrow> Some (p, s, False)
      | Read_error \<Rightarrow> Some (peer_close p, s, False))"

text \<open>The bytes the kernel takes are returned too.\<close>

definition peer_send :: "peer_write \<Rightarrow> Peer \<Rightarrow> Peer \<times> bytes" where
  "peer_send ev p =
     (case ev of
        Took k \<Rightarrow>
          let sent = take k (drop (out_sent p) (peer_out p)); p = p\<lparr>out_sent := out_sent p + length sent\<rparr> in
          (if sent \<noteq> [] \<and> out_sent p = length (peer_out p) then p\<lparr>peer_out := [], out_sent := 0\<rparr> else p, sent)
      | Write_retry \<Rightarrow> (p, [])
      | Write_error \<Rightarrow> (peer_close p, []))"

definition peer_step :: "World \<Rightarrow> Os \<Rightarrow> nat \<Rightarrow> parser \<Rightarrow> printer \<Rightarrow> Ready \<Rightarrow> Peer \<Rightarrow> sys \<Rightarrow> (Peer \<times> bytes \<times> sys) option" where
  "peer_step w os n parse print ev p s =
     (if \<not> peer_open p then Some (p, [], s)
      else do {
        (p, s, go) \<leftarrow> (case readable ev of None \<Rightarrow> Some (p, s, True) | Some r \<Rightarrow> peer_receive w os n parse print r p s);
        if \<not> go then Some (p, [], s)
        else
          let (p, sent) = (case writable ev of None \<Rightarrow> (p, []) | Some wr \<Rightarrow> if peer_open p then peer_send wr p else (p, []));
              p = (if peer_open p \<and> hung_up ev then peer_close p else p)
          in Some (p, sent, s) })"

subsection \<open>The server's loop\<close>

fun peers_round :: "World \<Rightarrow> Os \<Rightarrow> nat \<Rightarrow> parser \<Rightarrow> printer \<Rightarrow> (Ready \<times> Peer) list \<Rightarrow> sys \<Rightarrow> ((Peer \<times> bytes) list \<times> sys) option" where
  "peers_round w os n parse print [] s = Some ([], s)"
| "peers_round w os n parse print ((ev, p) # eps) s = do {
     (p, sent, s) \<leftarrow> peer_step w os n parse print ev p s;
     (rest, s) \<leftarrow> peers_round w os n parse print eps s;
     Some ((p, sent) # rest, s) }"

text \<open>\<open>poll\<close> reports only what was asked for: input unless the editor is quitting, output where some is
  pending, nothing for a free slot; a hang-up always.\<close>

definition asked :: "bool \<Rightarrow> Peer \<Rightarrow> Ready \<Rightarrow> Ready" where
  "asked quitting p ev =
     (if \<not> peer_open p then \<lparr>readable = None, writable = None, hung_up = False\<rparr>
      else ev\<lparr>readable := if quitting then None else readable ev,
        writable := if length (peer_out p) > out_sent p then writable ev else None\<rparr>)"

text \<open>A new connection takes the first free slot, when its user is the editor's.\<close>

definition accept_peer :: "bool \<Rightarrow> Peer list \<Rightarrow> Peer list" where
  "accept_peer own ps =
     (case find_index (\<lambda>p. \<not> peer_open p) ps of
        Some i \<Rightarrow> if own then ps[i := (ps ! i)\<lparr>peer_open := True\<rparr>] else ps
      | None \<Rightarrow> ps)"

definition server_round :: "World \<Rightarrow> Os \<Rightarrow> nat \<Rightarrow> parser \<Rightarrow> printer \<Rightarrow> bool option \<Rightarrow> Ready list \<Rightarrow> Peer list \<Rightarrow> sys \<Rightarrow>
    ((Peer \<times> bytes) list \<times> sys) option" where
  "server_round w os n parse print arrival evs ps s =
     (let evs = map2 (asked (quit (snd s))) ps evs;
          ps = (case arrival of None \<Rightarrow> ps | Some own \<Rightarrow> accept_peer own ps)
      in peers_round w os n parse print (zip evs ps) s)"

definition pending :: "Peer list \<Rightarrow> bool" where
  "pending ps \<longleftrightarrow> (\<exists>p \<in> set ps. length (peer_out p) > out_sent p)"

datatype polled = Poll_interrupted | Poll_failed | Polled "bool option" "Ready list"

text \<open>Each turn finds the interrupt flag and polls; the result is the state when the loop ends.\<close>

fun server_loop :: "World \<Rightarrow> Os \<Rightarrow> nat \<Rightarrow> parser \<Rightarrow> printer \<Rightarrow> (bool \<times> polled) list \<Rightarrow> Peer list \<Rightarrow> sys \<Rightarrow> sys option" where
  "server_loop w os n parse print [] ps s = None"
| "server_loop w os n parse print ((interrupted, poll) # turns) ps s =
     (if interrupted \<or> quit (snd s) \<and> \<not> pending ps then Some s
      else case poll of
        Poll_interrupted \<Rightarrow> server_loop w os n parse print turns ps s
      | Poll_failed \<Rightarrow> Some s
      | Polled arrival evs \<Rightarrow> do {
          (rs, s) \<leftarrow> server_round w os n parse print arrival evs ps s;
          server_loop w os n parse print turns (map fst rs) s })"

definition backend_server :: "World \<Rightarrow> Os \<Rightarrow> nat \<Rightarrow> parser \<Rightarrow> printer \<Rightarrow> (bool \<times> polled) list \<Rightarrow> sys \<Rightarrow> sys option" where
  "backend_server w os n parse print turns s = server_loop w os n parse print turns
     (replicate 32 \<lparr>peer_open = False, peer_in = [], peer_out = [], out_sent = 0\<rparr>) s"

subsection \<open>Requests are answered in order\<close>

text \<open>The reference: lines answered one after the other, and the bytes of the replies.\<close>

fun answer_lines :: "World \<Rightarrow> Os \<Rightarrow> nat \<Rightarrow> parser \<Rightarrow> bytes list \<Rightarrow> sys \<Rightarrow> (sys \<times> json list) option" where
  "answer_lines w os n parse [] s = Some (s, [])"
| "answer_lines w os n parse (l # ls) s = do {
     (s, r) \<leftarrow> parse_request w os n parse l s;
     (s, rs) \<leftarrow> answer_lines w os n parse ls s;
     Some (s, r # rs) }"

definition reply_bytes :: "printer \<Rightarrow> json list \<Rightarrow> bytes" where
  "reply_bytes print rs = concat (map (\<lambda>r. c_string (print r) @ [10]) rs)"

lemma reply_bytes_simps [simp]: "reply_bytes print [] = []" "reply_bytes print (r # rs) = c_string (print r) @ 10 # reply_bytes print rs"
  "reply_bytes print (rs @ rs') = reply_bytes print rs @ reply_bytes print rs'"
  by (simp_all add: reply_bytes_def)

lemma answer_lines_append:
  "answer_lines w os n parse ls s = Some (s1, rs) \<Longrightarrow> answer_lines w os n parse ls' s1 = Some (s2, rs') \<Longrightarrow>
    answer_lines w os n parse (ls @ ls') s = Some (s2, rs @ rs')"
  by (induction ls arbitrary: s rs) (auto split: bind_splits)

lemma answer_lines_length: "answer_lines w os n parse ls s = Some (s', rs) \<Longrightarrow> length rs = length ls"
  by (induction ls arbitrary: s rs) (auto split: bind_splits)

text \<open>The complete lines of a stream, and what follows the last newline.\<close>

function lines_of :: "bytes \<Rightarrow> bytes list \<times> bytes" where
  "lines_of s = (case cut_line s of None \<Rightarrow> ([], s) | Some (l, r) \<Rightarrow> let (ls, t) = lines_of r in (l # ls, t))"
  by pat_completeness auto
termination by (relation "measure length") (auto dest: cut_line_shorter)

declare lines_of.simps [simp del]

lemma cut_line_Some: "cut_line s = Some (l, r) \<longleftrightarrow> s = l @ 10 # r \<and> 10 \<notin> set l"
proof
  assume "cut_line s = Some (l, r)"
  moreover from this obtain a b where "s = a @ 10 # b" "10 \<notin> set a" using split_list_first [of 10 s] by (auto simp: cut_line_def split: if_splits)
  ultimately show "s = l @ 10 # r \<and> 10 \<notin> set l" using cut_line_append [of a b] by simp
qed (auto simp: cut_line_append)

lemma lines_of_none: "10 \<notin> set s \<Longrightarrow> lines_of s = ([], s)"
  using cut_line_none [of s] by (subst lines_of.simps) simp

lemma lines_of_line: "10 \<notin> set l \<Longrightarrow> lines_of (l @ 10 # s) = (l # fst (lines_of s), snd (lines_of s))"
  by (subst lines_of.simps) (simp add: cut_line_append case_prod_beta Let_def)

lemma lines_of_tail: "10 \<notin> set (snd (lines_of s))"
proof (induction s rule: lines_of.induct)
  case (1 s)
  show ?case
  proof (cases "cut_line s")
    case None
    then show ?thesis by (simp add: cut_line_none lines_of_none)
  next
    case (Some a)
    then obtain l r where a: "cut_line s = Some (l, r)" by (cases a) simp
    with 1 have "10 \<notin> set (snd (lines_of r))" by blast
    with a show ?thesis by (auto simp: cut_line_Some lines_of_line)
  qed
qed

lemma lines_of_append:
  "lines_of (s @ t) = (fst (lines_of s) @ fst (lines_of (snd (lines_of s) @ t)), snd (lines_of (snd (lines_of s) @ t)))"
proof (induction s rule: lines_of.induct)
  case (1 s)
  show ?case
  proof (cases "cut_line s")
    case None
    then show ?thesis by (simp add: cut_line_none lines_of_none)
  next
    case (Some a)
    then obtain l r where a: "cut_line s = Some (l, r)" by (cases a) simp
    with 1 have "lines_of (r @ t) = (fst (lines_of r) @ fst (lines_of (snd (lines_of r) @ t)), snd (lines_of (snd (lines_of r) @ t)))" by blast
    with a show ?thesis by (auto simp: cut_line_Some lines_of_line)
  qed
qed

lemma lines_of_length: "length (snd (lines_of s)) \<le> length s"
proof (induction s rule: lines_of.induct)
  case (1 s)
  show ?case
  proof (cases "cut_line s")
    case None
    then show ?thesis by (simp add: cut_line_none lines_of_none)
  next
    case (Some a)
    then obtain l r where a: "cut_line s = Some (l, r)" by (cases a) simp
    with 1 have "length (snd (lines_of r)) \<le> length r" by blast
    with a show ?thesis by (auto simp: cut_line_Some lines_of_line)
  qed
qed

text \<open>The bounds of an open connection.\<close>

definition peer_ok :: "Peer \<Rightarrow> bool" where
  "peer_ok p \<longleftrightarrow> out_sent p \<le> length (peer_out p) \<and> length (peer_out p) - out_sent p \<le> CP_MAX_FRAME * 4 \<and>
     length (peer_in p) \<le> CP_MAX_FRAME"

abbreviation unsent :: "Peer \<Rightarrow> bytes" where
  "unsent p \<equiv> drop (out_sent p) (peer_out p)"

lemma peer_queue_ok:
  assumes "peer_queue print r p = (p', True)" "out_sent p \<le> length (peer_out p)"
  shows "unsent p' = unsent p @ c_string (print r) @ [10]" "out_sent p' \<le> length (peer_out p')"
    "length (peer_out p') - out_sent p' \<le> CP_MAX_FRAME * 4" "peer_in p' = peer_in p" "peer_open p' = peer_open p"
  using assms by (auto simp: peer_queue_def Let_def split: if_splits)

lemma peer_lines_ok:
  assumes "peer_lines w os n parse print p s = Some (p', s')" "peer_open p" "out_sent p \<le> length (peer_out p)"
    "length (peer_out p) - out_sent p \<le> CP_MAX_FRAME * 4"
  shows "\<exists>ls rs. answer_lines w os n parse ls s = Some (s', rs) \<and>
    (peer_open p' \<longrightarrow> lines_of (peer_in p) = (ls, peer_in p') \<and> unsent p' = unsent p @ reply_bytes print rs \<and>
      out_sent p' \<le> length (peer_out p') \<and> length (peer_out p') - out_sent p' \<le> CP_MAX_FRAME * 4)"
  using assms
proof (induction w os n parse print p s rule: peer_lines.induct)
  case (1 w os n parse print p s)
  show ?case
  proof (cases "cut_line (peer_in p)")
    case None
    then have "p' = p" "s' = s" using 1(2) by (simp_all add: peer_lines.simps [of w os n parse print p s] del: cut_line_none)
    moreover have "lines_of (peer_in p) = ([], peer_in p)" using None by (simp add: cut_line_none lines_of_none)
    ultimately show ?thesis using 1(4,5) by (intro exI [of _ "[]"]) simp
  next
    case (Some a)
    then obtain line rest where a: "cut_line (peer_in p) = Some (line, rest)" by (cases a) simp
    then obtain s1 r where r: "parse_request w os n parse line s = Some (s1, r)"
      using 1(2) by (auto simp: peer_lines.simps [of w os n parse print p s] split: bind_splits)
    obtain p1 ok where q: "peer_queue print r p = (p1, ok)" by fastforce
    show ?thesis
    proof (cases ok)
      case False
      with a r q 1(2) have "p' = peer_close p1" "s' = s1" by (simp_all add: peer_lines.simps [of w os n parse print p s])
      with r show ?thesis by (intro exI [of _ "[line]"] exI [of _ "[r]"]) (simp add: peer_close_def)
    next
      case True
      let ?p = "p1\<lparr>peer_in := rest\<rparr>"
      have "peer_queue print r p = (p1, True)" using q True by simp
      note Q = peer_queue_ok [OF this 1(4)]
      have l: "peer_lines w os n parse print ?p s1 = Some (p', s')"
        using a r q True 1(2) by (simp add: peer_lines.simps [of w os n parse print p s])
      have "\<exists>ls rs. answer_lines w os n parse ls s1 = Some (s', rs) \<and>
        (peer_open p' \<longrightarrow> lines_of (peer_in ?p) = (ls, peer_in p') \<and> unsent p' = unsent ?p @ reply_bytes print rs \<and>
          out_sent p' \<le> length (peer_out p') \<and> length (peer_out p') - out_sent p' \<le> CP_MAX_FRAME * 4)"
        using 1(1) [OF a refl r refl q [symmetric] refl _ l] True Q 1(3) by simp
      then obtain ls rs where ih: "answer_lines w os n parse ls s1 = Some (s', rs)"
        "peer_open p' \<longrightarrow> lines_of rest = (ls, peer_in p') \<and> unsent p' = unsent p1 @ reply_bytes print rs \<and>
          out_sent p' \<le> length (peer_out p') \<and> length (peer_out p') - out_sent p' \<le> CP_MAX_FRAME * 4" by auto
      have "answer_lines w os n parse (line # ls) s = Some (s', r # rs)" using r ih(1) by simp
      moreover have "peer_open p' \<longrightarrow> lines_of (peer_in p) = (line # ls, peer_in p') \<and>
          unsent p' = unsent p @ reply_bytes print (r # rs)"
        using ih(2) Q(1) a by (auto simp: cut_line_Some lines_of_line)
      ultimately show ?thesis using ih(2) by blast
    qed
  qed
qed

lemma peer_lines_closed:
  "peer_lines w os n parse print p s = Some (p', s') \<Longrightarrow> peer_open p \<Longrightarrow> \<not> peer_open p' \<Longrightarrow> p' = peer_close p'"
proof (induction w os n parse print p s rule: peer_lines.induct)
  case (1 w os n parse print p s)
  show ?case
  proof (cases "cut_line (peer_in p)")
    case None
    then show ?thesis using 1 by (simp add: peer_lines.simps [of w os n parse print p s])
  next
    case (Some a)
    then obtain line rest where a: "cut_line (peer_in p) = Some (line, rest)" by (cases a) simp
    then obtain s1 r where r: "parse_request w os n parse line s = Some (s1, r)"
      using 1(2) by (auto simp: peer_lines.simps [of w os n parse print p s] split: bind_splits)
    obtain p1 ok where q: "peer_queue print r p = (p1, ok)" by fastforce
    have "peer_open p1" using q 1(3) by (auto simp: peer_queue_def Let_def split: if_splits)
    then show ?thesis
      using 1(1) [OF a refl r refl q [symmetric] refl] a r q 1(2,4)
      by (auto simp: peer_lines.simps [of w os n parse print p s] peer_close_def split: if_splits)
  qed
qed

text \<open>What a connection has received and been sent, against the log of every line answered so far.\<close>

definition got :: "Ready \<Rightarrow> bytes" where
  "got ev = (case readable ev of Some (Got b) \<Rightarrow> b | _ \<Rightarrow> [])"

definition in_order :: "printer \<Rightarrow> (bytes \<times> json) list \<Rightarrow> Peer \<Rightarrow> bytes \<Rightarrow> bytes \<Rightarrow> bool" where
  "in_order print log p heard told \<longleftrightarrow> peer_ok p \<and> peer_in p = snd (lines_of heard) \<and>
     (\<exists>rs. length rs = length (fst (lines_of heard)) \<and> subseq (zip (fst (lines_of heard)) rs) log \<and>
        told @ unsent p = reply_bytes print rs)"

definition slot_ok :: "printer \<Rightarrow> (bytes \<times> json) list \<Rightarrow> Peer \<Rightarrow> bytes \<Rightarrow> bytes \<Rightarrow> bool" where
  "slot_ok print log p heard told \<longleftrightarrow> (if peer_open p then in_order print log p heard told else p = peer_close p)"

lemma slot_ok_more: "slot_ok print log p h t \<Longrightarrow> slot_ok print (log @ log1) p h t"
  by (simp add: slot_ok_def in_order_def split: if_splits) (blast intro: list_emb_prefix)

lemma peer_close_simps [simp]: "peer_close (peer_close p) = peer_close p" "\<not> peer_open (peer_close p)"
  by (simp_all add: peer_close_def)

lemma slot_closed [simp]: "slot_ok print log (peer_close p) h t"
  by (simp add: slot_ok_def)

lemma receive_ok:
  assumes "in_order print log p h t" "peer_open p" "peer_receive w os n parse print ev p s = Some (p', s', go)"
  shows "\<exists>ls rs. answer_lines w os n parse ls s = Some (s', rs) \<and>
    slot_ok print (log @ zip ls rs) p' (h @ (case ev of Got b \<Rightarrow> b | _ \<Rightarrow> [])) t"
proof (cases "\<exists>b. ev = Got b \<and> b \<noteq> [] \<and> length (peer_in p) + length b \<le> CP_MAX_FRAME")
  case False
  then have "s' = s \<and> (p' = peer_close p \<or> p' = p \<and> ev = Read_retry)"
  proof (cases ev)
    case (Got b)
    with False have "b = [] \<or> length (peer_in p) + length b > CP_MAX_FRAME" by (metis not_le)
    with Got assms(3) show ?thesis by (simp add: peer_receive_def)
  qed (use assms(3) in \<open>simp_all add: peer_receive_def\<close>)
  moreover have "slot_ok print log p h t" using assms(1,2) by (simp add: slot_ok_def)
  ultimately show ?thesis by (intro exI [of _ "[]"]) auto
next
  case True
  then obtain b where b: "ev = Got b" "b \<noteq> []" "length (peer_in p) + length b \<le> CP_MAX_FRAME" by blast
  let ?p = "p\<lparr>peer_in := peer_in p @ b\<rparr>"
  have l: "peer_lines w os n parse print ?p s = Some (p', s')"
    using assms(3) b(2,3) unfolding b(1) peer_receive_def peer_read.case
    by (auto simp: not_less split: bind_splits)
  obtain rs0 where I: "peer_ok p" "peer_in p = snd (lines_of h)" "length rs0 = length (fst (lines_of h))"
    "subseq (zip (fst (lines_of h)) rs0) log" "t @ unsent p = reply_bytes print rs0"
    using assms(1) by (auto simp: in_order_def)
  obtain ls rs where R: "answer_lines w os n parse ls s = Some (s', rs)"
    "peer_open p' \<longrightarrow> lines_of (peer_in p @ b) = (ls, peer_in p') \<and> unsent p' = unsent p @ reply_bytes print rs \<and>
      out_sent p' \<le> length (peer_out p') \<and> length (peer_out p') - out_sent p' \<le> CP_MAX_FRAME * 4"
  proof -
    have "peer_open ?p" "out_sent ?p \<le> length (peer_out ?p)" "length (peer_out ?p) - out_sent ?p \<le> CP_MAX_FRAME * 4"
      using assms(2) I(1) by (simp_all add: peer_ok_def)
    from peer_lines_ok [OF l this] that show thesis by force
  qed
  have "in_order print (log @ zip ls rs) p' (h @ b) t" if "peer_open p'"
  proof -
    have O: "lines_of (peer_in p @ b) = (ls, peer_in p')" "unsent p' = unsent p @ reply_bytes print rs"
      "out_sent p' \<le> length (peer_out p')" "length (peer_out p') - out_sent p' \<le> CP_MAX_FRAME * 4"
      using R(2) that by simp_all
    have "lines_of (h @ b) = (fst (lines_of h) @ ls, peer_in p')" using lines_of_append [of h b] O(1) I(2) by simp
    moreover have "length rs = length ls" using R(1) by (rule answer_lines_length)
    moreover have "length (peer_in p') \<le> CP_MAX_FRAME"
      using b(3) lines_of_length [of "peer_in p @ b"] O(1) by simp
    moreover have "zip (fst (lines_of h) @ ls) (rs0 @ rs) = zip (fst (lines_of h)) rs0 @ zip ls rs" using I(3) by simp
    moreover have "t @ unsent p' = reply_bytes print (rs0 @ rs)" 
      using arg_cong [OF I(5), of "\<lambda>x. x @ reply_bytes print rs"] by (simp only: O(2) append_assoc reply_bytes_simps(3))
    ultimately show ?thesis
      unfolding in_order_def peer_ok_def
      using I(3,4) O(3,4) by (intro conjI exI [of _ "rs0 @ rs"]) (simp_all add: list_emb_append_mono)
  qed
  moreover have "p' = peer_close p'" if "\<not> peer_open p'"
    by (rule peer_lines_closed [OF l _ that]) (simp add: assms(2))
  ultimately have "slot_ok print (log @ zip ls rs) p' (h @ b) t" unfolding slot_ok_def by (simp only: split: if_split) blast
  then show ?thesis using R(1) b(1) by (simp only: peer_read.case) blast
qed

lemma send_ok:
  assumes "in_order print log p h t" "peer_open p" "peer_send ev p = (p', sent)"
  shows "slot_ok print log p' h (t @ sent) \<and> (peer_open p' \<longrightarrow> peer_in p' = peer_in p)"
proof (cases ev)
  case (Took k)
  define q where "q = p\<lparr>out_sent := out_sent p + length (take k (unsent p))\<rparr>"
  have len: "out_sent p \<le> length (peer_out p)" "length (peer_out p) - out_sent p \<le> CP_MAX_FRAME * 4"
    using assms(1) by (simp_all add: in_order_def peer_ok_def)
  have sent: "sent = take k (unsent p)" using assms(3) Took by (simp add: peer_send_def Let_def)
  have "take k (unsent p) @ unsent q = unsent p"
    by (cases "k \<le> length (unsent p)") (simp_all add: q_def add.commute flip: drop_drop)
  moreover have "out_sent q \<le> length (peer_out q)" "length (peer_out q) - out_sent q \<le> CP_MAX_FRAME * 4"
    "peer_in q = peer_in p" "peer_open q" using len assms(2) by (auto simp: q_def)
  moreover have "p' = q \<or> out_sent q = length (peer_out q) \<and> p' = q\<lparr>peer_out := [], out_sent := 0\<rparr>"
    using assms(3) Took by (auto simp: peer_send_def Let_def q_def split: if_splits)
  ultimately have "peer_ok p'" "peer_in p' = peer_in p" "peer_open p'" "sent @ unsent p' = unsent p"
    using assms(1) sent by (auto simp: in_order_def peer_ok_def)
  then show ?thesis using assms(1) by (simp add: slot_ok_def in_order_def)
qed (use assms in \<open>auto simp: peer_send_def slot_ok_def\<close>)

lemma step_ok:
  assumes "slot_ok print log p h t" "peer_open p" "peer_step w os n parse print ev p s = Some (p', sent, s')"
  shows "\<exists>ls rs. answer_lines w os n parse ls s = Some (s', rs) \<and> slot_ok print (log @ zip ls rs) p' (h @ got ev) (t @ sent)"
proof -
  have io: "in_order print log p h t" using assms(1,2) by (simp add: slot_ok_def)
  obtain p1 s1 go where r: "(case readable ev of None \<Rightarrow> Some (p, s, True) | Some r \<Rightarrow> peer_receive w os n parse print r p s) =
      Some (p1, s1, go)"
    using assms(2,3) by (auto simp: peer_step_def split: bind_splits option.splits)
  have "\<exists>ls rs. answer_lines w os n parse ls s = Some (s1, rs) \<and> slot_ok print (log @ zip ls rs) p1 (h @ got ev) t"
  proof (cases "readable ev")
    case None
    then show ?thesis using r assms(1) by (intro exI [of _ "[]"]) (simp add: got_def)
  next
    case (Some a)
    then show ?thesis using receive_ok [OF io assms(2), of w os n parse a s p1 s1 go] r by (simp add: got_def)
  qed
  then obtain ls rs where L: "answer_lines w os n parse ls s = Some (s1, rs)" "slot_ok print (log @ zip ls rs) p1 (h @ got ev) t"
    by blast
  define p2 where "p2 = (case writable ev of None \<Rightarrow> (p1, []) | Some wr \<Rightarrow> if peer_open p1 then peer_send wr p1 else (p1, []))"
  have two: "slot_ok print (log @ zip ls rs) (fst p2) (h @ got ev) (t @ snd p2)"
  proof (cases "\<exists>wr. writable ev = Some wr \<and> peer_open p1")
    case True
    then obtain wr where "writable ev = Some wr" "peer_open p1" by blast
    then show ?thesis using send_ok [of print "log @ zip ls rs" p1 "h @ got ev" t wr "fst p2" "snd p2"] L(2)
      by (simp add: p2_def slot_ok_def)
  next
    case False
    then have "p2 = (p1, [])" by (auto simp: p2_def split: option.split)
    then show ?thesis using L(2) by simp
  qed
  have "s' = s1 \<and> (\<not> go \<and> p' = p1 \<and> sent = [] \<or> sent = snd p2 \<and> (p' = fst p2 \<or> p' = peer_close (fst p2)))"
    using assms(2,3) r by (auto simp: peer_step_def p2_def [symmetric] Let_def split: if_splits prod.splits)
  with L two show ?thesis by (intro exI conjI) auto
qed

text \<open>One round over all slots: the lines of all of them, in the order they are answered.\<close>

definition round_ok :: "printer \<Rightarrow> (bytes \<times> json) list \<Rightarrow> Ready \<times> Peer \<times> bytes \<times> bytes \<Rightarrow> Peer \<times> bytes \<Rightarrow> bool" where
  "round_ok print log = (\<lambda>(ev, p, heard, told) (p', sent).
     if peer_open p then slot_ok print log p' (heard @ got ev) (told @ sent) else p' = p \<and> sent = [])"

lemma round_ok_more: "round_ok print log q r \<Longrightarrow> round_ok print (log @ log1) q r"
  by (auto simp: round_ok_def slot_ok_more split: if_splits)

lemma peers_round_ok:
  assumes "peers_round w os n parse print (map (\<lambda>q. (fst q, fst (snd q))) qs) s = Some (rs, s')"
    and "\<forall>(ev, p, h, t) \<in> set qs. slot_ok print log p h t"
  shows "\<exists>ls replies. answer_lines w os n parse ls s = Some (s', replies) \<and> list_all2 (round_ok print (log @ zip ls replies)) qs rs"
  using assms
proof (induction qs arbitrary: log s rs)
  case (Cons q qs)
  obtain ev p h t where q: "q = (ev, p, h, t)" by (cases q)
  obtain p' sent s1 rs1 where step: "peer_step w os n parse print ev p s = Some (p', sent, s1)"
    and rest: "peers_round w os n parse print (map (\<lambda>q. (fst q, fst (snd q))) qs) s1 = Some (rs1, s')" "rs = (p', sent) # rs1"
    using Cons.prems(1) by (auto simp: q split: bind_splits)
  have slot: "slot_ok print log p h t" using Cons.prems(2) by (simp add: q)
  have "\<exists>ls replies. answer_lines w os n parse ls s = Some (s1, replies) \<and> round_ok print (log @ zip ls replies) q (p', sent)"
  proof (cases "peer_open p")
    case True
    from step_ok [OF slot True step] show ?thesis using True by (auto simp: round_ok_def q)
  next
    case False
    with step show ?thesis by (intro exI [of _ "[]"]) (simp add: peer_step_def round_ok_def q)
  qed
  then obtain ls replies where one: "answer_lines w os n parse ls s = Some (s1, replies)"
    "round_ok print (log @ zip ls replies) q (p', sent)" by blast
  have "\<forall>(ev, p, h, t) \<in> set qs. slot_ok print (log @ zip ls replies) p h t"
    using Cons.prems(2) slot_ok_more by fastforce
  from Cons.IH [OF rest(1) this] obtain ls2 replies2 where more:
    "answer_lines w os n parse ls2 s1 = Some (s', replies2)"
    "list_all2 (round_ok print ((log @ zip ls replies) @ zip ls2 replies2)) qs rs1" by blast
  have "zip (ls @ ls2) (replies @ replies2) = zip ls replies @ zip ls2 replies2"
    using answer_lines_length [OF one(1)] by simp
  with more(2) round_ok_more [OF one(2), of "zip ls2 replies2"]
  have "list_all2 (round_ok print (log @ zip (ls @ ls2) (replies @ replies2))) (q # qs) rs" by (simp add: rest(2))
  with answer_lines_append [OF one(1) more(1)] show ?case by blast
next
  case Nil
  then show ?case by (intro exI [of _ "[]"]) simp
qed

subsection \<open>The server as a transition system\<close>

text \<open>
  The states of the server at the top of its loop: for every slot the connection with all it has
  received and been sent since it was accepted, and the editor.
\<close>

type_synonym slot = "Peer \<times> bytes \<times> bytes"

definition no_slots :: "slot list" where
  "no_slots = replicate 32 (\<lparr>peer_open = False, peer_in = [], peer_out = [], out_sent = 0\<rparr>, [], [])"

definition next_slot :: "bool \<Rightarrow> slot \<times> Ready \<times> Peer \<times> bytes \<Rightarrow> slot" where
  "next_slot quitting = (\<lambda>((p, heard, told), ev, p', sent).
     (p', if peer_open p then heard @ got (asked quitting p ev) else [], if peer_open p then told @ sent else []))"

inductive serving :: "World \<Rightarrow> Os \<Rightarrow> nat \<Rightarrow> parser \<Rightarrow> printer \<Rightarrow> sys \<Rightarrow> slot list \<Rightarrow> sys \<Rightarrow> bool"
  for w os n parse print s0 where
  start: "serving w os n parse print s0 no_slots s0"
| turn: "serving w os n parse print s0 slots s \<Longrightarrow> length evs = 32 \<Longrightarrow>
    server_round w os n parse print arrival evs (map fst slots) s = Some (rs, s') \<Longrightarrow>
    serving w os n parse print s0 (map (next_slot (quit (snd s))) (zip slots (zip evs rs))) s'"

text \<open>Accepting a connection opens a free slot, which starts with nothing received or sent.\<close>

lemma accept_peer_nth:
  "k < length ps \<Longrightarrow> accept_peer own ps ! k = ps ! k \<or>
    \<not> peer_open (ps ! k) \<and> accept_peer own ps ! k = (ps ! k)\<lparr>peer_open := True\<rparr>"
  using find_index_Some [of "\<lambda>p. \<not> peer_open p" ps]
  by (auto simp: accept_peer_def nth_list_update split: option.split)

lemma length_accept [simp]: "length (accept_peer own ps) = length ps"
  by (simp add: accept_peer_def split: option.split)

text \<open>A slot before a round, free or taken by a new connection, and after it.\<close>

definition told_so_far :: "slot \<Rightarrow> bytes \<times> bytes" where
  "told_so_far x = (if peer_open (fst x) then snd x else ([], []))"

definition maybe_accepted :: "Peer \<Rightarrow> Peer \<Rightarrow> bool" where
  "maybe_accepted p q \<longleftrightarrow> q = p \<or> \<not> peer_open p \<and> q = p\<lparr>peer_open := True\<rparr>"

lemma accepted_slot_ok:
  assumes "slot_ok print log p h t" "maybe_accepted p q" "told_so_far (p, h, t) = (h', t')"
  shows "slot_ok print log q h' t'"
  using assms
  by (auto simp: told_so_far_def maybe_accepted_def slot_ok_def in_order_def peer_ok_def peer_close_def lines_of_none split: if_splits)

lemma next_slot_ok:
  assumes ok: "slot_ok print log p h t" and q: "maybe_accepted p q"
    and R: "round_ok print log' (asked quitting p ev, q, told_so_far (p, h, t)) (p', sent)"
    and x: "next_slot quitting ((p, h, t), ev, p', sent) = (p1, h1, t1)"
  shows "slot_ok print log' p1 h1 t1"
proof (cases "peer_open p")
  case True
  then show ?thesis using q R x by (auto simp: maybe_accepted_def round_ok_def told_so_far_def next_slot_def)
next
  case closed: False
  then have p: "p = peer_close p" using ok by (simp add: slot_ok_def)
  show ?thesis
  proof (cases "peer_open q")
    case True
    then have "slot_ok print log' p' [] sent" using R closed by (simp add: round_ok_def told_so_far_def asked_def got_def)
    then show ?thesis using closed x by (auto simp: next_slot_def slot_ok_def in_order_def lines_of_none split: if_splits)
  next
    case False
    then have "p' = p" using R q by (auto simp: round_ok_def maybe_accepted_def)
    then show ?thesis using closed p x by (simp add: next_slot_def slot_ok_def)
  qed
qed

lemma round_slots:
  assumes slots: "\<forall>(p, h, t) \<in> set slots. slot_ok print log p h t" "length slots = 32" and evs: "length evs = 32"
    and r: "server_round w os n parse print arrival evs (map fst slots) s = Some (rs, s')"
  shows "\<exists>ls replies. answer_lines w os n parse ls s = Some (s', replies) \<and> length rs = 32 \<and>
    (\<forall>(p, h, t) \<in> set (map (next_slot (quit (snd s))) (zip slots (zip evs rs))). slot_ok print (log @ zip ls replies) p h t)"
proof -
  let ?ps = "map fst slots" and ?q = "quit (snd s)"
  define ps where "ps = (case arrival of None \<Rightarrow> ?ps | Some own \<Rightarrow> accept_peer own ?ps)"
  have ps: "length ps = 32" "\<And>k. k < 32 \<Longrightarrow> maybe_accepted (fst (slots ! k)) (ps ! k)"
    using slots(2) accept_peer_nth [of _ ?ps] by (auto simp: ps_def maybe_accepted_def split: option.split)
  define qs where "qs = map (\<lambda>k. (asked ?q (fst (slots ! k)) (evs ! k), ps ! k, told_so_far (slots ! k))) [0..<32]"
  have len: "length qs = 32" and nth: "\<And>k. k < 32 \<Longrightarrow> qs ! k = (asked ?q (fst (slots ! k)) (evs ! k), ps ! k, told_so_far (slots ! k))"
    by (simp_all add: qs_def)
  have slot: "slot_ok print log p h t" if "k < 32" "slots ! k = (p, h, t)" for k p h t
    using slots that by (metis (no_types, lifting) case_prodD nth_mem)
  have "zip (map2 (asked ?q) ?ps evs) ps = map (\<lambda>q. (fst q, fst (snd q))) qs"
    using slots(2) evs ps(1) len nth by (intro nth_equalityI) (auto simp: case_prod_beta)
  then have "peers_round w os n parse print (map (\<lambda>q. (fst q, fst (snd q))) qs) s = Some (rs, s')"
    using r by (simp add: server_round_def ps_def Let_def)
  moreover have "\<forall>(ev, p, h, t) \<in> set qs. slot_ok print log p h t"
  proof (clarify)
    fix ev q h' t' assume "(ev, q, h', t') \<in> set qs"
    then obtain k where k: "k < 32" "q = ps ! k" "told_so_far (slots ! k) = (h', t')" by (auto simp: qs_def)
    obtain p h t where s: "slots ! k = (p, h, t)" by (cases "slots ! k")
    show "slot_ok print log q h' t'" using accepted_slot_ok [OF slot [OF k(1) s]] ps(2) [OF k(1)] k s by simp
  qed
  ultimately obtain ls replies where L: "answer_lines w os n parse ls s = Some (s', replies)"
    "list_all2 (round_ok print (log @ zip ls replies)) qs rs" using peers_round_ok by blast
  have rs: "length rs = 32" using list_all2_lengthD [OF L(2)] len by simp
  have "\<forall>(p, h, t) \<in> set (map (next_slot ?q) (zip slots (zip evs rs))). slot_ok print (log @ zip ls replies) p h t"
  proof (clarify)
    fix p1 h1 t1 assume "(p1, h1, t1) \<in> set (map (next_slot ?q) (zip slots (zip evs rs)))"
    then obtain k where k: "k < 32" "next_slot ?q (slots ! k, evs ! k, rs ! k) = (p1, h1, t1)"
      using slots(2) evs rs by (auto simp: in_set_zip)
    obtain p h t p' sent where s: "slots ! k = (p, h, t)" "rs ! k = (p', sent)" by (cases "slots ! k", cases "rs ! k")
    have "round_ok print (log @ zip ls replies) (asked ?q p (evs ! k), ps ! k, told_so_far (p, h, t)) (p', sent)"
      using list_all2_nthD [OF L(2), of k] k(1) len nth [OF k(1)] s by simp
    then show "slot_ok print (log @ zip ls replies) p1 h1 t1"
      using next_slot_ok [OF slot [OF k(1) s(1)]] ps(2) [OF k(1)] k(2) s by simp
  qed
  with L(1) rs show ?thesis by blast
qed

text \<open>What holds of every state served.\<close>

lemma serving_ok:
  assumes "serving w os n parse print s0 slots s"
  shows "length slots = 32 \<and> (\<exists>log replies. answer_lines w os n parse log s0 = Some (s, replies) \<and>
    (\<forall>(p, h, t) \<in> set slots. slot_ok print (zip log replies) p h t))"
  using assms
proof (induction rule: serving.induct)
  case start
  show ?case by (intro conjI exI [of _ "[]"]) (simp_all add: no_slots_def slot_ok_def peer_close_def)
next
  case (turn slots s evs arrival rs s')
  then obtain log replies where L: "length slots = 32" "answer_lines w os n parse log s0 = Some (s, replies)"
    "\<forall>(p, h, t) \<in> set slots. slot_ok print (zip log replies) p h t" by blast
  from round_slots [OF L(3,1) turn.hyps(2,3)] obtain ls rs2 where R: "answer_lines w os n parse ls s = Some (s', rs2)" "length rs = 32"
    "\<forall>(p, h, t) \<in> set (map (next_slot (quit (snd s))) (zip slots (zip evs rs))). slot_ok print (zip log replies @ zip ls rs2) p h t"
    by blast
  have "zip (log @ ls) (replies @ rs2) = zip log replies @ zip ls rs2" using answer_lines_length [OF L(2)] by simp
  with answer_lines_append [OF L(2) R(1)] R(2,3) L(1) turn.hyps(2) show ?case by (intro conjI exI) auto
qed

text \<open>The loop stays among these states.\<close>

definition turns_ok :: "(bool \<times> polled) list \<Rightarrow> bool" where
  "turns_ok turns \<longleftrightarrow> (\<forall>(i, poll) \<in> set turns. case poll of Polled arrival evs \<Rightarrow> length evs = 32 | _ \<Rightarrow> True)"

lemma loop_serving:
  assumes "serving w os n parse print s0 slots s" "turns_ok turns"
    "server_loop w os n parse print turns (map fst slots) s = Some s'"
  shows "\<exists>slots'. serving w os n parse print s0 slots' s'"
  using assms
proof (induction turns arbitrary: slots s)
  case (Cons turn turns)
  obtain i poll where turn: "turn = (i, poll)" by fastforce
  show ?case
  proof (cases "i \<or> quit (snd s) \<and> \<not> pending (map fst slots) \<or> poll = Poll_failed")
    case True
    then have "s' = s" using Cons.prems(3) by (auto simp: turn split: if_splits)
    then show ?thesis using Cons.prems(1) by blast
  next
    case go: False
    show ?thesis
    proof (cases poll)
      case (Polled arrival evs)
      then obtain rs s1 where r: "server_round w os n parse print arrival evs (map fst slots) s = Some (rs, s1)"
        "server_loop w os n parse print turns (map fst rs) s1 = Some s'"
        using Cons.prems(3) go by (auto simp: turn split: bind_splits if_splits)
      let ?next = "map (next_slot (quit (snd s))) (zip slots (zip evs rs))"
      have e: "length evs = 32" using Cons.prems(2) Polled by (auto simp: turns_ok_def turn)
      have n: "serving w os n parse print s0 ?next s1" using Cons.prems(1) e r(1) by (rule serving.turn)
      have "length rs = 32" using serving_ok [OF Cons.prems(1)] round_slots [OF _ _ e r(1)] by blast
      then have "map fst ?next = map fst rs"
        using serving_ok [OF Cons.prems(1)] e by (intro nth_equalityI) (auto simp: next_slot_def split: prod.split)
      moreover have "turns_ok turns" using Cons.prems(2) by (simp add: turns_ok_def)
      ultimately show ?thesis using Cons.IH [OF n] r(2) by simp
    next
      case Poll_interrupted
      moreover have "turns_ok turns" using Cons.prems(2) by (simp add: turns_ok_def)
      ultimately show ?thesis using Cons.IH [OF Cons.prems(1)] Cons.prems(3) go by (auto simp: turn split: if_splits)
    qed (use go in simp)
  qed
qed simp

lemma stdio_answers:
  assumes "backend_stdio w os n parse print turns inp out c s = Some (s', sent)"
  shows "\<exists>ls replies rest. answer_lines w os n parse ls s = Some (s', replies) \<and> reply_bytes print replies = sent @ rest"
  using assms
proof (induction w os n parse print turns inp out c s arbitrary: sent rule: backend_stdio.induct)
  case (2 w os n parse print interrupted turns inp out c s)
  show ?case
  proof (cases "quit (snd s) \<or> interrupted")
    case True
    then show ?thesis using 2(2) by (intro exI [of _ "[]"]) simp
  next
    case False
    then obtain line inp1 c1 where l: "protocol_read_line inp c = Some (line, inp1, c1)"
      using 2(2) by (auto split: bind_splits)
    show ?thesis
    proof (cases line)
      case None
      then show ?thesis using 2(2) False l by (intro exI [of _ "[]"]) simp
    next
      case (Some t)
      obtain s1 r ok sent1 out1 where a: "parse_request w os n parse (c_string t) s = Some (s1, r)"
        "protocol_write out (c_string (print r)) = Some (ok, sent1, out1)"
        using 2(2) False l Some by (auto split: bind_splits)
      obtain ok2 nl out2 where b: "(if ok then protocol_write out1 [10] else Some (False, [], out1)) = Some (ok2, nl, out2)"
        using 2(2) False l Some a by (auto split: bind_splits)
      obtain rest1 where w1: "c_string (print r) = sent1 @ rest1" "ok \<longleftrightarrow> rest1 = []" using protocol_write_sent [OF a(2)] by blast
      have w2: "\<exists>rest2. rest1 @ [10] = nl @ rest2 \<and> (ok2 \<longleftrightarrow> rest1 = [] \<and> rest2 = [])"
      proof (cases ok)
        case True
        then have "protocol_write out1 [10] = Some (ok2, nl, out2)" using b by simp
        from protocol_write_sent [OF this] True w1(2) show ?thesis by simp
      qed (use b w1(2) in simp)
      then obtain rest2 where w2: "rest1 @ [10] = nl @ rest2" "ok2 \<longleftrightarrow> rest1 = [] \<and> rest2 = []" by blast
      show ?thesis
      proof (cases ok2)
        case False
        then have "s' = s1" "sent = sent1 @ nl" using 2(2) \<open>\<not> (quit (snd s) \<or> interrupted)\<close> l Some a b by auto
        then show ?thesis
          using a(1) w1(1) w2(1) by (intro exI [of _ "[c_string t]"] exI [of _ "[r]"] exI [of _ rest2]) (simp add: reply_bytes_def)
      next
        case True
        then obtain sent2 where more: "backend_stdio w os n parse print turns inp1 out2 c1 s1 = Some (s', sent2)"
          "sent = sent1 @ nl @ sent2"
          using 2(2) \<open>\<not> (quit (snd s) \<or> interrupted)\<close> l Some a b by (auto split: bind_splits)
        obtain ls replies rest where ih: "answer_lines w os n parse ls s1 = Some (s', replies)"
          "reply_bytes print replies = sent2 @ rest"
          using 2(1) [OF \<open>\<not> (quit (snd s) \<or> interrupted)\<close> l refl refl Some a(1) refl a(2) refl refl b refl refl _ more(1)] True by blast
        have "nl = [10]" "sent1 = c_string (print r)" using w1 w2 True by auto
        then show ?thesis
          using ih a(1) more(2)
          by (intro exI [of _ "c_string t # ls"] exI [of _ "r # replies"] exI [of _ rest]) simp
      qed
    qed
  qed
qed simp

subsection \<open>A client that stops reading, or hangs up\<close>

definition idle :: Ready where
  "idle = \<lparr>readable = None, writable = None, hung_up = False\<rparr>"

lemma asked_idle [simp]: "asked quitting p idle = idle"
  by (simp add: asked_def idle_def)

lemma step_idle [simp]: "peer_step w os n parse print idle p s = Some (p, [], s)"
  by (simp add: peer_step_def idle_def)

lemma round_idle: "peers_round w os n parse print (zip (replicate (length ps) idle) ps) s = Some (map (\<lambda>p. (p, [])) ps, s)"
  by (induction ps) simp_all

lemma map2_asked_idle: "length ps = k \<Longrightarrow> map2 (asked quitting) ps (replicate k idle) = replicate k idle"
  by (rule nth_equalityI) simp_all

text \<open>Once the editor is quitting, the loop ends only when every client has read its last reply.\<close>

theorem quit_waits_for_clients:
  assumes "quit (snd s)" "pending ps" "length ps = 32"
  shows "server_loop w os n parse print (replicate k (False, Polled None (replicate 32 idle))) ps s = None"
proof (induction k)
  case (Suc k)
  have "server_round w os n parse print None (replicate 32 idle) ps s = Some (map (\<lambda>p. (p, [])) ps, s)"
    using round_idle [where ps = ps] assms(3) by (simp add: server_round_def map2_asked_idle)
  with Suc assms show ?case by (simp add: comp_def)
qed simp

text \<open>A client that sends a request longer than one read takes and closes its connection is cut off after the
  first read: its request is never executed.\<close>

theorem long_request_lost:
  assumes "peer_open p" "peer_in p = []" "10 \<notin> set b" "b \<noteq> []" "length b \<le> 8192"
  shows "peer_step w os n parse print \<lparr>readable = Some (Got b), writable = None, hung_up = True\<rparr> p s = Some (peer_close p, [], s)"
proof -
  have "cut_line b = None" using assms(3) by (simp add: cut_line_none)
  then have "peer_lines w os n parse print (p\<lparr>peer_in := b\<rparr>) s = Some (p\<lparr>peer_in := b\<rparr>, s)"
    by (simp add: peer_lines.simps [of w os n parse print "p\<lparr>peer_in := b\<rparr>" s])
  then show ?thesis
    using assms by (simp add: peer_step_def peer_receive_def CP_MAX_FRAME_def peer_close_def)
qed

text \<open>Standard input executes what precedes the first NUL of a line; a connection refuses the line.\<close>

theorem stdio_cuts_at_nul:
  assumes "utf8_valid t"
  shows "c_string (t @ 0 # rest) = t \<and>
    parse_request w os n parse (t @ 0 # rest) s = Some (s, failure (lit ''Invalid UTF-8 request''))"
proof -
  have "\<forall>x \<in> set t. x \<noteq> 0" using valid_no_nul [OF assms] by blast
  then have "c_string (t @ 0 # rest) = t" by (simp add: c_string_def takeWhile_tail)
  moreover have "\<not> utf8_valid (t @ 0 # rest)" using valid_no_nul [of "t @ 0 # rest"] by auto
  ultimately show ?thesis by (simp add: parse_request_def)
qed

subsection \<open>Properties\<close>

text \<open>C20 However many clients are connected and however the kernel splits their bytes, every complete line received
  on a connection has been answered in its order, the replies sent and still queued are exactly the
  replies to those lines, what is left in the buffer is the line not yet complete, and the editor is what
  answering one sequence of lines gives, in which the lines and replies of every connection occur in
  order; no buffer passes its limit.\<close>

theorem served_in_order:
  assumes "serving w os n parse print s0 slots s"
  shows "\<exists>log replies. answer_lines w os n parse log s0 = Some (s, replies) \<and>
    (\<forall>(p, heard, told) \<in> set slots. peer_open p \<longrightarrow> in_order print (zip log replies) p heard told)"
  using serving_ok [OF assms] unfolding slot_ok_def by fastforce

text \<open>When the server's loop ends, the editor is what answering some sequence of request lines, one after the
  other, makes of it.\<close>

theorem backend_serialises:
  assumes "turns_ok turns" "backend_server w os n parse print turns s = Some s'"
  shows "\<exists>log replies. answer_lines w os n parse log s = Some (s', replies)"
proof -
  have "server_loop w os n parse print turns (map fst no_slots) s = Some s'"
    using assms(2) by (simp add: backend_server_def no_slots_def)
  from loop_serving [OF serving.start assms(1) this] serving_ok show ?thesis by blast
qed

text \<open>The backend on standard input answers lines one after the other, and what it has written is a prefix
  of their replies, whatever fails.\<close>

theorem stdio_prefix:
  assumes "backend_stdio w os n parse print turns inp out c s = Some (s', sent)"
  shows "\<exists>ls replies rest. answer_lines w os n parse ls s = Some (s', replies) \<and> reply_bytes print replies = sent @ rest"
  using assms by (rule stdio_answers)

subsection \<open>Witnesses\<close>

text \<open>A parser that refuses everything, a printer that prints one character, and a client that sends one line.\<close>

definition free_peer :: Peer where
  "free_peer = \<lparr>peer_open = False, peer_in = [], peer_out = [], out_sent = 0\<rparr>"

definition line_ready :: Ready where
  "line_ready = \<lparr>readable = Some (Got [120, 10]), writable = None, hung_up = False\<rparr>"

definition one_line :: "(bool \<times> polled) list" where
  "one_line = [(False, Polled (Some True) (replicate 32 idle)), (False, Polled None (line_ready # replicate 31 idle)), (True, Poll_failed)]"

abbreviation refuse_all :: parser where "refuse_all \<equiv> \<lambda>_. Inl [101]"
abbreviation print_mark :: printer where "print_mark \<equiv> \<lambda>_. [63]"

lemma parse_refused: "parse_request w os n refuse_all [120] s = Some (s, failure [101])"
proof -
  have "utf8_valid [120]" by code_simp
  then show ?thesis by (simp add: parse_request_def strict_json_ascii_def)
qed

lemma step_line:
  "peer_step w os n refuse_all print_mark line_ready (free_peer\<lparr>peer_open := True\<rparr>) s =
    Some (free_peer\<lparr>peer_open := True, peer_out := [63, 10]\<rparr>, [], s)"
proof -
  have c: "cut_line [120, 10] = Some ([120], [])" "cut_line [] = None" by (simp_all add: cut_line_def)
  have q: "peer_queue print_mark r \<lparr>peer_open = True, peer_in = x, peer_out = [], out_sent = 0\<rparr> =
      (\<lparr>peer_open = True, peer_in = x, peer_out = [63, 10], out_sent = 0\<rparr>, True)" for r x
    by (simp add: peer_queue_def c_string_def CP_MAX_FRAME_def)
  have "peer_lines w os n refuse_all print_mark (free_peer\<lparr>peer_open := True, peer_in := [], peer_out := x\<rparr>) s =
      Some (free_peer\<lparr>peer_open := True, peer_in := [], peer_out := x\<rparr>, s)" for x
    by (subst peer_lines.simps) (simp add: c)
  then have "peer_lines w os n refuse_all print_mark (free_peer\<lparr>peer_open := True, peer_in := [120, 10]\<rparr>) s =
      Some (free_peer\<lparr>peer_open := True, peer_in := [], peer_out := [63, 10]\<rparr>, s)"
    by (subst peer_lines.simps) (simp add: c q parse_refused free_peer_def)
  then show ?thesis
    by (simp add: peer_step_def line_ready_def peer_receive_def CP_MAX_FRAME_def free_peer_def)
qed

lemma round_accept:
  "server_round w os n parse print (Some True) (replicate 32 idle) (replicate 32 free_peer) s =
    Some ((free_peer\<lparr>peer_open := True\<rparr>, []) # replicate 31 (free_peer, []), s)"
proof -
  let ?ps = "free_peer\<lparr>peer_open := True\<rparr> # replicate 31 free_peer"
  have "replicate 32 free_peer = free_peer # replicate 31 free_peer" by (simp add: numeral_eq_Suc)
  then have "accept_peer True (replicate 32 free_peer) = ?ps" by (simp add: accept_peer_def free_peer_def)
  then show ?thesis
    using round_idle [of w os n parse print ?ps s] by (simp add: server_round_def map2_asked_idle map_replicate_const)
qed

lemma round_line:
  "server_round w os n refuse_all print_mark None (line_ready # replicate 31 idle) (free_peer\<lparr>peer_open := True\<rparr> # replicate 31 free_peer) s =
    Some ((free_peer\<lparr>peer_open := True, peer_out := [63, 10]\<rparr>, []) # replicate 31 (free_peer, []), s)" if "\<not> quit (snd s)"
proof -
  have "asked (quit (snd s)) (free_peer\<lparr>peer_open := True\<rparr>) line_ready = line_ready"
    using that by (simp add: asked_def free_peer_def line_ready_def)
  then show ?thesis
    using round_idle [of w os n refuse_all print_mark "replicate 31 free_peer" s] step_line
    by (simp add: server_round_def map2_asked_idle map_replicate_const)
qed

lemma one_line_served:
  assumes "\<not> quit (snd s)"
  shows "serving w os n refuse_all print_mark s ((free_peer\<lparr>peer_open := True, peer_out := [63, 10]\<rparr>, [120, 10], []) #
    replicate 31 (free_peer, [], [])) s"
proof -
  have no: "map fst no_slots = replicate 32 free_peer" "no_slots = replicate 32 (free_peer, [], [])"
    by (simp_all add: no_slots_def free_peer_def)
  have r: "replicate 32 x = x # replicate 31 x" for x :: 'a by (simp add: numeral_eq_Suc)
  have next_free: "map (next_slot q) (zip (replicate 31 (free_peer, [], [])) (zip (replicate 31 idle) (replicate 31 (free_peer, [])))) =
      replicate 31 (free_peer, [], [])" for q by (simp add: next_slot_def free_peer_def)
  have "serving w os n refuse_all print_mark s (map (next_slot (quit (snd s))) (zip no_slots (zip (replicate 32 idle)
      ((free_peer\<lparr>peer_open := True\<rparr>, []) # replicate 31 (free_peer, []))))) s"
    by (rule serving.turn [OF serving.start, where arrival = "Some True"]) (simp_all only: no(1) round_accept length_replicate)
  also have "map (next_slot (quit (snd s))) (zip no_slots (zip (replicate 32 idle)
      ((free_peer\<lparr>peer_open := True\<rparr>, []) # replicate 31 (free_peer, [])))) =
      (free_peer\<lparr>peer_open := True\<rparr>, [], []) # replicate 31 (free_peer, [], [])"
    unfolding no(2) r zip_Cons_Cons list.map next_free by (simp add: next_slot_def free_peer_def)
  finally have one: "serving w os n refuse_all print_mark s ((free_peer\<lparr>peer_open := True\<rparr>, [], []) # replicate 31 (free_peer, [], [])) s" .
  have "serving w os n refuse_all print_mark s (map (next_slot (quit (snd s))) (zip ((free_peer\<lparr>peer_open := True\<rparr>, [], []) #
      replicate 31 (free_peer, [], [])) (zip (line_ready # replicate 31 idle)
      ((free_peer\<lparr>peer_open := True, peer_out := [63, 10]\<rparr>, []) # replicate 31 (free_peer, []))))) s"
    by (rule serving.turn [OF one, where arrival = None]) (simp_all add: round_line assms map_replicate_const)
  then show ?thesis
    unfolding zip_Cons_Cons list.map next_free
    using assms by (simp add: next_slot_def free_peer_def asked_def line_ready_def got_def)
qed

lemma sample_running: "\<not> quit (snd (empty_disk, sample_editor))"
  by (simp add: sample_editor_def blank_editor_def)

theorem served_in_order_witness:
  "\<exists>log replies. answer_lines sample_world sample_os 1 refuse_all log (empty_disk, sample_editor) = Some ((empty_disk, sample_editor), replies) \<and>
    in_order print_mark (zip log replies) (free_peer\<lparr>peer_open := True, peer_out := [63, 10]\<rparr>) [120, 10] []"
  using served_in_order [OF one_line_served [OF sample_running, of sample_world sample_os 1]] by auto

end
