(* ===== verification/Program.thy ===== *)
theory Program
  imports Term_Style Server
begin

section \<open>Starting the program (\<open>main\<close> in \<open>src/main.c\<close>)\<close>

text \<open>
  The command line, the checks of the options and the choice of what to run. What the program
  prints before it exits is part of the result; the environment, the file system and the
  locations compiled in are arguments.
\<close>

subsection \<open>Options\<close>

record Options =
  nox :: bool
  backend :: bool
  no_python :: bool
  no_user :: bool
  server :: "bytes option"
  connect :: "bytes option"
  color_policy :: "bytes option"
  cursor_policy :: "bytes option"
  tui_option :: bool
  configs :: "bytes list"
  files :: "bytes list"
  forward :: "bytes list"
  positional :: bool

definition initial_options :: "bytes option \<Rightarrow> bytes option \<Rightarrow> Options" where
  "initial_options colours cursor =
     \<lparr>nox = False, backend = False, no_python = False, no_user = False, server = None, connect = None,
      color_policy = colours, cursor_policy = cursor, tui_option = False, configs = [], files = [], forward = [],
      positional = False\<rparr>"

text \<open>The exit status with what is printed.\<close>

type_synonym exit = "nat \<times> bytes"

definition complain :: "bytes \<Rightarrow> exit" where
  "complain s = (2, lit ''cpymacs: '' @ s @ [10])"

definition needs_value :: "bytes \<Rightarrow> exit" where
  "needs_value s = complain (s @ lit '' requires a value'')"

definition usage :: bytes where
  "usage = concat (map (\<lambda>l. lit l @ [10])
     [''cpymacs 0.1.2'', ''Usage: cpymacs [OPTIONS] [FILE ...]'',
      ''  -nw, -nox, --nox, nox       Use the independent native terminal frontend'',
      ''  --tui-colors MODE           Terminal colours: auto (default), truecolor, 256, mono'',
      ''  --tui-cursor MODE           Terminal cursor: block (default), terminal'',
      ''  --backend, --batch          JSON Lines backend on stdin/stdout'',
      ''  --server SOCKET             Persistent local backend (Unix socket, mode 0600)'',
      ''  --connect SOCKET            Attach frontend to an existing backend'',
      ''  --config FILE               Load trusted Python configuration (repeatable)'',
      ''  -q, --no-user-config        Skip ~/.config/cpymacs/init.py'',
      ''  --no-python                 Disable Python and all plugins'',
      ''  --help                      Show this help'',
      ''  --version                   Show version'', [],
      ''Without --nox, launch cpymacs-gui when DISPLAY is set; otherwise use the TUI.'',
      ''Explicit --tui-colors or --tui-cursor options also imply --nox.'',
      ''Defaults: CPYMACS_TUI_COLORS=auto, CPYMACS_TUI_CURSOR=block.'',
      ''An existing backend owns its configuration; --connect rejects config options.''])"

definition is_tui_option :: "bytes \<Rightarrow> bool" where
  "is_tui_option s \<longleftrightarrow> s = lit ''--tui-colors'' \<or> s = lit ''--tui-cursor'' \<or>
     take 13 s = lit ''--tui-colors='' \<or> take 13 s = lit ''--tui-cursor=''"

text \<open>The argument after the first \<open>=\<close> of \<open>s\<close>, or else the next argument.\<close>

definition option_value :: "bytes \<Rightarrow> bytes list \<Rightarrow> (bytes \<times> bytes list) option" where
  "option_value s rest =
     (if 61 \<in> set s then Some (tl (dropWhile (\<lambda>c. c \<noteq> 61) s), rest)
      else case rest of [] \<Rightarrow> None | v # rest \<Rightarrow> Some (v, rest))"

definition set_policy :: "bytes \<Rightarrow> bytes \<Rightarrow> Options \<Rightarrow> Options" where
  "set_policy s v opts =
     (if take 12 s = lit ''--tui-colors'' then opts\<lparr>color_policy := Some v\<rparr> else opts\<lparr>cursor_policy := Some v\<rparr>)\<lparr>tui_option := True\<rparr>"

text \<open>One turn of the loop over the arguments: the exit of the program, or the options and the arguments left.\<close>

definition arg_step :: "bytes \<Rightarrow> bytes list \<Rightarrow> Options \<Rightarrow> exit + Options \<times> bytes list" where
  "arg_step s rest opts =
     (if positional opts then Inr (opts\<lparr>files := files opts @ [s], forward := forward opts @ [s]\<rparr>, rest)
      else if s = lit ''--'' then Inr (opts\<lparr>positional := True, forward := forward opts @ [s]\<rparr>, rest)
      else if s = lit ''--nox'' \<or> s = lit ''-nox'' \<or> s = lit ''-nw'' \<or> s = lit ''nox'' then Inr (opts\<lparr>nox := True\<rparr>, rest)
      else if is_tui_option s then
        (case option_value s rest of None \<Rightarrow> Inl (needs_value s) | Some (v, rest) \<Rightarrow> Inr (set_policy s v opts, rest))
      else if s = lit ''--backend'' \<or> s = lit ''--batch'' then Inr (opts\<lparr>backend := True\<rparr>, rest)
      else if s = lit ''--server'' \<or> s = lit ''--connect'' \<or> s = lit ''--config'' then
        (case rest of
          [] \<Rightarrow> Inl (needs_value s)
        | v # rest \<Rightarrow>
            if s = lit ''--server'' then Inr (opts\<lparr>server := Some v\<rparr>, rest)
            else if s = lit ''--connect'' then Inr (opts\<lparr>connect := Some v\<rparr>, rest)
            else if length (configs opts) = 32 then Inl (2, lit ''Too many configuration files'' @ [10])
            else Inr (opts\<lparr>configs := configs opts @ [v], forward := forward opts @ [s, v]\<rparr>, rest))
      else if s = lit ''--no-user-config'' \<or> s = lit ''-q'' then Inr (opts\<lparr>no_user := True, forward := forward opts @ [s]\<rparr>, rest)
      else if s = lit ''--no-python'' then Inr (opts\<lparr>no_python := True, forward := forward opts @ [s]\<rparr>, rest)
      else if s = lit ''--version'' then Inl (0, lit ''cpymacs 0.1.2'' @ [10])
      else if s = lit ''--help'' then Inl (0, usage)
      else if take 1 s = lit ''-'' then Inl (complain (lit ''unknown option: '' @ s))
      else Inr (opts\<lparr>files := files opts @ [s], forward := forward opts @ [s]\<rparr>, rest))"

lemma arg_step_shorter: "arg_step s rest opts = Inr (opts', rest') \<Longrightarrow> length rest' \<le> length rest"
  by (auto simp: arg_step_def option_value_def split: if_splits option.splits list.splits)

function parse_args :: "bytes list \<Rightarrow> Options \<Rightarrow> exit + Options" where
  "parse_args [] opts = Inr opts"
| "parse_args (s # rest) opts =
     (case arg_step s rest opts of Inl e \<Rightarrow> Inl e | Inr (opts, rest) \<Rightarrow> parse_args rest opts)"
  by pat_completeness auto
termination
  by (relation "measure (\<lambda>(args, opts). length args)") (auto dest: arg_step_shorter)

text \<open>The checks after the last argument.\<close>

definition check_options :: "Options \<Rightarrow> exit + Options" where
  "check_options opts =
     (if tui_option opts \<and> (backend opts \<or> server opts \<noteq> None) then Inl (complain (lit ''terminal options are frontend-local''))
      else
        let opts = (if tui_option opts then opts\<lparr>nox := True\<rparr> else opts) in
        if connect opts \<noteq> None \<and> (backend opts \<or> server opts \<noteq> None \<or> configs opts \<noteq> [] \<or> no_python opts \<or> no_user opts)
        then Inl (complain (lit ''--connect cannot change backend configuration''))
        else Inr opts)"

definition read_options :: "bytes option \<Rightarrow> bytes option \<Rightarrow> bytes list \<Rightarrow> exit + Options" where
  "read_options colours cursor args =
     (case parse_args args (initial_options colours cursor) of Inl e \<Rightarrow> Inl e | Inr opts \<Rightarrow> check_options opts)"

subsection \<open>What is run\<close>

text \<open>The backend on a socket or on standard input, the X11 front end as a program with its arguments, or the
  terminal front end with the arguments of the backend it starts.\<close>

datatype mode = Server_on bytes | Stdio | Gui "bytes list" | Terminal "bytes list"

text \<open>The arguments of the child of \<open>connection_open\<close>.\<close>

definition backend_args :: "bytes \<Rightarrow> Options \<Rightarrow> bytes list" where
  "backend_args exe opts = [exe, lit ''--backend''] @ forward opts"

definition gui_args :: "bytes \<Rightarrow> bytes \<Rightarrow> Options \<Rightarrow> bytes list" where
  "gui_args gui exe opts = [gui, lit ''--backend-exe'', exe] @
     (case connect opts of None \<Rightarrow> [] | Some s \<Rightarrow> [lit ''--connect'', s]) @ forward opts"

definition dir_name :: "bytes \<Rightarrow> bytes" where
  "dir_name s = (if 47 \<in> set s then rev (tl (dropWhile (\<lambda>c. c \<noteq> 47) (rev s))) else s)"

definition choose_mode :: "bool \<Rightarrow> (bytes \<Rightarrow> bool) \<Rightarrow> bytes \<Rightarrow> Options \<Rightarrow> exit + mode" where
  "choose_mode display executable exe opts =
     (if backend opts \<or> server opts \<noteq> None
      then Inr (case server opts of Some sock \<Rightarrow> Server_on sock | None \<Rightarrow> Stdio)
      else
        let gui = dir_name exe @ lit ''/cpymacs-gui'' in
        if \<not> nox opts \<and> display \<and> executable gui then Inr (Gui (gui_args gui exe opts))
        else if term_colors_parse (color_policy opts) = None
        then Inl (complain (lit ''--tui-colors must be auto, truecolor, 256, or mono''))
        else if cursor_policy opts \<notin> {None, Some (lit ''block''), Some (lit ''terminal'')}
        then Inl (complain (lit ''--tui-cursor must be block or terminal''))
        else Inr (Terminal (backend_args exe opts)))"

text \<open>Where the Python files are.\<close>

definition python_path :: "bytes \<Rightarrow> bytes \<Rightarrow> bytes option \<Rightarrow> (bytes \<Rightarrow> bool) \<Rightarrow> bytes \<Rightarrow> bytes" where
  "python_path compiled installed override readable_file exe =
     (case override of
        Some (c # p) \<Rightarrow> c # p
      | _ \<Rightarrow>
        let candidate = dir_name exe @ lit ''/../share/cpymacs/python'' in
        if readable_file (candidate @ lit ''/cpymacs.py'') then candidate
        else if readable_file (compiled @ lit ''/cpymacs.py'') then compiled
        else installed)"

text \<open>The backend's editor: plugins, then the files of the command line in order; a file that cannot be opened
  is reported and skipped.\<close>

fun open_files :: "World \<Rightarrow> Os \<Rightarrow> Disk \<Rightarrow> bytes list \<Rightarrow> Editor \<Rightarrow> (Editor \<times> bytes list) option" where
  "open_files w os d [] e = Some (e, [])"
| "open_files w os d (f # fs) e = do {
     (e, ok) \<leftarrow> editor_open w os d e f;
     (e', msgs) \<leftarrow> open_files w os d fs e;
     Some (e', (if ok then [] else [message e]) @ msgs) }"

definition start_backend :: "World \<Rightarrow> Os \<Rightarrow> Disk \<Rightarrow> (bytes list \<Rightarrow> bool \<Rightarrow> Editor \<Rightarrow> Editor \<times> bool) \<Rightarrow> Options \<Rightarrow> (Editor \<times> bytes list) option" where
  "start_backend w os d plugins_init opts = do {
     e \<leftarrow> editor_init;
     let (e, ok) = (if no_python opts then (e, True) else plugins_init (configs opts) (\<not> no_user opts) e);
     (e', msgs) \<leftarrow> open_files w os d (files opts) e;
     Some (e', (if ok then [] else [message e]) @ msgs) }"

subsection \<open>The backend gets the configuration of the command line\<close>

text \<open>The options a backend obeys, and those that decide what is run.\<close>

definition same_backend :: "Options \<Rightarrow> Options \<Rightarrow> bool" where
  "same_backend a b \<longleftrightarrow> configs a = configs b \<and> files a = files b \<and> no_user a = no_user b \<and> no_python a = no_python b \<and>
     positional a = positional b"

definition same_run :: "Options \<Rightarrow> Options \<Rightarrow> bool" where
  "same_run a b \<longleftrightarrow> backend a = backend b \<and> server a = server b \<and> connect a = connect b \<and> tui_option a = tui_option b"

definition replays :: "bytes list \<Rightarrow> Options \<Rightarrow> Options \<Rightarrow> bool" where
  "replays args opts result \<longleftrightarrow> (\<forall>b. same_backend b opts \<longrightarrow>
     (\<exists>b'. parse_args args b = Inr b' \<and> same_backend b' result \<and> same_run b' b))"

text \<open>An argument is either for the front end only, or passed on with its value and understood alike.\<close>

lemma arg_step_effect:
  assumes "arg_step s rest opts = Inr (opts', rest')"
  shows "forward opts' = forward opts \<and> (\<forall>b. same_backend b opts \<longrightarrow> same_backend b opts') \<or>
    (\<exists>chunk. forward opts' = forward opts @ s # chunk \<and>
      (\<forall>b fw. same_backend b opts \<longrightarrow>
        (\<exists>b'. arg_step s (chunk @ fw) b = Inr (b', fw) \<and> same_backend b' opts' \<and> same_run b' b)))"
  using assms
  by (simp only: arg_step_def split: if_split_asm option.split_asm list.split_asm)
    (simp_all only: sum.inject sum.distinct prod.inject,
     (clarsimp simp: same_backend_def same_run_def set_policy_def arg_step_def)+)

lemma parse_replays:
  "parse_args args opts = Inr r \<Longrightarrow> \<exists>fw. forward r = forward opts @ fw \<and> replays fw opts r"
proof (induction args opts rule: parse_args.induct)
  case (1 opts)
  then show ?case by (intro exI [of _ "[]"]) (auto simp: replays_def same_run_def)
next
  case (2 s rest opts)
  then obtain opts' rest' where step: "arg_step s rest opts = Inr (opts', rest')" "parse_args rest' opts' = Inr r"
    by (auto split: sum.splits)
  then obtain fw where fw: "forward r = forward opts' @ fw" "replays fw opts' r" using 2(1) by blast
  from arg_step_effect [OF step(1)] show ?case
  proof (elim disjE exE conjE)
    assume "forward opts' = forward opts" "\<forall>b. same_backend b opts \<longrightarrow> same_backend b opts'"
    with fw show ?thesis by (auto simp: replays_def)
  next
    fix chunk
    assume f: "forward opts' = forward opts @ s # chunk"
      and b: "\<forall>b fw. same_backend b opts \<longrightarrow>
        (\<exists>b'. arg_step s (chunk @ fw) b = Inr (b', fw) \<and> same_backend b' opts' \<and> same_run b' b)"
    have "replays (s # chunk @ fw) opts r"
      unfolding replays_def
    proof (intro allI impI)
      fix b0 assume "same_backend b0 opts"
      with b obtain b1 where "arg_step s (chunk @ fw) b0 = Inr (b1, fw)" "same_backend b1 opts'" "same_run b1 b0" by blast
      then show "\<exists>b'. parse_args (s # chunk @ fw) b0 = Inr b' \<and> same_backend b' r \<and> same_run b' b0"
        using fw(2) by (fastforce simp: replays_def same_run_def)
    qed
    with f fw(1) show ?thesis by auto
  qed
qed

subsection \<open>Properties\<close>

text \<open>C13 The backend a front end starts reads from the arguments it is given exactly the configuration files, the
  files and the plugin switches of the front end's command line, whatever else that line holds, and runs on
  standard input and output.\<close>

theorem backend_gets_configuration:
  assumes "parse_args args (initial_options colours cursor) = Inr opts"
  shows "\<exists>opts'. read_options colours' cursor' (tl (backend_args exe opts)) = Inr opts' \<and>
    configs opts' = configs opts \<and> files opts' = files opts \<and> no_user opts' = no_user opts \<and>
    no_python opts' = no_python opts \<and> choose_mode display executable exe opts' = Inr Stdio"
proof -
  define start where "start = (initial_options colours' cursor')\<lparr>backend := True\<rparr>"
  have "replays (forward opts) (initial_options colours cursor) opts"
    using parse_replays [OF assms] by (auto simp: initial_options_def)
  moreover have "same_backend start (initial_options colours cursor)"
    by (simp add: same_backend_def start_def initial_options_def)
  ultimately obtain b where b: "parse_args (forward opts) start = Inr b" "same_backend b opts" "same_run b start"
    unfolding replays_def by blast
  have "arg_step (lit ''--backend'') (forward opts) (initial_options colours' cursor') = Inr (start, forward opts)"
  proof -
    have "\<not> is_tui_option (lit ''--backend'')" by code_simp
    then show ?thesis by (simp add: arg_step_def initial_options_def start_def)
  qed
  then have "parse_args (tl (backend_args exe opts)) (initial_options colours' cursor') = Inr b"
    using b(1) by (simp add: backend_args_def)
  moreover have "backend b" "server b = None" "connect b = None" "\<not> tui_option b"
    using b(3) by (simp_all add: same_run_def start_def initial_options_def)
  ultimately show ?thesis
    using b(2) by (auto simp: read_options_def check_options_def choose_mode_def same_backend_def Let_def)
qed

theorem backend_gets_configuration_witness:
  "\<exists>opts opts'. parse_args [lit ''-nw'', lit ''-q'', lit ''--'', lit ''-x''] (initial_options None None) = Inr opts \<and>
    forward opts = [lit ''-q'', lit ''--'', lit ''-x''] \<and>
    read_options None None (tl (backend_args (lit ''cpymacs'') opts)) = Inr opts' \<and> files opts' = [lit ''-x''] \<and> no_user opts'"
proof -
  have "\<not> is_tui_option (lit ''-q'')" by code_simp
  then have "\<exists>opts. parse_args [lit ''-nw'', lit ''-q'', lit ''--'', lit ''-x''] (initial_options None None) = Inr opts \<and>
    forward opts = [lit ''-q'', lit ''--'', lit ''-x''] \<and> files opts = [lit ''-x''] \<and> no_user opts"
    by (simp add: arg_step_def initial_options_def)
  then obtain opts where P: "parse_args [lit ''-nw'', lit ''-q'', lit ''--'', lit ''-x''] (initial_options None None) = Inr opts"
    "forward opts = [lit ''-q'', lit ''--'', lit ''-x'']" "files opts = [lit ''-x'']" "no_user opts" by blast
  from backend_gets_configuration [OF P(1), of None None "lit ''cpymacs''"] P show ?thesis by fastforce
qed

end
