(* ===== verification/Tui.thy ===== *)
theory Tui
  imports Term_Style Protocol
begin

section \<open>The terminal front end (\<open>src/tui.c\<close>)\<close>

text \<open>
  Painting a snapshot on a terminal and reading keys from it. What the C library does with
  multibyte characters (\<open>mbrtowc\<close> from the initial state, \<open>wcwidth\<close>) and what json-c makes of
  a value that is no integer are parameters. The output is a list of bytes; \<open>None\<close> is a failed
  assertion of json-c.
\<close>

subsection \<open>Painting\<close>

text \<open>\<open>decode s\<close> is the character \<open>mbrtowc\<close> reads at the start of \<open>s\<close> and its length, \<open>None\<close> when it reports
  an invalid or incomplete sequence or a NUL.\<close>

record Tty =
  decode :: "bytes \<Rightarrow> (32 word \<times> nat) option"
  wc_width :: "32 word \<Rightarrow> int"
  other_int :: "json \<Rightarrow> int"
  float :: Fp

text \<open>The file's variables.\<close>

record Screen =
  terminal_palette :: TermPalette
  terminal_colors :: TermColors
  software_cursor :: bool

record Paint =
  painted :: bytes
  used :: int
  limit :: int
  cursor_at :: int
  cur_face :: int
  last_cursor :: bool

definition paint_face :: "Screen \<Rightarrow> int \<Rightarrow> Paint \<Rightarrow> Paint" where
  "paint_face scr i p =
     (if i \<noteq> cur_face p
      then p\<lparr>painted := painted p @ term_face_write (terminal_palette scr) (terminal_colors scr) i, cur_face := i\<rparr> else p)"

definition next_char :: "Tty \<Rightarrow> bytes \<Rightarrow> 32 word \<times> nat \<times> bool" where
  "next_char tty s = (case decode tty s of Some (wc, n) \<Rightarrow> if n = 0 then (63, 1, True) else (wc, n, False) | None \<Rightarrow> (63, 1, True))"

definition painted_width :: "Tty \<Rightarrow> 32 word \<Rightarrow> int" where
  "painted_width tty wc = (if wc_width tty wc < 0 then 2 else wc_width tty wc)"

text \<open>What is written for a character of \<open>n\<close> bytes at the start of \<open>s\<close>.\<close>

definition shown_char :: "Tty \<Rightarrow> bytes \<Rightarrow> 32 word \<Rightarrow> nat \<Rightarrow> bool \<Rightarrow> bytes" where
  "shown_char tty s wc n invalid =
     (if invalid then lit ''?''
      else if wc_width tty wc < 0 then [94, if wc = 127 then 63 else byte_of (unat (wc + 64) mod 128)]
      else take n s)"

function paint_text :: "Tty \<Rightarrow> Screen \<Rightarrow> bytes \<Rightarrow> int \<Rightarrow> Paint \<Rightarrow> Paint" where
  "paint_text tty scr s i p =
     (if s = [] \<or> used p \<ge> limit p then p
      else
        let (wc, n, invalid) = next_char tty s; width = painted_width tty wc in
        if used p + width > limit p then p
        else
          let on_cursor = (if width = 0 then last_cursor p
                else software_cursor scr \<and> cursor_at p \<ge> used p \<and> cursor_at p < used p + width);
              p = paint_face scr (if on_cursor then int TERM_CURSOR_FACE else i) p;
              p = p\<lparr>painted := painted p @ shown_char tty s wc n invalid, used := used p + width, last_cursor := on_cursor\<rparr>
          in paint_text tty scr (drop n s) i p)"
  by pat_completeness auto
termination
  by (relation "measure (\<lambda>(tty, scr, s, i, p). length s)") (auto simp: next_char_def split: option.splits if_splits)

declare paint_text.simps [simp del]

function paint_padding :: "Screen \<Rightarrow> int \<Rightarrow> Paint \<Rightarrow> Paint" where
  "paint_padding scr i p =
     (if used p \<ge> limit p then p
      else
        let p = paint_face scr (if software_cursor scr \<and> used p = cursor_at p then int TERM_CURSOR_FACE else i) p
        in paint_padding scr i (p\<lparr>painted := painted p @ lit '' '', used := used p + 1, last_cursor := False\<rparr>))"
  by pat_completeness auto
termination
  by (relation "measure (\<lambda>(scr, i, p). nat (limit p - used p))") (auto simp: paint_face_def)

declare paint_padding.simps [simp del]

function text_columns :: "Tty \<Rightarrow> bytes \<Rightarrow> int \<Rightarrow> int \<Rightarrow> int" where
  "text_columns tty s most so_far =
     (if s = [] \<or> so_far \<ge> most then so_far
      else
        let (wc, n, invalid) = next_char tty s; width = painted_width tty wc in
        if so_far + width > most then so_far else text_columns tty (drop n s) most (so_far + width))"
  by pat_completeness auto
termination
  by (relation "measure (\<lambda>(tty, s, most, so_far). length s)") (auto simp: next_char_def split: option.splits if_splits)

declare text_columns.simps [simp del]

subsection \<open>Painting a snapshot\<close>

text \<open>\<open>json_object_array_get_idx\<close> asserts that its argument is an array; beyond the end it yields null.\<close>

definition array_at :: "json \<Rightarrow> nat \<Rightarrow> json option" where
  "array_at j i = (case j of JArray xs \<Rightarrow> Some (if i < length xs then xs ! i else JNull) | _ \<Rightarrow> None)"

definition as_int :: "Tty \<Rightarrow> json \<Rightarrow> int" where
  "as_int tty j = (case j of JInt i \<Rightarrow> clip64 i | _ \<Rightarrow> other_int tty j)"

definition json_c_string :: "json \<Rightarrow> string \<Rightarrow> bytes" where
  "json_c_string j key = (case json_string j (lit key) (Some []) of Some s \<Rightarrow> s | None \<Rightarrow> [])"

definition int_field :: "json \<Rightarrow> string \<Rightarrow> int \<Rightarrow> int" where
  "int_field j key fallback = to_int32 (json_int j (lit key) fallback)"

definition elements :: "json \<Rightarrow> json list" where
  "elements j = (case j of JArray xs \<Rightarrow> xs | _ \<Rightarrow> [])"

definition default_colors :: "rgb list" where
  "default_colors = [0xe4e4ef, 0x181818, 0x878787, 0xffaf00, 0xd7ff87, 0xff5faf, 0x5fd7ff, 0xffaf5f, 0x4e3a65, 0x303030]"

definition palette_colors :: "Tty \<Rightarrow> json \<Rightarrow> rgb list" where
  "palette_colors tty state =
     (let given = elements (json_field state (lit ''colors'')) in
      map (\<lambda>i. if i < length given then word_of_int (as_int tty (given ! i)) AND 0xffffff else default_colors ! i) [0..<10])"

text \<open>Where the cursor goes: the last active window's position, or the input point of the prompt.\<close>

definition cursor_cell :: "Tty \<Rightarrow> json \<Rightarrow> json list \<Rightarrow> int \<Rightarrow> int \<Rightarrow> int \<times> int" where
  "cursor_cell tty state ps rs cs =
     (let (y, x) = foldl (\<lambda>(y, x) p. if jbool p (lit ''active'') False
             then (int_field p ''y'' 0 + int_field p ''cursor_row'' 0, int_field p ''x'' 0 + int_field p ''cursor_col'' 0)
             else (y, x)) (0, 0) ps;
          prompt = json_c_string state ''prompt''; input = json_c_string state ''input'';
          n = json_int state (lit ''input_point'') 0;
          n = (if n < 0 \<or> n > int (length input) then length input else nat n);
          (y, x) = (if prompt \<noteq> [] then (rs - 1, text_columns tty prompt cs 0 + text_columns tty (take n input) cs 0) else (y, x))
      in (max 0 (min y (rs - 1)), max 0 (min x (cs - 1))))"

text \<open>\<open>%6lld\<close> and two blanks.\<close>

definition line_number :: "int \<Rightarrow> bytes" where
  "line_number n =
     (if n \<ge> 0 then (let s = show_nat (nat n + 1) in replicate (6 - length s) 32 @ s @ lit ''  '') else replicate 8 32)"

text \<open>The styled runs of a line from byte \<open>at\<close> on; a run out of order or out of range is skipped.\<close>

fun paint_spans :: "Tty \<Rightarrow> Screen \<Rightarrow> bytes \<Rightarrow> json list \<Rightarrow> nat \<Rightarrow> Paint \<Rightarrow> (nat \<times> Paint) option" where
  "paint_spans tty scr s [] spot p = Some (spot, p)"
| "paint_spans tty scr s (sp # sps) spot p = do {
     a \<leftarrow> array_at sp 0; z \<leftarrow> array_at sp 1; st \<leftarrow> array_at sp 2;
     let a = unat (word_of_int (as_int tty a) :: 64 word);
     let z = unat (word_of_int (as_int tty z) :: 64 word);
     let st = to_int32 (as_int tty st);
     if a < spot \<or> a > z \<or> z > length s \<or> st < 0 \<or> st > 9 then paint_spans tty scr s sps spot p
     else paint_spans tty scr s sps z (paint_text tty scr (seg a (z - a) s) st (paint_text tty scr (seg spot (a - spot) s) 0 p)) }"

text \<open>A row of a window's text: its line number, then the line with its runs.\<close>

definition paint_line :: "Tty \<Rightarrow> Screen \<Rightarrow> int \<Rightarrow> json \<Rightarrow> Paint \<Rightarrow> Paint option" where
  "paint_line tty scr gutter row p =
     (let p = (if gutter \<noteq> 0
            then let saved = limit p; p = p\<lparr>limit := if gutter < saved then gutter else saved\<rparr>;
                     p = paint_padding scr 2 (paint_text tty scr (line_number (json_int row (lit ''line'') (- 1))) 2 p)
                 in p\<lparr>limit := saved\<rparr>
            else p);
          s = json_c_string row ''text''
      in do {
        (spot, p) \<leftarrow> paint_spans tty scr s (elements (json_field row (lit ''spans''))) 0 p;
        Some (paint_text tty scr (drop spot s) 0 p) })"

definition go_to :: "int \<Rightarrow> int \<Rightarrow> bytes" where
  "go_to row column = [27, 91] @ show_nat (nat row) @ lit '';'' @ show_nat (nat column) @ lit ''H''"

text \<open>What one window puts on a row of the screen: nothing when it does not reach it.\<close>

definition pane_row :: "Tty \<Rightarrow> Screen \<Rightarrow> int \<Rightarrow> int \<Rightarrow> bool \<Rightarrow> int \<times> int \<Rightarrow> int \<Rightarrow> json \<Rightarrow> bytes option" where
  "pane_row tty scr rs cs prompting spot screenrow p =
     (let x = int_field p ''x'' 0; y = int_field p ''y'' 0; width = int_field p ''width'' cs;
          height = int_field p ''height'' (rs - 1); gutter = int_field p ''gutter'' 0 in
      if screenrow < y \<or> screenrow \<ge> y + height \<or> x < 0 \<or> x + width > cs then Some []
      else
        let modeline = (screenrow = y + height - 1); i = (if modeline then 9 else 0);
            paint = \<lparr>painted = go_to (screenrow + 1) (x + 1), used = 0, limit = width,
              cursor_at = (if \<not> prompting \<and> \<not> modeline \<and> jbool p (lit ''active'') False \<and> screenrow = fst spot then snd spot - x else - 1),
              cur_face = - 1, last_cursor = False\<rparr>
        in do {
          paint \<leftarrow> (if modeline then Some (paint_text tty scr (json_c_string p ''modeline'') i paint)
            else do {
              row \<leftarrow> array_at (json_field p (lit ''lines'')) (nat (screenrow - y));
              paint_line tty scr gutter row paint });
          Some (painted (paint_padding scr i paint)) })"

definition bottom_row :: "Tty \<Rightarrow> Screen \<Rightarrow> json \<Rightarrow> int \<Rightarrow> int \<Rightarrow> int \<Rightarrow> bytes" where
  "bottom_row tty scr state rs cs cursor_x =
     (let prompt = json_c_string state ''prompt'';
          paint = \<lparr>painted = [27, 91] @ show_nat (nat rs) @ lit '';1H'', used = 0, limit = cs,
            cursor_at = (if prompt \<noteq> [] then cursor_x else - 1), cur_face = - 1, last_cursor = False\<rparr>;
          paint = (if prompt \<noteq> [] then paint_text tty scr (json_c_string state ''input'') 0 (paint_text tty scr prompt 0 paint)
            else paint_text tty scr (json_c_string state ''message'') 0 paint)
      in painted (paint_padding scr 0 paint))"

fun concat_rows :: "bytes option list \<Rightarrow> bytes option" where
  "concat_rows [] = Some []"
| "concat_rows (r # rs) = do { a \<leftarrow> r; b \<leftarrow> concat_rows rs; Some (a @ b) }"

definition screen_row :: "Tty \<Rightarrow> Screen \<Rightarrow> json \<Rightarrow> json list \<Rightarrow> int \<Rightarrow> int \<Rightarrow> int \<times> int \<Rightarrow> int \<Rightarrow> bytes option" where
  "screen_row tty scr state ps rs cs spot screenrow =
     (if screenrow = rs - 1 then Some (bottom_row tty scr state rs cs (snd spot))
      else concat_rows (map (pane_row tty scr rs cs (json_c_string state ''prompt'' \<noteq> []) spot screenrow) ps))"

text \<open>The rows from \<open>r\<close> on. A row is written only when \<open>strcmp\<close>, which stops at the first NUL, finds it
  different from the row written last.\<close>

definition row_same :: "bytes option \<Rightarrow> bytes \<Rightarrow> bool" where
  "row_same old line = (case old of None \<Rightarrow> False | Some s \<Rightarrow> c_string s = c_string line)"

fun draw_rows :: "(int \<Rightarrow> bytes option) \<Rightarrow> nat list \<Rightarrow> bytes option list \<Rightarrow> (bytes \<times> bytes option list) option" where
  "draw_rows row [] cache = Some ([], cache)"
| "draw_rows row (r # rs) cache = do {
     line \<leftarrow> row (int r);
     let same = row_same (cache ! r) line;
     (out, cache) \<leftarrow> draw_rows row rs (if same then cache else cache[r := Some line]);
     Some ((if same then [] else line) @ out, cache) }"

record Drawing =
  screen :: Screen
  row_cache :: "bytes option list" \<comment> \<open>200 rows\<close>
  old_rows :: int
  old_cols :: int

text \<open>The palette of the snapshot; a change of size clears the screen and forgets what it shows.\<close>

definition prepare :: "Tty \<Rightarrow> json \<Rightarrow> int \<Rightarrow> int \<Rightarrow> Drawing \<Rightarrow> Drawing \<times> bytes" where
  "prepare tty state rs cs d =
     (let scr = (screen d)\<lparr>terminal_palette := term_palette_update (float tty) (palette_colors tty state) (terminal_palette (screen d))\<rparr>;
          d = d\<lparr>screen := scr\<rparr>
      in if rs \<noteq> old_rows d \<or> cs \<noteq> old_cols d
         then (d\<lparr>row_cache := replicate 200 None, old_rows := rs, old_cols := cs\<rparr>,
           term_face_write (terminal_palette scr) (terminal_colors scr) 0 @ csi ''[2J'')
         else (d, []))"

definition place_cursor :: "bool \<Rightarrow> int \<times> int \<Rightarrow> bytes" where
  "place_cursor software spot = go_to (fst spot + 1) (snd spot + 1) @ (if software then [] else csi ''[?25h'')"

definition draw_state :: "Tty \<Rightarrow> json \<Rightarrow> Drawing \<Rightarrow> (Drawing \<times> bytes) option" where
  "draw_state tty state d =
     (let rs = int_field state ''rows'' 24; cs = int_field state ''cols'' 80 in
      if rs < 4 \<or> rs > 200 \<or> cs < 12 \<or> cs > 500 then Some (d, [])
      else
        let (d, clear) = prepare tty state rs cs d in
        case json_field state (lit ''panes'') of
          JArray ps \<Rightarrow>
            let spot = cursor_cell tty state ps rs cs in do {
              (out, cache) \<leftarrow> draw_rows (screen_row tty (screen d) state ps rs cs spot) [0..<nat rs] (row_cache d);
              Some (d\<lparr>row_cache := cache\<rparr>, clear @ csi ''[?25l'' @ out @ place_cursor (software_cursor (screen d)) spot) }
        | _ \<Rightarrow> Some (d, clear))"

subsection \<open>Reading keys\<close>

text \<open>What each call of \<open>get_byte\<close> finds: a byte, or \<open>None\<close> when none comes before its timeout.\<close>

type_synonym arrivals = "byte option list"

definition get_byte :: "arrivals \<Rightarrow> byte option \<times> arrivals" where
  "get_byte evs = (case evs of [] \<Rightarrow> (None, []) | ev # evs \<Rightarrow> (ev, evs))"

definition base_key :: "byte \<Rightarrow> bytes" where
  "base_key c =
     (if c = 0 then lit ''C-SPC'' else if c = 9 then lit ''TAB'' else if c = 13 then lit ''RET''
      else if c = 127 then lit ''DEL'' else if c > 0 \<and> c < 27 then lit ''C-'' @ [97 + c - 1]
      else if c = 31 then lit ''C-_'' else if c < 32 then lit ''C-'' @ [c + 64] else [c])"

text \<open>The bytes of an escape sequence up to its final byte, at most \<open>n\<close> of them.\<close>

fun read_sequence :: "nat \<Rightarrow> arrivals \<Rightarrow> bytes \<times> arrivals" where
  "read_sequence 0 evs = ([], evs)"
| "read_sequence (Suc n) evs =
     (case get_byte evs of
        (None, evs) \<Rightarrow> ([], evs)
      | (Some ch, evs) \<Rightarrow>
          if ch \<ge> 0x40 \<and> ch \<le> 0x7e then ([ch], evs)
          else let (seq, evs) = read_sequence n evs in (ch # seq, evs))"

definition paste_end :: bytes where
  "paste_end = [27] @ lit ''[201~''"

text \<open>Bytes up to the end marker, a pause, or the limit; the marker is dropped.\<close>

function read_paste :: "bytes \<Rightarrow> arrivals \<Rightarrow> bytes \<times> arrivals" where
  "read_paste paste evs =
     (if length paste \<ge> CP_MAX_FRAME - 1024 then (paste, evs)
      else case get_byte evs of
        (None, evs) \<Rightarrow> (paste, evs)
      | (Some b, evs) \<Rightarrow>
          let paste = paste @ [b] in
          if length paste \<ge> 6 \<and> drop (length paste - 6) paste = paste_end then (take (length paste - 6) paste, evs)
          else read_paste paste evs)"
  by pat_completeness auto
termination
  by (relation "measure (\<lambda>(paste, evs). length evs)") (auto simp: get_byte_def split: list.splits)

declare read_paste.simps [simp del]

definition sequence_key :: "bytes \<Rightarrow> bytes" where
  "sequence_key seq =
     (case map_of (map (\<lambda>(s, k). (lit s, lit k))
       [(''A'', ''<up>''), (''B'', ''<down>''), (''C'', ''<right>''), (''D'', ''<left>''),
        (''H'', ''<home>''), (''1~'', ''<home>''), (''7~'', ''<home>''), (''F'', ''<end>''), (''4~'', ''<end>''), (''8~'', ''<end>''),
        (''3~'', ''<delete>''), (''5~'', ''<prior>''), (''6~'', ''<next>''), (''1;5D'', ''M-b''), (''1;5C'', ''M-f''),
        (''P'', ''<f1>''), (''Q'', ''<f2>''), (''R'', ''<f3>''), (''S'', ''<f4>''),
        (''15~'', ''<f5>''), (''17~'', ''<f6>''), (''18~'', ''<f7>''), (''19~'', ''<f8>''), (''20~'', ''<f9>''), (''21~'', ''<f10>''),
        (''23~'', ''<f11>''), (''24~'', ''<f12>'')]) seq of
        Some k \<Rightarrow> k | None \<Rightarrow> lit ''<unknown>'')"

text \<open>The continuation bytes of a character, \<open>n\<close> at most.\<close>

fun read_tail :: "nat \<Rightarrow> arrivals \<Rightarrow> bytes \<times> arrivals" where
  "read_tail 0 evs = ([], evs)"
| "read_tail (Suc n) evs =
     (case get_byte evs of
        (None, evs) \<Rightarrow> ([], evs)
      | (Some b, evs) \<Rightarrow> let (s, evs) = read_tail n evs in (b # s, evs))"

definition key_request :: "bytes \<Rightarrow> json" where
  "key_request key = json_set_string (request_new (lit ''key'')) (lit ''key'') (Some (c_string key))"

definition paste_request :: "bytes \<Rightarrow> json" where
  "paste_request s = json_add (request_new (lit ''insert'')) (lit ''text'') (JString s)"

definition read_event :: "arrivals \<Rightarrow> json \<times> arrivals" where
  "read_event evs =
     (case get_byte evs of
        (None, evs) \<Rightarrow> (JNull, evs)
      | (Some c, evs) \<Rightarrow>
          if c = 27 then
            (case get_byte evs of
               (None, evs) \<Rightarrow> (key_request (lit ''ESC''), evs)
             | (Some nxt, evs) \<Rightarrow>
                 if nxt = 91 \<or> nxt = 79 then
                   let (seq, evs) = read_sequence 63 evs in
                   if nxt = 91 \<and> c_string seq = lit ''200~''
                   then let (s, evs) = read_paste [] evs in (paste_request s, evs)
                   else (key_request (sequence_key (c_string seq)), evs)
                 else (key_request (lit ''M-'' @ base_key nxt), evs))
          else if c \<ge> 0xc2 \<and> c \<le> 0xf4 then
            let (s, evs) = read_tail (if c < 0xe0 then 1 else if c < 0xf0 then 2 else 3) evs in (key_request (c # s), evs)
          else (key_request (base_key c), evs))"

subsection \<open>The loop\<close>

text \<open>One turn of \<open>tui_run\<close>: the stop flag, the size of the terminal, what \<open>poll\<close> reports and what the keyboard
  gives; the backend is a function from requests to replies, \<open>None\<close> when the connection is lost.\<close>

record Turn =
  stopping :: bool
  ws_row :: nat
  ws_col :: nat
  ready :: bool
  poll_error :: bool
  keyboard :: arrivals

definition turn_request :: "Turn \<Rightarrow> json" where
  "turn_request t =
     (let req = (if ready t then fst (read_event (keyboard t)) else JNull);
          req = (if req = JNull then request_new (lit ''snapshot'') else req);
          rs = (if ws_row t \<noteq> 0 then ws_row t else 24); cs = (if ws_col t \<noteq> 0 then ws_col t else 80)
      in json_set_int (json_set_int req (lit ''rows'') (int rs)) (lit ''cols'') (int cs))"

fun tui_loop :: "Tty \<Rightarrow> (json \<Rightarrow> 'b \<Rightarrow> (json \<times> 'b) option) \<Rightarrow> Turn list \<Rightarrow> Drawing \<Rightarrow> 'b \<Rightarrow> (int \<times> bytes \<times> 'b) option" where
  "tui_loop tty ask [] d b = None"
| "tui_loop tty ask (t # turns) d b =
     (if stopping t \<or> ready t \<and> poll_error t then Some (0, [], b)
      else case ask (turn_request t) b of
        None \<Rightarrow> Some (1, [], b)
      | Some (response, b) \<Rightarrow>
          let state = json_field response (lit ''state'') in
          if state = JNull then tui_loop tty ask turns d b
          else do {
            (d, out) \<leftarrow> draw_state tty state d;
            if jbool state (lit ''quit'') False \<or> jbool state (lit ''detach'') False then Some (0, out, b)
            else do {
              (result, more_out, b) \<leftarrow> tui_loop tty ask turns d b;
              Some (result, out @ more_out, b) } })"

text \<open>The checks and modes \<open>tui_run\<close> starts with: its exit status, or the screen.\<close>

definition tui_start :: "bytes option \<Rightarrow> bytes option \<Rightarrow> bytes option \<Rightarrow> bytes option \<Rightarrow> bool \<Rightarrow> TermPalette \<Rightarrow> int + Screen" where
  "tui_start color_policy cursor_policy term colorterm has_tty palette =
     (case term_colors_parse color_policy of
        None \<Rightarrow> Inl 2
      | Some requested \<Rightarrow>
          if cursor_policy \<notin> {None, Some (lit ''block''), Some (lit ''terminal'')} \<or> \<not> has_tty then Inl 2
          else Inr \<lparr>terminal_palette = palette, terminal_colors = term_colors_resolve requested term colorterm,
            software_cursor = (cursor_policy = None \<or> cursor_policy = Some (lit ''block''))\<rparr>)"

subsection \<open>Keys\<close>

lemma get_byte_Cons [simp]: "get_byte (ev # evs) = (ev, evs)"
  by (simp add: get_byte_def)

lemma read_tail_all: "read_tail (length s) (map Some s @ evs) = (s, evs)"
  by (induction s) simp_all

lemma c_string_valid: "utf8_valid s \<Longrightarrow> c_string s = s"
  using valid_no_nul [of s] unfolding c_string_def takeWhile_eq_all_conv by blast

lemma encode_lead:
  assumes "text_scalar c" "128 \<le> c"
  obtains b t where "utf8_encode c = b # t" "0xc2 \<le> b" "b \<le> 0xf4" "length t = (if b < 0xe0 then 1 else if b < 0xf0 then 2 else 3)"
proof -
  have c: "c < 0x110000" using assms by (simp add: text_scalar_def scalar_def)
  consider "c < 0x800" | "0x800 \<le> c" "c < 0x10000" | "0x10000 \<le> c" by linarith
  then show thesis
  proof cases
    case 1
    then have "2 \<le> c div 64" "c div 64 < 32" using assms(2) by auto
    then show thesis
      using 1 assms(2) that [of "byte_of (0xc0 + c div 64)" "[byte_of (0x80 + c mod 64)]"]
      by (simp add: utf8_encode_def word_le_nat_alt word_less_nat_alt)
  next
    case 2
    then have "c div 4096 < 16" by auto
    then show thesis
      using 2 that [of "byte_of (0xe0 + c div 4096)" "[byte_of (0x80 + c div 64 mod 64), byte_of (0x80 + c mod 64)]"]
      by (simp add: utf8_encode_def word_le_nat_alt word_less_nat_alt)
  next
    case 3
    then have "c div 262144 \<le> 4" using c by auto
    then show thesis
      using 3 that [of "byte_of (0xf0 + c div 262144)" "[byte_of (0x80 + c div 4096 mod 64), byte_of (0x80 + c div 64 mod 64), byte_of (0x80 + c mod 64)]"]
      by (simp add: utf8_encode_def word_le_nat_alt word_less_nat_alt)
  qed
qed

lemma encode_valid: "text_scalar c \<Longrightarrow> utf8_valid (utf8_encode c)"
  using decode_valid_step [of c "[]"] by simp

text \<open>C24 A typed character reaches the backend as the key of that name: the bytes of any character but a control
  are read as one \<open>key\<close> request holding exactly that character.\<close>

theorem typed_character_is_its_key:
  assumes "text_scalar c" "32 \<le> c" "c \<noteq> 127"
  shows "read_event (map Some (utf8_encode c) @ evs) = (key_request (utf8_encode c), evs) \<and>
    json_string (key_request (utf8_encode c)) (lit ''key'') None = Some (utf8_encode c)"
proof -
  have key: "json_string (key_request (utf8_encode c)) (lit ''key'') None = Some (utf8_encode c)"
    using c_string_valid [OF encode_valid [OF assms(1)]]
    by (simp add: key_request_def json_set_string_def request_new_def json_string_def)
  have "read_event (map Some (utf8_encode c) @ evs) = (key_request (utf8_encode c), evs)"
  proof (cases "128 \<le> c")
    case True
    obtain b t where e: "utf8_encode c = b # t" "0xc2 \<le> b" "b \<le> 0xf4" "length t = (if b < 0xe0 then 1 else if b < 0xf0 then 2 else 3)"
      using encode_lead [OF assms(1) True] .
    have "b \<noteq> 27" using e(2) by (auto simp: word_le_nat_alt)
    then show ?thesis
      using e read_tail_all [of t evs] by (simp add: read_event_def)
  next
    case False
    then have e: "utf8_encode c = [byte_of c]" by (simp add: utf8_encode_def)
    have u: "unat (byte_of c) = c" using False by simp
    have "byte_of c \<noteq> 27" "byte_of c \<noteq> 0" "byte_of c \<noteq> 9" "byte_of c \<noteq> 13" "byte_of c \<noteq> 127" "\<not> byte_of c < 27" "byte_of c \<noteq> 31"
      "\<not> byte_of c < 32" "\<not> 0xc2 \<le> byte_of c"
      using assms(2,3) False u by (auto simp: word_le_nat_alt word_less_nat_alt dest: arg_cong [of _ _ unat])
    then show ?thesis by (simp add: e read_event_def base_key_def)
  qed
  with key show ?thesis by blast
qed

theorem typed_character_is_its_key_witness:
  "read_event (map Some [0xE2, 0x82, 0xAC] @ [Some 13]) = (key_request [0xE2, 0x82, 0xAC], [Some 13])"
proof -
  have e: "utf8_encode 0x20AC = [0xE2, 0x82, 0xAC]" by (simp add: utf8_encode_def byte_of_def)
  have "text_scalar 0x20AC" by (simp add: text_scalar_def scalar_def)
  from typed_character_is_its_key [OF this] show ?thesis unfolding e by simp
qed

text \<open>With \<open>Meta\<close> only the first byte of a character beyond ASCII goes into the key, which is then no valid
  text; the rest of the character is read as further keys.\<close>

theorem meta_splits_character:
  assumes "text_scalar c" "128 \<le> c"
  shows "\<exists>b t. utf8_encode c = b # t \<and> t \<noteq> [] \<and> \<not> utf8_valid (lit ''M-'' @ [b]) \<and>
    read_event (Some 27 # map Some (utf8_encode c) @ evs) = (key_request (lit ''M-'' @ [b]), map Some t @ evs)"
proof -
  obtain b t where e: "utf8_encode c = b # t" "0xc2 \<le> b" "b \<le> 0xf4" "length t = (if b < 0xe0 then 1 else if b < 0xf0 then 2 else 3)"
    using encode_lead [OF assms] .
  have n: "b \<noteq> 91" "b \<noteq> 79" "b \<noteq> 0" "b \<noteq> 9" "b \<noteq> 13" "b \<noteq> 127" "\<not> b < 27" "b \<noteq> 31" "\<not> b < 32"
    using e(2) by (auto simp: word_le_nat_alt word_less_nat_alt)
  have "t \<noteq> []" using e(4) by (auto split: if_splits)
  have high: "128 \<le> b" using e(2) by (simp add: word_le_nat_alt)
  have "\<not> utf8_valid (lit ''M-'' @ [b])"
  proof
    assume v: "utf8_valid (lit ''M-'' @ [b])"
    have a: "text_scalar 77" "text_scalar 45" "lit ''M-'' @ [b] = utf8_encode 77 @ utf8_encode 45 @ [b]"
      by (simp_all add: text_scalar_def scalar_def lit_def byte_of_def utf8_encode_def)
    then have "utf8_valid [b]" using v decode_valid_step by metis
    then obtain x r where "[b] = utf8_encode x @ r" "text_scalar x" using valid_first_char by blast
    then have x: "text_scalar x" "utf8_encode x = [b]"
      using encode_nonempty [of x] by (cases "utf8_encode x"; simp)+
    have "x < 128" using arg_cong [OF x(2), of length] by (simp add: utf8_encode_def split: if_splits)
    with x(2) high show False by (auto simp: utf8_encode_def word_le_nat_alt)
  qed
  with e(1) n \<open>t \<noteq> []\<close> show ?thesis by (intro exI [of _ b] exI [of _ t]) (simp add: read_event_def base_key_def)
qed

lemma read_paste_ok:
  assumes "\<forall>i < length s. take 6 (drop i (s @ paste_end)) \<noteq> paste_end" "length s + 6 \<le> CP_MAX_FRAME - 1024"
    and "pre @ rest = s @ paste_end" "rest \<noteq> []"
  shows "read_paste pre (map Some rest @ evs) = (s, evs)"
  using assms(3,4)
proof (induction rest arbitrary: pre)
  case (Cons b rest)
  let ?pre = "pre @ [b]"
  have six: "length paste_end = 6" by (simp add: paste_end_def)
  have eq: "?pre @ rest = s @ paste_end" using Cons.prems(1) by simp
  have len: "length pre + 1 + length rest = length s + 6" using arg_cong [OF eq, of length] six by simp
  then have go: "\<not> CP_MAX_FRAME - 1024 \<le> length pre" using assms(2) by simp
  show ?case
  proof (cases "length ?pre \<ge> 6 \<and> drop (length ?pre - 6) ?pre = paste_end")
    case True
    let ?i = "length ?pre - 6"
    have "take 6 (drop ?i (s @ paste_end)) = take 6 (drop ?i ?pre @ rest)"
      unfolding eq [symmetric] using True by (simp only: drop_append) simp
    also have "\<dots> = paste_end" using True six by simp
    finally have "length s \<le> ?i" using assms(1) by (meson not_le)
    then have "length rest = 0 \<and> ?i = length s" using len conjunct1 [OF True] unfolding length_append list.size by linarith
    then have "rest = []" "?i = length s" by simp_all
    then have "?pre = s @ paste_end" using eq by simp
    then have "take ?i ?pre = s" using \<open>?i = length s\<close> by simp
    then show ?thesis using True go \<open>rest = []\<close> by (subst read_paste.simps) simp
  next
    case False
    have "rest \<noteq> []"
    proof
      assume "rest = []"
      then have "?pre = s @ paste_end" "length ?pre - 6 = length s" using eq six by simp_all
      then show False using False six by simp
    qed
    then have "read_paste ?pre (map Some rest @ evs) = (s, evs)" using Cons.IH eq by blast
    then show ?thesis using False go by (subst read_paste.simps) auto
  qed
qed simp

text \<open>C25 A bracketed paste becomes one \<open>insert\<close> request holding exactly the pasted bytes, whatever they are, when
  they do not hold the end marker and are short enough for one request.\<close>

theorem paste_is_inserted:
  assumes "\<forall>i < length s. take 6 (drop i (s @ paste_end)) \<noteq> paste_end" "length s + 6 \<le> CP_MAX_FRAME - 1024"
  shows "read_event (map Some ([27] @ lit ''[200~'' @ s @ paste_end) @ evs) = (paste_request s, evs) \<and>
    json_field (paste_request s) (lit ''text'') = JString s"
proof -
  have start: "[27] @ lit ''[200~'' = [27, 91, 50, 48, 48, 126]" "lit ''200~'' = [50, 48, 48, 126]"
    by (simp_all add: lit_def byte_of_def)
  have seq: "read_sequence 63 (map Some [50, 48, 48, 126] @ x) = ([50, 48, 48, 126], x)" for x
    using read_sequence.simps(2) [of 62] read_sequence.simps(2) [of 61] read_sequence.simps(2) [of 60] read_sequence.simps(2) [of 59] by (simp add: word_le_nat_alt)
  have "paste_end \<noteq> []" by (simp add: paste_end_def)
  then have p: "read_paste [] (map Some (s @ paste_end) @ evs) = (s, evs)"
    by (intro read_paste_ok [OF assms]) simp_all
  have "map Some ([27] @ lit ''[200~'' @ s @ paste_end) @ evs =
      Some 27 # Some 91 # map Some [50, 48, 48, 126] @ (map Some (s @ paste_end) @ evs)"
    using start(1) by simp
  moreover have "c_string [50, 48, 48, 126] = [50, 48, 48, 126]" by (simp add: c_string_def)
  ultimately show ?thesis
    using p seq start(2) by (simp add: read_event_def paste_request_def request_new_def json_set_string_def)
qed

theorem paste_is_inserted_witness:
  "read_event (map Some ([27] @ lit ''[200~'' @ [97, 13, 27, 98] @ paste_end) @ []) = (paste_request [97, 13, 27, 98], [])"
proof -
  have "\<forall>i \<in> set [0..<4]. take 6 (drop i ([97, 13, 27, 98] @ paste_end)) \<noteq> paste_end" by code_simp
  then have "\<forall>i < length [97, 13, 27, 98]. take 6 (drop i ([97, 13, 27, 98] @ paste_end)) \<noteq> paste_end"
    by (simp del: upt_rec_numeral)
  from paste_is_inserted [OF this, of "[]"] show ?thesis by (simp add: CP_MAX_FRAME_def)
qed

subsection \<open>Columns\<close>

lemma paint_face_simps [simp]: "used (paint_face scr i p) = used p" "limit (paint_face scr i p) = limit p"
  "cursor_at (paint_face scr i p) = cursor_at p"
  by (simp_all add: paint_face_def)

lemma painted_width_pos: "0 \<le> painted_width tty wc"
  by (simp add: painted_width_def)

lemma paint_face_painted: "\<exists>b. painted (paint_face scr i p) = painted p @ b"
  by (simp add: paint_face_def)

lemma paint_text_extends: "\<exists>b. painted (paint_text tty scr s i p) = painted p @ b"
proof (induction tty scr s i p rule: paint_text.induct)
  case (1 tty scr s i p)
  obtain wc n invalid where c: "next_char tty s = (wc, n, invalid)" by (cases "next_char tty s")
  show ?case
  proof (cases "s = [] \<or> used p \<ge> limit p \<or> used p + painted_width tty wc > limit p")
    case True
    then show ?thesis by (subst paint_text.simps) (auto simp: c Let_def)
  next
    case False
    define on where "on = (if painted_width tty wc = 0 then last_cursor p else software_cursor scr \<and> cursor_at p \<ge> used p \<and>
      cursor_at p < used p + painted_width tty wc)"
    define p1 where "p1 = paint_face scr (if on then int TERM_CURSOR_FACE else i) p"
    define p2 where "p2 = p1\<lparr>painted := painted p1 @ shown_char tty s wc n invalid, used := used p1 + painted_width tty wc, last_cursor := on\<rparr>"
    have "paint_text tty scr s i p = paint_text tty scr (drop n s) i p2"
      using False by (subst paint_text.simps) (simp add: c Let_def on_def p1_def p2_def)
    moreover have "\<exists>b. painted (paint_text tty scr (drop n s) i p2) = painted p2 @ b"
      using 1 [OF _ refl c [symmetric] refl refl _ refl refl refl] False by (simp add: on_def p1_def p2_def)
    moreover have "\<exists>b. painted p2 = painted p @ b" by (simp add: p2_def p1_def paint_face_def)
    ultimately show ?thesis by auto
  qed
qed

lemma paint_text_columns:
  "used (paint_text tty scr s i p) = text_columns tty s (limit p) (used p) \<and> limit (paint_text tty scr s i p) = limit p"
proof (induction tty scr s i p rule: paint_text.induct)
  case (1 tty scr s i p)
  obtain wc n invalid where c: "next_char tty s = (wc, n, invalid)" by (cases "next_char tty s")
  show ?case
  proof (cases "s = [] \<or> used p \<ge> limit p \<or> used p + painted_width tty wc > limit p")
    case True
    then show ?thesis by (subst (1 2) paint_text.simps, subst text_columns.simps) (auto simp: c Let_def)
  next
    case False
    then show ?thesis
      using 1 [OF _ refl c [symmetric] refl refl _ refl refl refl]
      by (subst (1 2) paint_text.simps, subst text_columns.simps) (simp add: c Let_def)
  qed
qed

lemma text_columns_ge: "so_far \<le> text_columns tty s most so_far"
proof (induction tty s most so_far rule: text_columns.induct)
  case (1 tty s most so_far)
  obtain wc n invalid where c: "next_char tty s = (wc, n, invalid)" by (cases "next_char tty s")
  show ?case
  proof (cases "s = [] \<or> so_far \<ge> most \<or> so_far + painted_width tty wc > most")
    case True
    then show ?thesis by (subst text_columns.simps) (auto simp: c Let_def)
  next
    case False
    then have "so_far + painted_width tty wc \<le> text_columns tty (drop n s) most (so_far + painted_width tty wc)"
      using 1 [OF _ refl c [symmetric] refl refl] by simp
    then show ?thesis
      using False painted_width_pos [of tty wc] by (subst text_columns.simps) (simp add: c Let_def)
  qed
qed

lemma text_columns_le: "so_far \<le> most \<Longrightarrow> text_columns tty s most so_far \<le> most"
proof (induction tty s most so_far rule: text_columns.induct)
  case (1 tty s most so_far)
  obtain wc n invalid where c: "next_char tty s = (wc, n, invalid)" by (cases "next_char tty s")
  show ?case
    using 1(1) [OF _ refl c [symmetric] refl refl] 1(2) by (subst text_columns.simps) (auto simp: c Let_def)
qed

lemma text_columns_shift:
  assumes "k + text_columns tty s most c \<le> most" "0 \<le> k"
  shows "text_columns tty s most (k + c) = k + text_columns tty s most c"
  using assms
proof (induction tty s most c rule: text_columns.induct)
  case (1 tty s most c)
  obtain wc n invalid where ch: "next_char tty s = (wc, n, invalid)" by (cases "next_char tty s")
  let ?w = "painted_width tty wc"
  show ?case
  proof (cases "s = [] \<or> c \<ge> most \<or> c + ?w > most")
    case True
    then have r: "text_columns tty s most c = c" by (subst text_columns.simps) (auto simp: ch Let_def)
    have "text_columns tty s most (k + c) = k + c"
      using True 1(3) by (subst text_columns.simps) (auto simp: ch Let_def)
    with r show ?thesis by simp
  next
    case False
    then have r: "text_columns tty s most c = text_columns tty (drop n s) most (c + ?w)"
      by (subst text_columns.simps) (simp add: ch Let_def)
    have ge: "c + ?w \<le> text_columns tty (drop n s) most (c + ?w)" by (rule text_columns_ge)
    have ih: "text_columns tty (drop n s) most (k + (c + ?w)) = k + text_columns tty (drop n s) most (c + ?w)"
      using 1(1) [OF _ refl ch [symmetric] refl refl] 1(2,3) False r by simp
    show ?thesis
    proof (cases "k + c < most")
      case True
      then show ?thesis
        using False ih r 1(2) ge by (subst text_columns.simps) (simp add: ch Let_def add.assoc)
    next
      case full: False
      then have "text_columns tty (drop n s) most (c + ?w) = c" using ge r 1(2) painted_width_pos [of tty wc] by simp
      then show ?thesis using full r by (subst text_columns.simps) simp
    qed
  qed
qed

lemma paint_padding_fills: "used p \<le> limit p \<Longrightarrow> used (paint_padding scr i p) = limit p \<and> limit (paint_padding scr i p) = limit p"
proof (induction scr i p rule: paint_padding.induct)
  case (1 scr i p)
  then show ?case by (subst (1 2) paint_padding.simps) (auto simp: Let_def)
qed

text \<open>While a prompt is shown and its text up to the input point fits the screen, the column of the cursor is the
  one the front end has painted up to when it comes to the character at the input point.\<close>

theorem prompt_cursor_at_point:
  assumes prompt: "json_c_string state ''prompt'' \<noteq> []" "json_int state (lit ''input_point'') 0 = int n" "n \<le> length (json_c_string state ''input'')"
    and fits: "text_columns tty (json_c_string state ''prompt'') cs 0 + text_columns tty (take n (json_c_string state ''input'')) cs 0 < cs"
    and start: "used paint = 0" "limit paint = cs"
  shows "cursor_cell tty state ps rs cs =
    (max 0 (rs - 1), used (paint_text tty scr (take n (json_c_string state ''input'')) 0 (paint_text tty scr (json_c_string state ''prompt'') 0 paint)))"
proof -
  let ?k = "text_columns tty (json_c_string state ''prompt'') cs 0" and ?s = "take n (json_c_string state ''input'')"
  have k: "0 \<le> ?k" "0 \<le> text_columns tty ?s cs 0" by (rule text_columns_ge)+
  have "used (paint_text tty scr ?s 0 (paint_text tty scr (json_c_string state ''prompt'') 0 paint)) = text_columns tty ?s cs (?k + 0)"
    using paint_text_columns start by simp
  also have "\<dots> = ?k + text_columns tty ?s cs 0" using fits k by (intro text_columns_shift) simp_all
  finally show ?thesis
    using assms k by (simp add: cursor_cell_def Let_def case_prod_beta)
qed

subsection \<open>Refreshing the screen\<close>

lemma draw_rows_ok:
  assumes "draw_rows row rs cache = Some (out, cache')" "distinct rs" "\<forall>r \<in> set rs. r < length cache"
  shows "\<exists>line. (\<forall>r \<in> set rs. row (int r) = Some (line r)) \<and> length cache' = length cache \<and>
    (\<forall>k < length cache. cache' ! k = (if k \<in> set rs \<and> \<not> row_same (cache ! k) (line k) then Some (line k) else cache ! k)) \<and>
    out = concat (map (\<lambda>r. if row_same (cache ! r) (line r) then [] else line r) rs)"
  using assms
proof (induction rs arbitrary: cache out)
  case (Cons r rs)
  obtain l where l: "row (int r) = Some l" using Cons.prems(1) by (cases "row (int r)") simp_all
  let ?cache = "if row_same (cache ! r) l then cache else cache[r := Some l]"
  obtain out2 c2 where "draw_rows row rs ?cache = Some (out2, c2)"
    using Cons.prems(1) l by (cases "draw_rows row rs ?cache") auto
  then have rest: "draw_rows row rs ?cache = Some (out2, cache')" "out = (if row_same (cache ! r) l then [] else l) @ out2"
    using Cons.prems(1) l by simp_all
  have len: "length ?cache = length cache" and at: "?cache ! k = (if k = r \<and> \<not> row_same (cache ! r) l then Some l else cache ! k)"
    if "k < length cache" for k using that by (auto simp: nth_list_update)
  have "\<forall>x \<in> set rs. x < length ?cache" using Cons.prems(3) by simp
  then obtain line where line: "\<forall>x \<in> set rs. row (int x) = Some (line x)" "length cache' = length ?cache"
    "\<forall>k < length ?cache. cache' ! k = (if k \<in> set rs \<and> \<not> row_same (?cache ! k) (line k) then Some (line k) else ?cache ! k)"
    "out2 = concat (map (\<lambda>x. if row_same (?cache ! x) (line x) then [] else line x) rs)"
    using Cons.IH [OF rest(1)] Cons.prems(2) by auto
  have r: "r \<notin> set rs" "r < length cache" using Cons.prems(2,3) by simp_all
  have old: "?cache ! x = cache ! x" if "x \<in> set rs" for x using that r(1) by (cases "x = r") simp_all
  let ?line = "line(r := l)"
  have "out2 = concat (map (\<lambda>x. if row_same (cache ! x) (?line x) then [] else ?line x) rs)"
    unfolding line(4) using old r(1) by (intro arg_cong [of _ _ concat] map_cong) auto
  then have "out = concat (map (\<lambda>x. if row_same (cache ! x) (?line x) then [] else ?line x) (r # rs))"
    using rest(2) by simp
  moreover have "cache' ! k = (if k \<in> set (r # rs) \<and> \<not> row_same (cache ! k) (?line k) then Some (?line k) else cache ! k)"
    if "k < length cache" for k
    using line(3) that r old by (cases "k = r") auto
  moreover have "\<forall>x \<in> set (r # rs). row (int x) = Some (?line x)" using line(1) l r(1) by auto
  ultimately show ?case using line(2) by (intro exI [of _ ?line]) simp
qed auto

lemma row_same_refl [simp]: "row_same (Some s) s"
  by (simp add: row_same_def)

lemma draw_rows_again:
  assumes "\<forall>r \<in> set rs. \<exists>line. row (int r) = Some line \<and> row_same (cache ! r) line"
  shows "draw_rows row rs cache = Some ([], cache)"
  using assms by (induction rs) auto

lemma palette_update_again [simp]:
  "term_palette_update fp src (term_palette_update fp src pal) = term_palette_update fp src pal"
  by (simp add: term_palette_update_def Let_def)

lemma prepare_ok:
  assumes "length (row_cache d) = 200"
  shows "length (row_cache (fst (prepare tty state rs cs d))) = 200" "old_rows (fst (prepare tty state rs cs d)) = rs"
    "old_cols (fst (prepare tty state rs cs d)) = cs"
    "terminal_palette (screen (fst (prepare tty state rs cs d))) =
      term_palette_update (float tty) (palette_colors tty state) (terminal_palette (screen d))"
  using assms by (simp_all add: prepare_def Let_def)

lemma prepare_same:
  assumes "old_rows d = rs" "old_cols d = cs"
    "term_palette_update (float tty) (palette_colors tty state) (terminal_palette (screen d)) = terminal_palette (screen d)"
  shows "prepare tty state rs cs d = (d, [])"
  using assms by (simp add: prepare_def Let_def)


subsection \<open>What a terminal shows\<close>

text \<open>
  A reference terminal: the number of cells the bytes of a row advance by. \<open>ESC [\<close> starts a
  sequence that ends with its first byte from \<open>@\<close> to \<open>~\<close> and advances by nothing.
\<close>

fun skip_csi :: "bytes \<Rightarrow> bytes" where
  "skip_csi [] = []"
| "skip_csi (c # s) = (if 0x40 \<le> c \<and> c \<le> 0x7e then s else skip_csi s)"

lemma skip_csi_shorter: "length (skip_csi s) \<le> length s"
  by (induction s) (auto simp: le_SucI)

function cells_shown :: "Tty \<Rightarrow> bytes \<Rightarrow> int" where
  "cells_shown tty s =
     (if s = [] then 0
      else if take 2 s = [27, 91] then cells_shown tty (skip_csi (drop 2 s))
      else let (wc, n, invalid) = next_char tty s in max 0 (wc_width tty wc) + cells_shown tty (drop n s))"
  by pat_completeness auto
termination
proof (relation "measure (\<lambda>(tty, s). length s)", goal_cases)
  case (2 tty s)
  then show ?case using skip_csi_shorter [of "drop 2 s"] by (simp add: diff_less_mono2 le_less_trans)
qed (auto simp: next_char_def split: option.splits if_splits)

declare cells_shown.simps [simp del]

definition shows_cells :: "Tty \<Rightarrow> bytes \<Rightarrow> int \<Rightarrow> bool" where
  "shows_cells tty a k \<longleftrightarrow> (\<forall>b. cells_shown tty (a @ b) = k + cells_shown tty b)"

lemma shows_Nil: "shows_cells tty [] 0"
  by (simp add: shows_cells_def)

lemma shows_append: "shows_cells tty a j \<Longrightarrow> shows_cells tty b k \<Longrightarrow> shows_cells tty (a @ b) (j + k)"
  by (simp add: shows_cells_def)

lemma shows_csi:
  assumes "\<forall>c \<in> set a. c < 0x40" "0x40 \<le> c" "c \<le> 0x7e"
  shows "shows_cells tty ([27, 91] @ a @ [c]) 0"
proof -
  have "skip_csi (a @ c # b) = b" for b using assms by (induction a) auto
  then show ?thesis unfolding shows_cells_def by (subst (1) cells_shown.simps) simp
qed

lemma show_nat_digits: "\<forall>c \<in> set (show_nat n). 48 \<le> c \<and> c < 0x40"
proof (induction n rule: show_nat.induct)
  case (1 n)
  have d: "48 \<le> byte_of (48 + k) \<and> byte_of (48 + k) < 0x40" if "k < 10" for k
    using that by (simp add: word_le_nat_alt word_less_nat_alt)
  show ?case
  proof (cases "n < 10")
    case True
    then show ?thesis using d [of n] by (simp add: show_nat.simps [of n])
  next
    case False
    then show ?thesis using 1 d [of "n mod 10"] by (auto simp: show_nat.simps [of n])
  qed
qed

lemma shows_go_to: "shows_cells tty (go_to r c) 0"
proof -
  have "go_to r c = [27, 91] @ (show_nat (nat r) @ [59] @ show_nat (nat c)) @ [72]" by (simp add: go_to_def lit_def byte_of_def)
  then show ?thesis using shows_csi [of "show_nat (nat r) @ [59] @ show_nat (nat c)" 72 tty] show_nat_digits by auto
qed

lemma shows_face: "shows_cells tty (term_face_write pal mode i) 0"
proof -
  have low: "\<forall>c \<in> set (show_nat n). c < 0x40" for n using show_nat_digits by blast
  have reset: "shows_cells tty (if b then csi ''[0;7m'' else csi ''[0m'') 0" for b
    using shows_csi [of "[48, 59, 55]" 109 tty] shows_csi [of "[48]" 109 tty] by (simp add: csi_def lit_def byte_of_def)
  have rgb: "shows_cells tty (csi ''[38;2;'' @ show_nat r @ lit '';'' @ show_nat g @ lit '';'' @ show_nat b @ lit ''m'') 0"
    "shows_cells tty (csi ''[48;2;'' @ show_nat r @ lit '';'' @ show_nat g @ lit '';'' @ show_nat b @ lit ''m'') 0"
    "shows_cells tty (csi ''[38;5;'' @ show_nat r @ lit ''m'') 0" "shows_cells tty (csi ''[48;5;'' @ show_nat r @ lit ''m'') 0" for r g b
    using shows_csi [of "[51, 56, 59, 50, 59] @ show_nat r @ [59] @ show_nat g @ [59] @ show_nat b" 109 tty]
      shows_csi [of "[52, 56, 59, 50, 59] @ show_nat r @ [59] @ show_nat g @ [59] @ show_nat b" 109 tty]
      shows_csi [of "[51, 56, 59, 53, 59] @ show_nat r" 109 tty] shows_csi [of "[52, 56, 59, 53, 59] @ show_nat r" 109 tty]
      low [of r] low [of g] low [of b] by (simp_all add: csi_def lit_def byte_of_def ball_Un)
  show ?thesis
    using shows_append [OF reset shows_append [OF rgb(1,2)]] shows_append [OF reset shows_append [OF rgb(3,4)]] reset
    by (simp add: term_face_write_def Let_def case_prod_beta)
qed

text \<open>What the program relies on: decoding depends on the character's bytes alone, printable ASCII characters are
  one cell wide, and the escape character is a control character.\<close>

definition tty_ok :: "Tty \<Rightarrow> bool" where
  "tty_ok tty \<longleftrightarrow>
     (\<forall>s wc n. decode tty s = Some (wc, n) \<longrightarrow> n \<noteq> 0 \<longrightarrow> n \<le> length s \<and> (\<forall>b. decode tty (take n s @ b) = Some (wc, n))) \<and>
     (\<forall>c s. 32 \<le> c \<longrightarrow> c < 127 \<longrightarrow> decode tty (c # s) = Some (ucast c, 1) \<and> wc_width tty (ucast c) = 1) \<and>
     (\<forall>s. decode tty (27 # s) = Some (27, 1)) \<and> wc_width tty 27 < 0"

lemma tty_local: "tty_ok tty \<Longrightarrow> decode tty s = Some (wc, n) \<Longrightarrow> n \<noteq> 0 \<Longrightarrow> n \<le> length s \<and> decode tty (take n s @ b) = Some (wc, n)"
  unfolding tty_ok_def by blast

lemma tty_ascii: "tty_ok tty \<Longrightarrow> 32 \<le> c \<Longrightarrow> c < 127 \<Longrightarrow> decode tty (c # s) = Some (ucast c, 1) \<and> wc_width tty (ucast c) = 1"
  unfolding tty_ok_def by blast

lemma tty_escape: "tty_ok tty \<Longrightarrow> decode tty (27 # s) = Some (27, 1) \<and> wc_width tty 27 < 0"
  unfolding tty_ok_def by blast

text \<open>No character of the text that has no width is turned into a control character.\<close>

definition no_hidden_control :: "Tty \<Rightarrow> bytes \<Rightarrow> bool" where
  "no_hidden_control tty s \<longleftrightarrow> (\<forall>i wc n. decode tty (drop i s) = Some (wc, n) \<longrightarrow> n \<noteq> 0 \<longrightarrow> wc_width tty wc < 0 \<longrightarrow> wc \<noteq> 127 \<longrightarrow>
     32 \<le> unat (wc + 64) mod 128 \<and> unat (wc + 64) mod 128 < 127)"

lemma no_hidden_drop: "no_hidden_control tty s \<Longrightarrow> no_hidden_control tty (drop k s)"
  by (simp add: no_hidden_control_def)

lemma no_hidden_take:
  assumes "tty_ok tty" "no_hidden_control tty s" shows "no_hidden_control tty (take m s)"
  unfolding no_hidden_control_def
proof (intro allI impI)
  fix i wc n assume d: "decode tty (drop i (take m s)) = Some (wc, n)" "n \<noteq> 0" "wc_width tty wc < 0" "wc \<noteq> 127"
  let ?t = "drop i (take m s)"
  have "\<forall>b. decode tty (take n ?t @ b) = Some (wc, n)" and le: "n \<le> length ?t"
    using tty_local [OF assms(1) d(1,2)] by blast+
  moreover have "drop i s = take n ?t @ drop n (drop i s)"
  proof -
    have "take n ?t = take n (drop i s)" using le by (simp add: drop_take min_absorb1)
    then show ?thesis by (simp only: append_take_drop_id)
  qed
  ultimately have "decode tty (drop i s) = Some (wc, n)" by metis
  then show "32 \<le> unat (wc + 64) mod 128 \<and> unat (wc + 64) mod 128 < 127"
    using assms(2) d(2-4) by (auto simp: no_hidden_control_def)
qed

lemma shows_ascii: "tty_ok tty \<Longrightarrow> 32 \<le> c \<Longrightarrow> c < 127 \<Longrightarrow> shows_cells tty [c] 1"
proof -
  assume t: "tty_ok tty" "32 \<le> c" "c < 127"
  then have "next_char tty (c # b) = (ucast c, 1, False)" "wc_width tty (ucast c) = 1" for b
    using tty_ascii [OF t] by (simp_all add: next_char_def)
  moreover have "c \<noteq> 27" using t(2) by (auto simp: word_le_nat_alt)
  ultimately show ?thesis unfolding shows_cells_def by (subst (1) cells_shown.simps) simp
qed

lemma shows_char:
  assumes t: "tty_ok tty" and s: "no_hidden_control tty s" and c: "next_char tty s = (wc, n, invalid)" and ne: "s \<noteq> []"
  shows "shows_cells tty (shown_char tty s wc n invalid) (painted_width tty wc)"
proof -
  have q: "wc_width tty 63 = 1" "shows_cells tty [63] 1" "shows_cells tty [94] 1"
  proof -
    show "wc_width tty 63 = 1" using tty_ascii [OF t, of 63] by simp
  qed (use shows_ascii [OF t] in simp_all)
  show ?thesis
  proof (cases "invalid")
    case True
    then have "wc = 63" using c by (auto simp: next_char_def split: option.splits if_splits)
    then show ?thesis using True q by (simp add: shown_char_def painted_width_def lit_def byte_of_def)
  next
    case False
    then have d: "decode tty s = Some (wc, n)" "n \<noteq> 0" using c by (auto simp: next_char_def split: option.splits if_splits)
    show ?thesis
    proof (cases "wc_width tty wc < 0")
      case True
      let ?x = "if wc = 127 then 63 else byte_of (unat (wc + 64) mod 128)"
      have "shows_cells tty [?x] 1"
      proof (cases "wc = 127")
        case False
        then have "32 \<le> unat (wc + 64) mod 128 \<and> unat (wc + 64) mod 128 < 127"
          using s [unfolded no_hidden_control_def, rule_format, of 0 wc n] d True by simp
        then show ?thesis using False by (intro shows_ascii [OF t]) (simp_all add: word_le_nat_alt word_less_nat_alt)
      qed (use q in simp)
      from shows_append [OF q(3) this] show ?thesis
        using True False by (simp add: shown_char_def painted_width_def)
    next
      case wide: False
      have n: "n \<le> length s" "\<And>b. decode tty (take n s @ b) = Some (wc, n)" using tty_local [OF t d] by blast+
      have "hd s \<noteq> 27"
      proof
        assume "hd s = 27"
        then have "s = 27 # tl s" using ne by (cases s) simp_all
        then have "decode tty s = Some (27, 1)" using tty_escape [OF t, of "tl s"] by metis
        then show False using d(1) wide tty_escape [OF t] by simp
      qed
      moreover obtain x u m where xu: "s = x # u" "n = Suc m" using ne d(2) by (cases s; cases n) simp_all
      ultimately have "take 2 (take n s @ b) \<noteq> [27, 91]" for b by (simp add: numeral_2_eq_2)
      moreover have "next_char tty (take n s @ b) = (wc, n, False)" for b using n(2) d(2) by (simp add: next_char_def)
      moreover have "take n s @ b \<noteq> []" for b using d(2) ne by simp
      ultimately have "cells_shown tty (take n s @ b) = max 0 (wc_width tty wc) + cells_shown tty b" for b
        using n(1) d(2) ne by (subst cells_shown.simps) simp
      then show ?thesis using False wide by (simp add: shown_char_def painted_width_def shows_cells_def)
    qed
  qed
qed

text \<open>What painting adds to a row, and the cells it takes.\<close>

definition paints :: "Tty \<Rightarrow> Paint \<Rightarrow> Paint \<Rightarrow> bool" where
  "paints tty p q \<longleftrightarrow> limit q = limit p \<and> (used p \<le> limit p \<longrightarrow> used q \<le> limit p) \<and>
     (\<exists>a. painted q = painted p @ a \<and> shows_cells tty a (used q - used p))"

lemma paints_refl: "paints tty p p"
  using shows_Nil [of tty] by (auto simp: paints_def)

lemma paints_trans: "paints tty p q \<Longrightarrow> paints tty q r \<Longrightarrow> paints tty p r"
  unfolding paints_def using shows_append [of tty _ "used q - used p" _ "used r - used q"] by fastforce

lemma paints_face: "paints tty p (paint_face scr i p)"
  using shows_face [of tty] shows_Nil [of tty] by (auto simp: paints_def paint_face_def)

lemma paints_step:
  assumes "shows_cells tty a k" "used p + k \<le> limit p"
  shows "paints tty p (p\<lparr>painted := painted p @ a, used := used p + k, last_cursor := b\<rparr>)"
  using assms by (auto simp: paints_def)

lemma paints_text:
  assumes t: "tty_ok tty"
  shows "no_hidden_control tty s \<Longrightarrow> paints tty p (paint_text tty scr s i p)"
proof (induction s arbitrary: p rule: measure_induct_rule [where f = length])
  case (less s)
  obtain wc n invalid where c: "next_char tty s = (wc, n, invalid)" by (cases "next_char tty s")
  let ?w = "painted_width tty wc"
  show ?case
  proof (cases "s = [] \<or> used p \<ge> limit p \<or> used p + ?w > limit p")
    case True
    then have "paint_text tty scr s i p = p" by (subst paint_text.simps) (auto simp: c Let_def)
    then show ?thesis by (simp add: paints_refl)
  next
    case False
    define on where "on = (if ?w = 0 then last_cursor p else software_cursor scr \<and> cursor_at p \<ge> used p \<and> cursor_at p < used p + ?w)"
    define p1 where "p1 = paint_face scr (if on then int TERM_CURSOR_FACE else i) p"
    define p2 where "p2 = p1\<lparr>painted := painted p1 @ shown_char tty s wc n invalid, used := used p1 + ?w, last_cursor := on\<rparr>"
    have "paint_text tty scr s i p = paint_text tty scr (drop n s) i p2"
      using False by (subst paint_text.simps) (simp add: c Let_def on_def p1_def p2_def)
    moreover have "paints tty p1 p2"
      unfolding p2_def using shows_char [OF t less.prems c] False by (intro paints_step) (simp_all add: p1_def)
    moreover have "n \<noteq> 0" using c by (auto simp: next_char_def split: option.splits if_splits)
    then have "paints tty p2 (paint_text tty scr (drop n s) i p2)"
      using less.IH [of "drop n s"] False no_hidden_drop [OF less.prems] by simp
    ultimately show ?thesis using paints_trans paints_face unfolding p1_def by metis
  qed
qed

lemma paints_padding:
  assumes t: "tty_ok tty" shows "paints tty p (paint_padding scr i p)"
proof (induction scr i p rule: paint_padding.induct)
  case (1 scr i p)
  show ?case
  proof (cases "used p \<ge> limit p")
    case True
    then show ?thesis by (subst paint_padding.simps) (simp add: paints_refl)
  next
    case False
    define p1 where "p1 = paint_face scr (if software_cursor scr \<and> used p = cursor_at p then int TERM_CURSOR_FACE else i) p"
    define p2 where "p2 = p1\<lparr>painted := painted p1 @ lit '' '', used := used p1 + 1, last_cursor := False\<rparr>"
    have "paint_padding scr i p = paint_padding scr i p2"
      using False by (subst paint_padding.simps) (simp add: Let_def p1_def p2_def)
    moreover have "paints tty p1 p2"
      unfolding p2_def using shows_ascii [OF t, of 32] False by (intro paints_step) (simp_all add: p1_def lit_def byte_of_def)
    moreover have "paints tty p2 (paint_padding scr i p2)" using 1 False by (simp add: p1_def p2_def Let_def)
    ultimately show ?thesis using paints_trans paints_face unfolding p1_def by metis
  qed
qed

lemma paints_spans:
  assumes t: "tty_ok tty" and s: "no_hidden_control tty s"
  shows "paint_spans tty scr s sps k p = Some (k', p') \<Longrightarrow> paints tty p p'"
proof (induction sps arbitrary: k p)
  case (Cons sp sps)
  have seg: "no_hidden_control tty (seg a n s)" for a n
    unfolding seg_def by (rule no_hidden_take [OF t no_hidden_drop [OF s]])
  have two: "paints tty p (paint_text tty scr (seg a n s) st (paint_text tty scr (seg b m s) st' p))" for a n b m st st'
    using paints_trans [OF paints_text [OF t seg] paints_text [OF t seg]] .
  from Cons.prems show ?case
    by (auto simp: Let_def split: bind_splits if_splits dest!: Cons.IH intro: paints_trans [OF two])
qed (simp add: paints_refl)

lemma paints_full:
  assumes "used p \<ge> limit p" shows "paint_text tty scr s i p = p" "paint_padding scr i p = p"
  using assms by (subst paint_text.simps paint_padding.simps; simp)+

lemma no_hidden_ascii:
  assumes t: "tty_ok tty" and s: "\<forall>c \<in> set s. 32 \<le> c \<and> c < 127" shows "no_hidden_control tty s"
  unfolding no_hidden_control_def
proof (intro allI impI)
  fix i wc n assume d: "decode tty (drop i s) = Some (wc, n)" "n \<noteq> 0" "wc_width tty wc < 0"
  have "n \<le> length (drop i s)" using tty_local [OF t d(1,2)] by blast
  then obtain c u where cu: "drop i s = c # u" using d(2) by (cases "drop i s") simp_all
  then have "c \<in> set s" by (metis in_set_dropD list.set_intros(1))
  then have "decode tty (c # u) = Some (ucast c, 1) \<and> wc_width tty (ucast c) = 1" using tty_ascii [OF t] s by blast
  then show "32 \<le> unat (wc + 64) mod 128 \<and> unat (wc + 64) mod 128 < 127" using d(1,3) cu by simp
qed

lemma line_number_ascii: "\<forall>c \<in> set (line_number n). 32 \<le> c \<and> c < 127"
proof -
  have "32 \<le> c \<and> c < 127" if "c \<in> set (show_nat k)" for c k
    using show_nat_digits [of k] that by (force simp: word_le_nat_alt word_less_nat_alt)
  then show ?thesis by (auto simp: line_number_def Let_def lit_def byte_of_def)
qed

lemma paints_line:
  assumes t: "tty_ok tty" and s: "no_hidden_control tty (json_c_string row ''text'')"
    and p: "paint_line tty scr gutter row p = Some q" "used p = 0" "0 \<le> limit p"
  shows "paints tty p q"
proof -
  let ?number = "line_number (json_int row (lit ''line'') (- 1))" and ?g = "if gutter < limit p then gutter else limit p"
  let ?p = "p\<lparr>limit := ?g\<rparr>"
  let ?q = "paint_padding scr 2 (paint_text tty scr ?number 2 ?p)"
  have "paints tty p (?q\<lparr>limit := limit p\<rparr>)"
  proof (cases "0 \<le> ?g")
    case True
    have "paints tty ?p ?q"
      using paints_trans [OF paints_text [OF t no_hidden_ascii [OF t line_number_ascii]] paints_padding [OF t]] .
    then show ?thesis using True p(2,3) by (auto simp: paints_def split: if_splits)
  next
    case False
    then have "?q = ?p" using paints_full [of ?p] p(2) by simp
    then show ?thesis using paints_refl [of tty p] by simp
  qed
  then have first: "paints tty p (if gutter \<noteq> 0 then ?q\<lparr>limit := limit p\<rparr> else p)" by (simp add: paints_refl)
  obtain k p1 where
    spans: "paint_spans tty scr (json_c_string row ''text'') (elements (json_field row (lit ''spans''))) 0
       (if gutter \<noteq> 0 then ?q\<lparr>limit := limit p\<rparr> else p) = Some (k, p1)"
    and q: "q = paint_text tty scr (drop k (json_c_string row ''text'')) 0 p1"
    using p(1) unfolding paint_line_def Let_def by (auto split: bind_splits)
  show ?thesis
    unfolding q by (rule paints_trans [OF paints_trans [OF first paints_spans [OF t s spans]] paints_text [OF t no_hidden_drop [OF s]]])
qed

text \<open>A row painted from the start of a window and padded has the window's width.\<close>

lemma padded_row:
  assumes t: "tty_ok tty" and p: "paints tty p q" "used p = 0" "0 \<le> limit p" "painted p = a" "shows_cells tty a 0"
  shows "cells_shown tty (painted (paint_padding scr i q)) = limit p"
proof -
  let ?r = "paint_padding scr i q"
  have "used q \<le> limit q" using p(1-3) by (simp add: paints_def)
  then have u: "used ?r = limit p" using paint_padding_fills [of q scr i] p(1) by (simp add: paints_def)
  have "paints tty p ?r" using p(1) paints_padding [OF t] by (rule paints_trans)
  then obtain b where "painted ?r = a @ b" "shows_cells tty b (limit p)" using u p(2,4) by (auto simp: paints_def)
  then have "shows_cells tty (painted ?r) (limit p)" using shows_append [OF p(5), of b "limit p"] by simp
  then have "cells_shown tty (painted ?r @ []) = limit p + cells_shown tty []" unfolding shows_cells_def by blast
  moreover have "cells_shown tty [] = 0" by (subst cells_shown.simps) simp
  ultimately show ?thesis by simp
qed


subsection \<open>Characters without a width\<close>

text \<open>C34 A character without a width whose code is 91 modulo 128 (U+2FDB is one) is painted as \<open>^\<close> and the escape
  character, so that text that goes on with \<open>[\<close> sends the terminal a control sequence of the file's choice.\<close>

theorem file_controls_terminal:
  assumes t: "tty_ok tty" and d: "decode tty (e @ 91 # s) = Some (wc, length e)" "e \<noteq> []"
    and wc: "wc_width tty wc < 0" "unat wc mod 128 = 91"
    and room: "used p + 3 \<le> limit p" and cursor: "\<not> software_cursor scr"
  shows "\<exists>a b. painted (paint_text tty scr (e @ 91 # s) i p) = a @ [94] @ [27, 91] @ b"
proof -
  have esc: "byte_of (unat (wc + 64) mod 128) = 27"
  proof -
    have "unat (wc + 64) mod 128 = (unat wc + 64) mod 128"
      by (simp add: unat_word_ariths mod_mod_cancel)
    also have "\<dots> = (unat wc mod 128 + 64) mod 128" by (simp add: mod_add_left_eq)
    finally show ?thesis using wc(2) by (simp add: byte_of_def)
  qed
  have "wc \<noteq> 127" using wc(2) by auto
  then have shown: "shown_char tty (e @ 91 # s) wc (length e) False = [94, 27]"
    using wc(1) esc by (simp add: shown_char_def)
  have n: "next_char tty (e @ 91 # s) = (wc, length e, False)" using d by (simp add: next_char_def)
  define p1 where "p1 = (paint_face scr i p)\<lparr>painted := painted (paint_face scr i p) @ [94, 27], used := used p + 2, last_cursor := False\<rparr>"
  have one: "paint_text tty scr (e @ 91 # s) i p = paint_text tty scr (91 # s) i p1"
    using room cursor wc(1) by (subst paint_text.simps) (simp add: n Let_def painted_width_def shown p1_def)
  have c: "next_char tty (91 # s) = (91, 1, False)" "wc_width tty 91 = 1"
    using tty_ascii [OF t, of 91 s] by (simp_all add: next_char_def)
  have face: "cur_face p1 = i" by (simp add: p1_def paint_face_def)
  define p2 where "p2 = p1\<lparr>painted := painted p1 @ [91], used := used p1 + 1, last_cursor := False\<rparr>"
  have "used p1 + 1 \<le> limit p1" using room by (simp add: p1_def)
  then have two: "paint_text tty scr (91 # s) i p1 = paint_text tty scr s i p2"
    using cursor face by (subst paint_text.simps) (simp add: c Let_def painted_width_def shown_char_def p2_def paint_face_def)
  have "\<exists>b. painted (paint_text tty scr s i p2) = painted p2 @ b" by (rule paint_text_extends)
  then show ?thesis unfolding one two by (auto simp: p2_def p1_def)
qed

text \<open>The backend lays such a character out in one column; the front end paints two.\<close>

theorem unprintable_width_differs:
  assumes "wcwidth w c < 0" "wc_width tty c = wcwidth w c" "32 \<le> c" "c \<noteq> 127"
  shows "char_width w c = 1 \<and> painted_width tty c = 2"
  using assms by (auto simp: char_width_def painted_width_def Let_def)

text \<open>One whose code is 64 modulo 128 (U+FFC0 is one) is painted as \<open>^\<close> and a NUL; a change of the row after it is
  not seen by the comparison with the row shown.\<close>

theorem nul_hides_changes:
  assumes "wc_width tty wc < 0" "unat wc mod 128 = 64" "\<forall>c \<in> set a. c \<noteq> 0"
  shows "shown_char tty s wc n False = [94, 0] \<and> row_same (Some (a @ [94, 0] @ b)) (a @ [94, 0] @ b')"
proof -
  have "unat (wc + 64) mod 128 = (unat wc mod 128 + 64) mod 128"
    by (simp add: unat_word_ariths mod_mod_cancel mod_add_left_eq)
  then have "byte_of (unat (wc + 64) mod 128) = 0" using assms(2) by (simp add: byte_of_def)
  moreover have "wc \<noteq> 127" using assms(2) by auto
  moreover have "takeWhile (\<lambda>c. c \<noteq> 0) (a @ [94, 0] @ x) = a @ [94]" for x
    using assms(3) takeWhile_append2 [of a "\<lambda>c. c \<noteq> 0" "[94, 0] @ x"] by simp
  ultimately show ?thesis using assms(1) by (simp add: shown_char_def row_same_def c_string_def)
qed

subsection \<open>Witnesses\<close>

text \<open>A terminal that knows the printable ASCII characters only.\<close>

definition ascii_tty :: Tty where
  "ascii_tty = \<lparr>decode = \<lambda>s. case s of [] \<Rightarrow> None | c # _ \<Rightarrow> if c < 128 \<and> c \<noteq> 0 then Some (ucast c, 1) else None,
     wc_width = \<lambda>wc. if 32 \<le> wc \<and> wc < 127 then 1 else - 1, other_int = \<lambda>_. 0, float = exact\<rparr>"

lemma ascii_tty_ok: "tty_ok ascii_tty"
proof -
  have a: "c < 128 \<and> c \<noteq> 0 \<and> wc_width ascii_tty (ucast c) = 1" if "32 \<le> c" "c < 127" for c :: byte
  proof -
    have "unat (ucast c :: 32 word) = unat c" by (rule unat_ucast_byte)
    then have "32 \<le> (ucast c :: 32 word)" "(ucast c :: 32 word) < 127" using that by (simp_all add: word_le_nat_alt word_less_nat_alt)
    moreover have "c < 128" "c \<noteq> 0" using that by (auto simp: word_le_nat_alt word_less_nat_alt)
    ultimately show ?thesis by (simp add: ascii_tty_def)
  qed
  have esc: "decode ascii_tty (27 # s) = Some (27, 1) \<and> wc_width ascii_tty 27 < 0" for s by (simp add: ascii_tty_def)
  have loc: "n \<le> length s \<and> (\<forall>b. decode ascii_tty (take n s @ b) = Some (wc, n))" if "decode ascii_tty s = Some (wc, n)" for s wc n
    using that by (auto simp: ascii_tty_def split: list.splits if_splits)
  have "decode ascii_tty (c # s) = Some (ucast c, 1)" if "32 \<le> c" "c < 127" for c s
    using a [OF that] by (simp add: ascii_tty_def)
  with a esc loc show ?thesis unfolding tty_ok_def by blast
qed

definition plain_screen :: Screen where
  "plain_screen = \<lparr>terminal_palette = blank_palette, terminal_colors = TERM_COLORS_MONO, software_cursor = False\<rparr>"

lemma draw_rows_total: "\<forall>r \<in> set rs. row (int r) \<noteq> None \<Longrightarrow> \<exists>out c. draw_rows row rs cache = Some (out, c)"
proof (induction rs arbitrary: cache)
  case (Cons r rs)
  obtain l where "row (int r) = Some l" using Cons.prems by auto
  moreover obtain out c where "draw_rows row rs (if row_same (cache ! r) l then cache else cache[r := Some l]) = Some (out, c)"
    using Cons by fastforce
  ultimately show ?case by simp
qed simp

definition empty_state :: json where
  "empty_state = JObject [(lit ''panes'', JArray [])]"

definition first_drawing :: Drawing where
  "first_drawing = \<lparr>screen = plain_screen, row_cache = replicate 200 None, old_rows = 0, old_cols = 0\<rparr>"


definition one_window :: json where
  "one_window = JObject [(lit ''height'', JInt 2), (lit ''width'', JInt 12), (lit ''lines'', JArray [JObject [(lit ''text'', JString (lit ''ab''))]])]"


text \<open>The same terminal, with U+2FDB, which no font shows.\<close>

definition radical_tty :: Tty where
  "radical_tty = ascii_tty\<lparr>decode := \<lambda>s. if take 3 s = [0xe2, 0xbf, 0x9b] then Some (0x2fdb, 3) else decode ascii_tty s\<rparr>"

lemma radical_tty_ok: "tty_ok radical_tty"
proof -
  have first: "decode radical_tty (c # s) = decode ascii_tty (c # s)" if "c < 128" for c s
  proof -
    have "c \<noteq> 0xe2" using that by auto
    then show ?thesis by (simp add: radical_tty_def numeral_3_eq_3)
  qed
  have w: "wc_width radical_tty = wc_width ascii_tty" by (simp add: radical_tty_def)
  have "decode radical_tty (c # s) = Some (ucast c, 1) \<and> wc_width radical_tty (ucast c) = 1" if "32 \<le> c" "c < 127" for c s
  proof -
    have "c < 128" using that by (auto simp: word_less_nat_alt)
    then show ?thesis using tty_ascii [OF ascii_tty_ok that] w by (simp add: first)
  qed
  moreover have "decode radical_tty (27 # s) = Some (27, 1) \<and> wc_width radical_tty 27 < 0" for s
    using tty_escape [OF ascii_tty_ok, of s] w by (simp add: first)
  moreover have "n \<le> length s \<and> (\<forall>b. decode radical_tty (take n s @ b) = Some (wc, n))"
    if d: "decode radical_tty s = Some (wc, n)" and n: "n \<noteq> 0" for s wc n
  proof (cases "take 3 s = [0xe2, 0xbf, 0x9b]")
    case True
    then have "n = 3" "wc = 0x2fdb" using d by (simp_all add: radical_tty_def)
    moreover have "length (take 3 s) = length [0xe2, 0xbf, 0x9b :: byte]" by (simp only: True)
    then have "3 \<le> length s" by simp
    ultimately show ?thesis using True by (simp add: radical_tty_def)
  next
    case False
    then have a: "decode ascii_tty s = Some (wc, n)" using d by (simp add: radical_tty_def)
    then obtain c u where c: "s = c # u" "c < 128" "n = 1" by (auto simp: ascii_tty_def split: list.splits if_splits)
    then show ?thesis using first [of c] tty_local [OF ascii_tty_ok a n] by simp
  qed
  ultimately show ?thesis unfolding tty_ok_def by blast
qed

theorem file_controls_terminal_witness:
  "\<exists>a b. painted (paint_text radical_tty plain_screen ([0xe2, 0xbf, 0x9b] @ 91 # lit ''2J'') 0
      \<lparr>painted = [], used = 0, limit = 80, cursor_at = - 1, cur_face = - 1, last_cursor = False\<rparr>) = a @ [94] @ [27, 91] @ b"
  by (rule file_controls_terminal [OF radical_tty_ok, where wc = "0x2fdb"])
    (simp_all add: radical_tty_def ascii_tty_def plain_screen_def)

end
