(* ===== verification/Sockets.thy ===== *)
theory Sockets
  imports Program Tui
begin

section \<open>Connections and their descriptors (\<open>src/main.c\<close>, \<open>src/transport.c\<close>)\<close>

text \<open>
  Opening and closing connections: the calls that are made with the descriptors they give, against what
  the system answers. \<open>still_open\<close> follows the descriptors through a list of calls.
\<close>

subsection \<open>Calls\<close>

datatype sys_call = Socket "nat option" | Socketpair "(nat \<times> nat) option" | Umask nat | Bind nat bytes | Listen nat
  | Connect nat bytes | Fork | Close nat | Unlink bytes | Reap nat | Dup2 nat nat | Execute "bytes list"

record Net =
  sun_path_size :: nat
  path_exists :: bool
  socket_result :: "nat option"
  bind_works :: bool
  listen_works :: bool
  connect_works :: bool
  pair_result :: "(nat \<times> nat) option"
  fork_result :: "nat option" \<comment> \<open>the child, positive\<close>
  user_mask :: nat

subsection \<open>The server's socket\<close>

definition server_socket :: "Net \<Rightarrow> bytes \<Rightarrow> sys_call list \<times> (bytes + nat)" where
  "server_socket N p =
     (if length p \<ge> sun_path_size N then ([], Inl (lit ''cpymacs: socket path too long''))
      else if path_exists N then ([], Inl (lit ''cpymacs: socket path already exists; refusing to replace it: '' @ p))
      else case socket_result N of
        None \<Rightarrow> ([Socket None], Inl (lit ''socket''))
      | Some fd \<Rightarrow>
          let calls = [Socket (Some fd), Umask 127, Bind fd p, Umask (user_mask N)] in
          if \<not> bind_works N then (calls @ [Close fd], Inl (lit ''bind''))
          else if \<not> listen_works N then (calls @ [Listen fd, Close fd, Unlink p], Inl (lit ''listen''))
          else (calls @ [Listen fd], Inr fd))"

text \<open>The server from its socket to its exit status; at the end the socket and its path are removed.\<close>

definition run_server :: "Net \<Rightarrow> World \<Rightarrow> Os \<Rightarrow> nat \<Rightarrow> parser \<Rightarrow> printer \<Rightarrow> (bool \<times> polled) list \<Rightarrow> bytes \<Rightarrow> sys \<Rightarrow>
    (nat \<times> sys_call list \<times> sys) option" where
  "run_server N w os n parse print turns p s =
     (case server_socket N p of
        (calls, Inl msg) \<Rightarrow> Some (1, calls, s)
      | (calls, Inr fd) \<Rightarrow> do {
          s \<leftarrow> backend_server w os n parse print turns s;
          Some (0, calls @ [Close fd, Unlink p], s) })"

subsection \<open>A front end's connection\<close>

text \<open>The descriptor and the child process, 0 for none.\<close>

record Link =
  link_fd :: nat
  link_child :: nat

definition connection_open :: "Net \<Rightarrow> bytes option \<Rightarrow> sys_call list \<times> Link option" where
  "connection_open N sock =
     (case sock of
        Some p \<Rightarrow>
          if length p \<ge> sun_path_size N then ([], None)
          else (case socket_result N of
            None \<Rightarrow> ([Socket None], None)
          | Some fd \<Rightarrow>
              if \<not> connect_works N then ([Socket (Some fd), Connect fd p, Close fd], None)
              else ([Socket (Some fd), Connect fd p], Some \<lparr>link_fd = fd, link_child = 0\<rparr>))
      | None \<Rightarrow>
          (case pair_result N of
             None \<Rightarrow> ([Socketpair None], None)
           | Some (a, b) \<Rightarrow>
               (case fork_result N of
                  None \<Rightarrow> ([Socketpair (Some (a, b)), Fork, Close a, Close b], None)
                | Some pid \<Rightarrow> ([Socketpair (Some (a, b)), Fork, Close b], Some \<lparr>link_fd = a, link_child = pid\<rparr>))))"

text \<open>The child between \<open>fork\<close> and \<open>execv\<close>: its end of the pair becomes its input and output.\<close>

definition child_calls :: "nat \<Rightarrow> nat \<Rightarrow> bytes list \<Rightarrow> sys_call list" where
  "child_calls a b args = [Close a, Dup2 b 0, Dup2 b 1] @ (if b > 2 then [Close b] else []) @ [Execute args]"

text \<open>Closing waits for the child, again after each of \<open>k\<close> interrupts.\<close>

definition connection_close :: "nat \<Rightarrow> Link \<Rightarrow> sys_call list" where
  "connection_close k c = [Close (link_fd c)] @ (if link_child c > 0 then replicate (k + 1) (Reap (link_child c)) else [])"

subsection \<open>The terminal client\<close>

text \<open>The path of the program itself: the link, the given name resolved, or the name.\<close>

definition exe_path :: "bytes option \<Rightarrow> bytes option \<Rightarrow> bytes \<Rightarrow> bytes" where
  "exe_path self resolved arg0 =
     (case self of
        Some (c # s) \<Rightarrow> take 4095 (c # s)
      | _ \<Rightarrow> (case resolved of Some r \<Rightarrow> r | None \<Rightarrow> arg0))"

text \<open>On attaching, the files of the command line are opened in the running backend; a lost reply is not noticed.\<close>

fun attach_files :: "(json \<Rightarrow> 'b \<Rightarrow> (json \<times> 'b) option) \<Rightarrow> bytes list \<Rightarrow> 'b \<Rightarrow> 'b" where
  "attach_files ask [] b = b"
| "attach_files ask (f # fs) b =
     attach_files ask fs (case ask (json_set_string (request_new (lit ''open'')) (lit ''path'') (Some f)) b of
       None \<Rightarrow> b | Some (r, b) \<Rightarrow> b)"

definition terminal_client :: "Net \<Rightarrow> Options \<Rightarrow> (int + Screen) \<Rightarrow> Tty \<Rightarrow> (json \<Rightarrow> 'b \<Rightarrow> (json \<times> 'b) option) \<Rightarrow> Turn list \<Rightarrow> nat \<Rightarrow> 'b \<Rightarrow>
    (int \<times> sys_call list \<times> bytes \<times> 'b) option" where
  "terminal_client N opts start tty ask turns k b =
     (case connection_open N (connect opts) of
        (calls, None) \<Rightarrow> Some (1, calls, [], b)
      | (calls, Some c) \<Rightarrow> do {
          let b = (if connect opts \<noteq> None then attach_files ask (files opts) b else b);
          (status, out, b) \<leftarrow> (case start of
              Inl n \<Rightarrow> Some (n, [], b)
            | Inr scr \<Rightarrow> tui_loop tty ask turns \<lparr>screen = scr, row_cache = replicate 200 None, old_rows = 0, old_cols = 0\<rparr> b);
          Some (status, calls @ connection_close k c, out, b) })"

subsection \<open>Every descriptor is closed\<close>

fun descriptors :: "sys_call \<Rightarrow> nat set \<Rightarrow> nat set" where
  "descriptors (Socket (Some fd)) = insert fd"
| "descriptors (Socketpair (Some (a, b))) = (\<lambda>A. insert a (insert b A))"
| "descriptors (Close fd) = (\<lambda>A. A - {fd})"
| "descriptors _ = (\<lambda>A. A)"

definition still_open :: "sys_call list \<Rightarrow> nat set" where
  "still_open calls = fold descriptors calls {}"

lemma same_power [simp]: "((\<lambda>A. A) ^^ k) A = A"
  by (induction k) simp_all

lemma opened_link:
  assumes "connection_open N sock = (calls, r)" "\<forall>a b. pair_result N = Some (a, b) \<longrightarrow> a \<noteq> b"
  shows "still_open calls = (case r of None \<Rightarrow> {} | Some c \<Rightarrow> {link_fd c})"
  using assms by (auto simp: connection_open_def still_open_def split: option.splits if_splits prod.splits)

lemma connection_closed: "still_open calls = {link_fd c} \<Longrightarrow> still_open (calls @ connection_close k c) = {}"
  by (simp add: still_open_def connection_close_def)

text \<open>However it ends, the terminal client leaves no descriptor open and no child unwaited for.\<close>

theorem client_closes_all:
  assumes "terminal_client N opts start tty ask turns k b = Some (status, calls, out, b')"
    and "\<forall>a b. pair_result N = Some (a, b) \<longrightarrow> a \<noteq> b" "fork_result N \<noteq> Some 0"
  shows "still_open calls = {}" "connect opts = None \<Longrightarrow> fork_result N = Some pid \<Longrightarrow> Fork \<in> set calls \<Longrightarrow> Reap pid \<in> set calls"
proof -
  obtain first r where o: "connection_open N (connect opts) = (first, r)" by fastforce
  note left = opened_link [OF o assms(2)]
  have calls: "calls = first @ (case r of None \<Rightarrow> [] | Some c \<Rightarrow> connection_close k c)"
    using assms(1) by (auto simp: terminal_client_def o Let_def split: option.splits bind_splits)
  show "still_open calls = {}" using left by (cases r) (simp_all add: calls connection_closed)
  show "Reap pid \<in> set calls" if "connect opts = None" "fork_result N = Some pid" "Fork \<in> set calls"
    using o that assms(3) by (auto simp: calls connection_open_def connection_close_def split: option.splits prod.splits)
qed

definition sample_net :: Net where
  "sample_net = \<lparr>sun_path_size = 108, path_exists = False, socket_result = Some 5, bind_works = True, listen_works = True,
     connect_works = True, pair_result = Some (3, 4), fork_result = Some 7, user_mask = 18\<rparr>"

theorem client_closes_all_witness:
  "\<exists>calls. terminal_client sample_net (initial_options None None) (Inl 2) ascii_tty (\<lambda>_ _. None) [] 1 () = Some (2, calls, [], ()) \<and>
    still_open calls = {} \<and> Reap 7 \<in> set calls"
proof -
  obtain calls where c: "terminal_client sample_net (initial_options None None) (Inl 2) ascii_tty (\<lambda>_ _. None) [] 1 () = Some (2, calls, [], ())"
    "Fork \<in> set calls" by (auto simp: terminal_client_def connection_open_def initial_options_def sample_net_def)
  from client_closes_all(1) [OF c(1)] client_closes_all(2) [OF c(1), where pid = 7] c show ?thesis by (simp add: sample_net_def initial_options_def)
qed

subsection \<open>The server's socket is its own\<close>

fun mask :: "sys_call \<Rightarrow> nat \<Rightarrow> nat" where
  "mask (Umask m) = (\<lambda>_. m)"
| "mask _ = (\<lambda>m. m)"

text \<open>The server closes its socket, removes a path only when nothing was there before and its own \<open>bind\<close> created it, and
  creates it for its user alone: the permission mask is \<open>0177\<close> then and the user's again afterwards.\<close>

theorem server_cleans_up:
  assumes "run_server N w os n parse print turns p s = Some (status, calls, s')"
  shows "still_open calls = {}" "Unlink q \<in> set calls \<Longrightarrow> q = p \<and> \<not> path_exists N \<and> bind_works N"
    "Bind fd q \<in> set calls \<Longrightarrow> \<exists>before after. calls = before @ Bind fd q # after \<and> fold mask before m = 127 \<and> fold mask calls m = user_mask N"
proof -
  let ?start = "\<lambda>fd. [Socket (Some fd), Umask 127, Bind fd p, Umask (user_mask N)]"
  have "(calls = [] \<or> calls = [Socket None]) \<or> (\<exists>fd. \<not> path_exists N \<and>
      (calls = ?start fd @ [Close fd] \<or> bind_works N \<and> calls = ?start fd @ [Listen fd, Close fd, Unlink p]))"
    using assms by (auto simp: run_server_def server_socket_def Let_def split: option.splits if_splits bind_splits)
  then consider (none) "calls = [] \<or> calls = [Socket None]" | (unbound) fd where "calls = ?start fd @ [Close fd]"
    | (bound) fd where "\<not> path_exists N" "bind_works N" "calls = ?start fd @ [Listen fd, Close fd, Unlink p]" by blast
  note cs = this
  from cs show "still_open calls = {}" by cases (auto simp: still_open_def)
  from cs show "q = p \<and> \<not> path_exists N \<and> bind_works N" if "Unlink q \<in> set calls" using that by cases auto
  from cs show "\<exists>before after. calls = before @ Bind fd q # after \<and> fold mask before m = 127 \<and> fold mask calls m = user_mask N"
    if "Bind fd q \<in> set calls"
    using that
  proof cases
    case (unbound fd')
    with that show ?thesis by (intro exI [of _ "[Socket (Some fd'), Umask 127]"] exI [of _ "[Umask (user_mask N), Close fd']"]) simp
  next
    case (bound fd')
    with that show ?thesis by (intro exI [of _ "[Socket (Some fd'), Umask 127]"] exI [of _ "[Umask (user_mask N), Listen fd', Close fd', Unlink p]"]) simp
  qed auto
qed

theorem server_cleans_up_witness:
  "run_server (sample_net\<lparr>listen_works := False\<rparr>) w os n parse print turns [115] s =
    Some (1, [Socket (Some 5), Umask 127, Bind 5 [115], Umask 18, Listen 5, Close 5, Unlink [115]], s) \<and>
  still_open [Socket (Some 5), Umask 127, Bind 5 [115], Umask 18, Listen 5, Close 5, Unlink [115]] = {}"
proof -
  have r: "run_server (sample_net\<lparr>listen_works := False\<rparr>) w os n parse print turns [115] s =
    Some (1, [Socket (Some 5), Umask 127, Bind 5 [115], Umask 18, Listen 5, Close 5, Unlink [115]], s)"
    by (simp add: run_server_def server_socket_def sample_net_def)
  with server_cleans_up(1) [OF r] show ?thesis by blast
qed

end
