(* ===== verification/Plugins.thy ===== *)
theory Plugins
  imports Protocol "HOL-Library.AList"
begin

section \<open>The extension interface (\<open>src/python.c\<close>)\<close>

text \<open>
  The functions the module \<open>_cpymacs\<close> gives to Python code, and the calls of registered commands and
  hooks. A Python function is a value of a type \<open>'f\<close>; what it does when it is called is a
  parameter. An argument is the C value \<open>PyArg_ParseTuple\<close> stores for it, a result the JSON value that
  corresponds to the Python one. \<open>None\<close> is a call that does not return.
\<close>

subsection \<open>State\<close>

text \<open>The file's variable \<open>in_hook\<close>, the two dictionaries and the attributes of the \<open>api\<close> object.\<close>

record 'f Python =
  in_hook :: bool
  python_commands :: "(bytes \<times> 'f) list"
  python_hooks :: "(bytes \<times> 'f list) list"
  argument_count :: int
  argument :: "bytes option"

type_synonym 'f host = "'f Python \<times> sys"

datatype py_error = RuntimeError bytes | TypeError bytes | ValueError bytes
  | Interpreter_error \<comment> \<open>raised by the interpreter itself\<close>

type_synonym 'f reply = "('f host \<times> (py_error + json)) option"

text \<open>The views of a Python object the options take: \<open>None\<close> where the conversion raises.\<close>

record py_object =
  as_long :: "int option"
  is_true :: "bool option"
  as_utf8 :: "bytes option"

subsection \<open>The functions of the module\<close>

definition error_result :: "bytes \<Rightarrow> 'f host \<Rightarrow> 'f reply" where
  "error_result msg h = Some (h, Inl (RuntimeError msg))"

definition py_none :: "'f host \<Rightarrow> 'f reply" where
  "py_none h = Some (h, Inr JNull)"

text \<open>Success, or the editor's message as an exception.\<close>

definition py_result :: "'f Python \<Rightarrow> sys_result \<Rightarrow> 'f reply" where
  "py_result p r = do {
     ((d, e), ok) \<leftarrow> r;
     if ok then py_none (p, d, e) else error_result (message e) (p, d, e) }"

definition py_info :: "'f host \<Rightarrow> 'f reply" where
  "py_info h =
     (let (p, d, e) = h; b = editor_buffer e; name = buf_name b;
          file = (case path b of Some s \<Rightarrow> s | None \<Rightarrow> []) in
      if \<not> utf8_valid name \<or> \<not> utf8_valid file \<or> \<not> utf8_valid (buf_mode b) then Some (h, Inl Interpreter_error)
      else Some (h, Inr (JObject [(lit ''id'', JInt (buf_id b)), (lit ''name'', JString name), (lit ''path'', JString file),
        (lit ''mode'', JString (buf_mode b)), (lit ''point'', JInt (int (point b))),
        (lit ''character_point'', JInt (int (text_byte_to_char (buf_text b) (point b)))), (lit ''mark'', JInt (int (mark b))),
        (lit ''size'', JInt (int (text_size (buf_text b)))), (lit ''revision'', JInt (int (revision b))),
        (lit ''mark_active'', JBool (mark_active b)), (lit ''modified'', JBool (buf_state b \<noteq> saved_state b)),
        (lit ''tab_width'', JInt (int (tab_width b))), (lit ''indent_width'', JInt (int (indent_width b))),
        (lit ''auto_indent'', JBool (auto_indent b))])))"

definition py_text :: "int \<Rightarrow> int \<Rightarrow> 'f host \<Rightarrow> 'f reply" where
  "py_text start end_at h =
     (let (p, d, e) = h; b = editor_buffer e; size = text_size (buf_text b);
          end_at = (if end_at < 0 then int size else end_at) in
      if start < 0 \<or> end_at < start \<or> nat end_at > size \<or> \<not> text_boundary (buf_text b) (nat start) \<or>
        \<not> text_boundary (buf_text b) (nat end_at)
      then error_result (lit ''Invalid UTF-8 byte range'') h
      else
        let s = text_slice (buf_text b) (nat start) (nat (end_at - start)) in
        Some (h, if utf8_valid s then Inr (JString s) else Inl Interpreter_error))"

definition py_replace :: "World \<Rightarrow> int \<Rightarrow> int \<Rightarrow> bytes \<Rightarrow> 'f host \<Rightarrow> 'f reply" where
  "py_replace w at n s h =
     (let (p, d, e) = h in
      if at < 0 \<or> n < 0 then error_result (message e) h
      else py_result p (on_disk d (editor_replace w e (nat at) (nat n) s)))"

definition py_insert :: "World \<Rightarrow> bytes \<Rightarrow> 'f host \<Rightarrow> 'f reply" where
  "py_insert w s h = (let (p, d, e) = h in py_result p (on_disk d (editor_insert w e s)))"

definition py_set_text :: "World \<Rightarrow> bytes \<Rightarrow> 'f host \<Rightarrow> 'f reply" where
  "py_set_text w s h = (let (p, d, e) = h in py_result p (on_disk d (editor_set_text w e s)))"

definition py_point :: "int \<Rightarrow> bool \<Rightarrow> 'f host \<Rightarrow> 'f reply" where
  "py_point n in_chars h =
     (let (p, d, e) = h; t = buf_text (editor_buffer e) in
      if n < 0 then error_result (lit ''Negative point'') h
      else
        let at = (if in_chars then text_char_to_byte t (nat n) else nat n) in
        if \<not> text_boundary t at then error_result (lit ''Point must be a UTF-8 byte boundary'') h
        else py_none (p, d, set_point (current e) at e))"

definition py_command :: "World \<Rightarrow> Os \<Rightarrow> nat \<Rightarrow> bytes \<Rightarrow> bytes option \<Rightarrow> int \<Rightarrow> 'f host \<Rightarrow> 'f reply" where
  "py_command w os n name arg count h =
     (let (p, s) = h in py_result p (editor_command w os n name arg count (count \<noteq> 1) s))"

text \<open>A function that cannot be called is \<open>None\<close>.\<close>

definition py_register :: "bytes \<Rightarrow> 'f option \<Rightarrow> 'f host \<Rightarrow> 'f reply" where
  "py_register name func h =
     (let (p, s) = h in
      case func of
        None \<Rightarrow> Some (h, Inl (TypeError (lit ''Command must be callable'')))
      | Some f \<Rightarrow>
          if length name \<ge> 100 then error_result (lit ''Command name too long'') h
          else py_none (p\<lparr>python_commands := AList.update name f (python_commands p)\<rparr>, s))"

definition py_bind :: "bytes \<Rightarrow> bytes \<Rightarrow> bytes option \<Rightarrow> 'f host \<Rightarrow> 'f reply" where
  "py_bind key name mode h =
     (let (p, d, e) = h; m = (case mode of Some m \<Rightarrow> m | None \<Rightarrow> []) in
      if length key \<ge> 100 \<or> length name \<ge> 100 \<or> length m \<ge> 80 then error_result (lit ''Binding too long'') h
      else py_none (p, d, editor_bind e key name m))"

definition py_on :: "bytes \<Rightarrow> 'f option \<Rightarrow> 'f host \<Rightarrow> 'f reply" where
  "py_on name func h =
     (let (p, s) = h in
      case func of
        None \<Rightarrow> Some (h, Inl (TypeError (lit ''Hook must be callable'')))
      | Some f \<Rightarrow>
          let fs = (case map_of (python_hooks p) name of Some fs \<Rightarrow> fs | None \<Rightarrow> []) in
          py_none (p\<lparr>python_hooks := AList.update name (fs @ [f]) (python_hooks p)\<rparr>, s))"

text \<open>A truth value that raises counts as false; the call then raises although the option is set.\<close>

definition py_option :: "bytes \<Rightarrow> py_object \<Rightarrow> 'f host \<Rightarrow> 'f reply" where
  "py_option name v h =
     (let (p, d, e) = h; flag = (is_true v = Some True);
          set_flag = (\<lambda>e'. Some ((p, d, e'), if is_true v = None then Inl Interpreter_error else Inr JNull)) in
      if name = lit ''tab_width'' \<or> name = lit ''indent_width'' \<or> name = lit ''font_size'' then
        case as_long v of
          None \<Rightarrow> Some (h, Inl Interpreter_error)
        | Some n \<Rightarrow>
            if n < 1 \<or> n > 64 then error_result (lit ''Option must be between 1 and 64'') h
            else if name = lit ''tab_width'' then py_none (p, d, upd_current (\<lambda>b. b\<lparr>tab_width := nat n,
              column_cache := (column_cache b)\<lparr>valid := False\<rparr>, seek_cache := (seek_cache b)\<lparr>valid := False\<rparr>\<rparr>) e)
            else if name = lit ''indent_width'' then py_none (p, d, upd_current (\<lambda>b. b\<lparr>indent_width := nat n\<rparr>) e)
            else py_none (p, d, e\<lparr>font_size := n\<rparr>)
      else if name = lit ''auto_indent'' then set_flag (upd_current (\<lambda>b. b\<lparr>auto_indent := flag\<rparr>) e)
      else if name = lit ''line_numbers'' then set_flag (e\<lparr>show_line_numbers := flag\<rparr>)
      else if name = lit ''highlight'' then set_flag (e\<lparr>show_highlight := flag\<rparr>)
      else if name = lit ''read_only'' then set_flag (upd_current (\<lambda>b. b\<lparr>readonly := flag\<rparr>) e)
      else if name = lit ''font'' then
        case as_utf8 v of
          None \<Rightarrow> Some (h, Inl Interpreter_error)
        | Some s \<Rightarrow> py_none (p, d, e\<lparr>font := take 127 (c_string s)\<rparr>)
      else error_result (lit ''Unknown option; inspect docs/api.html for supported names'') h)"

definition py_mode :: "bytes \<Rightarrow> bytes \<Rightarrow> int \<Rightarrow> bytes \<Rightarrow> bytes \<Rightarrow> 'f host \<Rightarrow> 'f reply" where
  "py_mode name syntax k words builtins h =
     (let (p, d, e) = h in
      if k < 0 \<or> k > 5 \<or> length name \<ge> 80 then error_result (lit ''Invalid mode or syntax kind'') h
      else py_none (p, d, upd_current (\<lambda>b. b\<lparr>buf_mode := name,
        buf_syntax := \<lparr>syntax_name = syntax, keyword_list = words, builtin_list = builtins, kind = k\<rparr>, lex_valid := 0\<rparr>) e))"

definition py_message :: "bytes \<Rightarrow> 'f host \<Rightarrow> 'f reply" where
  "py_message s h = (let (p, d, e) = h in py_none (p, d, editor_message s e))"

definition py_open :: "World \<Rightarrow> Os \<Rightarrow> bytes \<Rightarrow> 'f host \<Rightarrow> 'f reply" where
  "py_open w os s h = (let (p, d, e) = h in py_result p (on_disk d (editor_open w os d e s)))"

definition py_save :: "World \<Rightarrow> Os \<Rightarrow> bytes option \<Rightarrow> bool \<Rightarrow> 'f host \<Rightarrow> 'f reply" where
  "py_save w os s force h =
     (let (p, d, e) = h; (d, e, ok) = editor_save w os d e s force in py_result p (Some ((d, e), ok)))"

text \<open>The colours, \<open>None\<close> for an object that is no sequence and for an item that is no unsigned integer.\<close>

definition bad_color :: "nat option \<Rightarrow> bool" where
  "bad_color c = (case c of None \<Rightarrow> True | Some n \<Rightarrow> n > 0xffffff)"

definition py_theme :: "bytes \<Rightarrow> nat option list option \<Rightarrow> 'f host \<Rightarrow> 'f reply" where
  "py_theme name given h =
     (let (p, d, e) = h in
      case given of
        None \<Rightarrow> Some (h, Inl (TypeError (lit ''Theme must contain ten RGB integers'')))
      | Some cs \<Rightarrow>
          if length cs \<noteq> 10 then error_result (lit ''Theme requires ten colors'') h
          else case find bad_color cs of
            Some None \<Rightarrow> Some (h, Inl Interpreter_error)
          | Some (Some _) \<Rightarrow> Some (h, Inl (ValueError (lit ''Invalid RGB color'')))
          | None \<Rightarrow> py_none (p, d, e\<lparr>colors := map the cs, theme := take 31 name\<rparr>))"

definition find_last_index :: "('a \<Rightarrow> bool) \<Rightarrow> 'a list \<Rightarrow> nat option" where
  "find_last_index P xs = (case filter (\<lambda>i. P (xs ! i)) [0..<length xs] of [] \<Rightarrow> None | is \<Rightarrow> Some (last is))"

definition py_log :: "bytes \<Rightarrow> bytes \<Rightarrow> 'f host \<Rightarrow> 'f reply" where
  "py_log name s h =
     (let (p, d, e) = h in
      if \<not> utf8_valid s then error_result (lit ''Log must be UTF-8'') h
      else do {
        (e, i) \<leftarrow> (case find_last_index (\<lambda>b. buf_name b = name) (buffers e) of
            Some i \<Rightarrow> Some (e, Some i)
          | None \<Rightarrow> editor_new_buffer e name);
        case i of
          None \<Rightarrow> error_result (message e) (p, d, e)
        | Some i \<Rightarrow> do {
            t \<leftarrow> text_init s;
            let n = next_state e + 1;
            py_none (p, d, upd_buf i (\<lambda>b. b\<lparr>buf_text := t, point := 0, mark := 0, mark_active := False, has_mark := False,
              history := [], history_pos := 0, column_cache := (column_cache b)\<lparr>valid := False\<rparr>,
              seek_cache := (seek_cache b)\<lparr>valid := False\<rparr>, revision := revision b + 1, saved_state := n, buf_state := n,
              readonly := True, lex_valid := 0\<rparr>) (e\<lparr>next_state := n\<rparr>)) } })"

text \<open>The table of the module. Functions called from a hook run without hooks.\<close>

datatype 'f api = Info | Get_text int int | Replace int int bytes | Insert bytes | Set_text bytes | Set_point int bool
  | Run bytes "bytes option" int | Register bytes "'f option" | Bind bytes bytes "bytes option" | On bytes "'f option"
  | Set_option bytes py_object | Set_mode bytes bytes int bytes bytes | Message bytes | Open_file bytes
  | Save_file "bytes option" bool | Set_theme bytes "nat option list option" | Log bytes bytes

definition quiet :: "World \<Rightarrow> World" where
  "quiet w = w\<lparr>hook := \<lambda>_ e. e, before_save_hook := \<lambda>e. (e, True)\<rparr>"

definition methods :: "World \<Rightarrow> Os \<Rightarrow> nat \<Rightarrow> 'f api \<Rightarrow> 'f host \<Rightarrow> 'f reply" where
  "methods w os n c h =
     (let w = (if in_hook (fst h) then quiet w else w) in
      case c of
        Info \<Rightarrow> py_info h
      | Get_text a z \<Rightarrow> py_text a z h
      | Replace at k s \<Rightarrow> py_replace w at k s h
      | Insert s \<Rightarrow> py_insert w s h
      | Set_text s \<Rightarrow> py_set_text w s h
      | Set_point k in_chars \<Rightarrow> py_point k in_chars h
      | Run name arg count \<Rightarrow> py_command w os n name arg count h
      | Register name f \<Rightarrow> py_register name f h
      | Bind key name mode \<Rightarrow> py_bind key name mode h
      | On name f \<Rightarrow> py_on name f h
      | Set_option name v \<Rightarrow> py_option name v h
      | Set_mode name syntax k words builtins \<Rightarrow> py_mode name syntax k words builtins h
      | Message s \<Rightarrow> py_message s h
      | Open_file s \<Rightarrow> py_open w os s h
      | Save_file s force \<Rightarrow> py_save w os s force h
      | Set_theme name cs \<Rightarrow> py_theme name cs h
      | Log name s \<Rightarrow> py_log name s h)"

subsection \<open>Calling Python\<close>

text \<open>Calling a function: the state it leaves and, when it raises, the text of the exception.\<close>

type_synonym 'f caller = "'f \<Rightarrow> 'f host \<Rightarrow> ('f host \<times> bytes option) option"

definition report_exception :: "bytes \<Rightarrow> bytes \<Rightarrow> 'f host \<Rightarrow> 'f host" where
  "report_exception ctx msg h = (let (p, d, e) = h in (p, d, editor_message (ctx @ lit '': '' @ msg) e))"

fun call_hooks :: "'f caller \<Rightarrow> bytes \<Rightarrow> bool \<Rightarrow> 'f list \<Rightarrow> 'f host \<Rightarrow> ('f host \<times> bool) option" where
  "call_hooks call name strict [] h = Some (h, True)"
| "call_hooks call name strict (f # fs) h = do {
     (h, raised) \<leftarrow> call f h;
     case raised of
       None \<Rightarrow> call_hooks call name strict fs h
     | Some msg \<Rightarrow>
         let h = report_exception name msg h in
         if strict then Some (h, False)
         else do { (h, ok) \<leftarrow> call_hooks call name strict fs h; Some (h, False) } }"

definition event :: "'f caller \<Rightarrow> bytes \<Rightarrow> bool \<Rightarrow> 'f host \<Rightarrow> ('f host \<times> bool) option" where
  "event call name strict h =
     (let (p, d, e) = h in
      if \<not> python_enabled e \<or> in_hook p then Some (h, True)
      else case map_of (python_hooks p) name of
        None \<Rightarrow> Some (h, True)
      | Some fs \<Rightarrow> do {
          ((p, s), ok) \<leftarrow> call_hooks call name strict fs (p\<lparr>in_hook := True\<rparr>, d, e);
          Some ((p\<lparr>in_hook := False\<rparr>, s), ok \<or> \<not> strict) })"

definition call_command :: "'f caller \<Rightarrow> bytes \<Rightarrow> bytes option \<Rightarrow> int \<Rightarrow> 'f host \<Rightarrow> ('f host \<times> bool) option" where
  "call_command call name arg count h =
     (let (p, d, e) = h in
      if \<not> python_enabled e then Some (h, False)
      else case map_of (python_commands p) name of
        None \<Rightarrow> Some (h, False)
      | Some f \<Rightarrow>
          let p = p\<lparr>argument_count := count,
            argument := (case arg of None \<Rightarrow> None | Some s \<Rightarrow> if utf8_valid s then Some s else argument p)\<rparr> in do {
            (h, raised) \<leftarrow> call f (p, d, e);
            case raised of None \<Rightarrow> Some (h, True) | Some msg \<Rightarrow> Some (report_exception name msg h, False) })"

definition command_names :: "'f host \<Rightarrow> bytes list" where
  "command_names h = (if python_enabled (snd (snd h)) then filter utf8_valid (map fst (python_commands (fst h))) else [])"

subsection \<open>Starting\<close>

text \<open>\<open>exec_file path\<close> runs a configuration file; \<open>None\<close> when it cannot be opened.\<close>

type_synonym 'f script_file = "bytes \<Rightarrow> ('f host \<Rightarrow> ('f host \<times> bytes option) option) option"

definition plugins_load :: "'f script_file \<Rightarrow> bytes \<Rightarrow> 'f host \<Rightarrow> ('f host \<times> bool) option" where
  "plugins_load exec_file file h =
     (let (p, d, e) = h in
      if \<not> python_enabled e then Some (h, False)
      else case exec_file file of
        None \<Rightarrow> Some ((p, d, editor_message (lit ''Cannot open configuration: '' @ file) e), False)
      | Some exec \<Rightarrow> do {
          (h, raised) \<leftarrow> exec h;
          case raised of None \<Rightarrow> Some (h, True) | Some msg \<Rightarrow> Some (report_exception (lit ''Configuration failed'') msg h, False) })"

definition user_config :: "bytes option \<Rightarrow> bytes option \<Rightarrow> bytes" where
  "user_config xdg home_dir =
     take 4095 (case xdg of
       Some (c # s) \<Rightarrow> (c # s) @ lit ''/cpymacs/init.py''
     | _ \<Rightarrow> (case home_dir of Some s \<Rightarrow> s | None \<Rightarrow> lit ''.'') @ lit ''/.config/cpymacs/init.py'')"

fun load_all :: "'f script_file \<Rightarrow> bytes list \<Rightarrow> 'f host \<Rightarrow> 'f host option" where
  "load_all exec_file [] h = Some h"
| "load_all exec_file (f # fs) h = do { (h, ok) \<leftarrow> plugins_load exec_file f h; load_all exec_file fs h }"

text \<open>\<open>status\<close> is the error of the interpreter's start, \<open>boot\<close> runs the bundled plugins; \<open>None\<close> for \<open>user\<close> asks for no
  user configuration.\<close>

definition plugins_init :: "bytes option \<Rightarrow> ('f host \<Rightarrow> ('f host \<times> bytes option) option) \<Rightarrow> 'f script_file \<Rightarrow> (bytes \<Rightarrow> bool) \<Rightarrow>
    (bytes option \<times> bytes option) option \<Rightarrow> bytes list \<Rightarrow> 'f host \<Rightarrow> ('f host \<times> bool) option" where
  "plugins_init status boot exec_file readable user configs h =
     (let (p, d, e) = h in
      case status of
        Some msg \<Rightarrow> Some ((p, d, editor_message (lit ''Python initialization failed: '' @ msg) e), False)
      | None \<Rightarrow> do {
          (h, raised) \<leftarrow> boot (p\<lparr>python_commands := [], python_hooks := []\<rparr>, d, e\<lparr>python_enabled := True\<rparr>);
          case raised of
            Some msg \<Rightarrow> Some (report_exception (lit ''Plugin bootstrap failed'') msg h, False)
          | None \<Rightarrow> do {
              h \<leftarrow> load_all exec_file (case user of
                  Some (xdg, home_dir) \<Rightarrow> if readable (user_config xdg home_dir) then [user_config xdg home_dir] else []
                | None \<Rightarrow> []) h;
              h \<leftarrow> load_all exec_file configs h;
              Some (h, True) } })"

definition plugins_shutdown :: "'f host \<Rightarrow> 'f host" where
  "plugins_shutdown h = (let (p, d, e) = h in (p, d, e\<lparr>python_enabled := False\<rparr>))"

subsection \<open>The arrays of the editor\<close>

abbreviation host_arrays :: "'f host \<Rightarrow> bool" where
  "host_arrays h \<equiv> arrays_ok (snd (snd h))"

abbreviation reply_arrays :: "'f reply \<Rightarrow> bool" where
  "reply_arrays r \<equiv> pred_option (\<lambda>(h, a). host_arrays h) r"

lemma reply_simps [simp]:
  "reply_arrays (error_result m h) = host_arrays h" "reply_arrays (py_none h) = host_arrays h"
  by (simp_all add: error_result_def py_none_def)

lemma reply_py_result: "keeps_sys r \<Longrightarrow> reply_arrays (py_result p r)"
  by (cases r) (auto simp: py_result_def)

lemma arrays_settings [simp]:
  "arrays_ok (e\<lparr>font := x\<rparr>) = arrays_ok e" "arrays_ok (e\<lparr>theme := x\<rparr>) = arrays_ok e" "arrays_ok (e\<lparr>colors := cs\<rparr>) = arrays_ok e"
  "arrays_ok (e\<lparr>show_highlight := f\<rparr>) = arrays_ok e" "arrays_ok (e\<lparr>python_enabled := f\<rparr>) = arrays_ok e"
  "arrays_ok (e\<lparr>colors := cs, theme := x\<rparr>) = arrays_ok e"
  by (simp_all add: arrays_defs)

lemma quiet_keeps: "plugins_keep w \<Longrightarrow> plugins_keep (quiet w)"
  by (simp add: plugins_keep_def quiet_def)

text \<open>Functions that only change settings, the point or the dictionaries.\<close>

lemma settings_keep:
  assumes e: "arrays_ok e"
  shows "reply_arrays (py_info (p, d, e))" "reply_arrays (py_text a z (p, d, e))" "reply_arrays (py_point k chars1 (p, d, e))"
    "reply_arrays (py_register name f (p, d, e))" "reply_arrays (py_bind key name m (p, d, e))"
    "reply_arrays (py_on name f (p, d, e))" "reply_arrays (py_option name v (p, d, e))"
    "reply_arrays (py_mode name x kd ws bs (p, d, e))" "reply_arrays (py_message name (p, d, e))" "reply_arrays (py_theme name cs (p, d, e))"
  using e by (simp_all add: py_info_def py_text_def py_point_def py_register_def py_bind_def py_on_def py_option_def py_mode_def
      py_message_def py_theme_def Let_def keep split: option.split)

lemma log_keeps:
  assumes e: "arrays_ok e" shows "reply_arrays (py_log name s (p, d, e))"
proof -
  define r where "r = (case find_last_index (\<lambda>b. buf_name b = name) (buffers e) of
      Some i \<Rightarrow> Some (e, Some i) | None \<Rightarrow> editor_new_buffer e name)"
  have "pred_option (\<lambda>(e, i). arrays_ok e) r"
    using e arrays_new_buffer [OF e] by (simp add: r_def split: option.split)
  then show ?thesis
    using e by (cases r) (auto simp: py_log_def Let_def r_def [symmetric] intro: pred_option_trivial split: option.split)
qed

text \<open>Every function of the module keeps the arrays in bounds.\<close>

lemma methods_keep:
  assumes w: "plugins_keep w" and h: "host_arrays h"
  shows "reply_arrays (methods w os n c h)"
proof -
  obtain p d e where he: "h = (p, d, e)" by (cases h) auto
  have e: "arrays_ok e" using h he by simp
  define w' where "w' = (if in_hook p then quiet w else w)"
  have w': "plugins_keep w'" using w quiet_keeps by (simp add: w'_def)
  have edits: "reply_arrays (py_replace w' at k s (p, d, e))" "reply_arrays (py_insert w' s (p, d, e))"
    "reply_arrays (py_set_text w' s (p, d, e))" "reply_arrays (py_open w' os s (p, d, e))" for at k s
    using w' e by (simp_all add: py_replace_def py_insert_def py_set_text_def py_open_def reply_py_result keep)
  have "arrays_ok (fst (snd (editor_save w' os d e s force)))" for s force using w' e by (simp add: keep)
  then have save: "reply_arrays (py_save w' os s force (p, d, e))" for s force
    by (simp add: py_save_def Let_def case_prod_beta reply_py_result)
  have command: "reply_arrays (py_command w' os n name arg count (p, d, e))" for name arg count
    using run_keeps [OF w' e] by (simp add: py_command_def editor_command_def reply_py_result)
  show ?thesis
    unfolding methods_def he fst_conv Let_def w'_def [symmetric]
    using settings_keep [OF e] log_keeps [OF e] edits save command by (cases c) simp_all
qed

subsection \<open>Functions as scripts\<close>

text \<open>
  What a Python runtime must keep so that hooks and commands keep an invariant of the editor:
  every function called keeps it, and it depends on neither the message nor the runtime's own state.
\<close>

locale python_runtime =
  fixes call :: "'f caller" and inv :: "'f host \<Rightarrow> bool"
  assumes call_law: "inv h \<Longrightarrow> pred_option (\<lambda>(h, r). inv h) (call f h)"
    and message_law: "inv (p, d, e) \<Longrightarrow> inv (p', d, editor_message m e)"
    and state_law: "inv (p, s) \<Longrightarrow> inv (p', s)"
begin

lemma report_keeps: "inv h \<Longrightarrow> inv (report_exception ctx m h)"
  by (cases h) (auto simp: report_exception_def intro: message_law)

lemma hooks_keep: "inv h \<Longrightarrow> pred_option (\<lambda>(h, r). inv h) (call_hooks call name strict fs h)"
proof (induction fs arbitrary: h strict)
  case (Cons f fs)
  have failed: "pred_option (\<lambda>x. pred_option (\<lambda>(h, r). inv h) (case x of (h, ok) \<Rightarrow> Some (h, False)))
      (call_hooks call name False fs (report_exception name m h))" if "inv h" for h m
    by (rule pred_option_weak [OF Cons.IH]) (use that in \<open>auto simp: report_keeps\<close>)
  show ?case
    unfolding call_hooks.simps pred_option_bind
    by (rule pred_option_weak [OF call_law [OF Cons.prems]])
      (auto simp: Let_def report_keeps intro!: Cons.IH failed split: option.split)
qed simp

lemma event_keeps:
  assumes "inv h" shows "pred_option (\<lambda>(h, r). inv h) (event call name strict h)"
proof -
  obtain p d e where h: "h = (p, d, e)" by (cases h) auto
  have "inv (p\<lparr>in_hook := True\<rparr>, d, e)" using assms state_law unfolding h by blast
  from hooks_keep [OF this] have "pred_option (\<lambda>(h, r). inv h) (call_hooks call name strict fs (p\<lparr>in_hook := True\<rparr>, d, e) \<bind>
      (\<lambda>((p, s), ok). Some ((p\<lparr>in_hook := False\<rparr>, s), ok \<or> \<not> strict)))" for fs
    unfolding pred_option_bind by (rule pred_option_weak) (auto intro: state_law)
  then show ?thesis using assms by (auto simp: event_def h split: option.split)
qed

lemma command_keeps:
  assumes "inv h" shows "pred_option (\<lambda>(h, r). inv h) (call_command call name arg n h)"
proof -
  obtain p d e where h: "h = (p, d, e)" by (cases h) auto
  have "inv (p', d, e)" for p' using assms state_law unfolding h by blast
  then have "pred_option (\<lambda>(h, r). inv h) (call f (p', d, e) \<bind>
      (\<lambda>(h, raised). case raised of None \<Rightarrow> Some (h, True) | Some msg \<Rightarrow> Some (report_exception name msg h, False)))" for f p'
    unfolding pred_option_bind by (rule pred_option_weak [OF call_law]) (auto simp: report_keeps split: option.split)
  then show ?thesis using assms by (auto simp: call_command_def h Let_def split: option.split)
qed

end

text \<open>A function that acts on the editor through the module only: each call's answer decides how it goes on.\<close>

datatype 'f script = Finish "bytes option" | Ask "'f api" "py_error + json \<Rightarrow> 'f script"

primrec run_script :: "World \<Rightarrow> Os \<Rightarrow> nat \<Rightarrow> 'f script \<Rightarrow> 'f host \<Rightarrow> ('f host \<times> bytes option) option" where
  "run_script w os n (Finish raised) = (\<lambda>h. Some (h, raised))"
| "run_script w os n (Ask c k) = (\<lambda>h. do { (h, a) \<leftarrow> methods w os n c h; run_script w os n (k a) h })"

lemma run_script_keeps:
  assumes "plugins_keep w" shows "host_arrays h \<Longrightarrow> pred_option (\<lambda>(h, r). host_arrays h) (run_script w os n sc h)"
proof (induction sc arbitrary: h)
  case (Ask c k)
  show ?case
    unfolding run_script.simps pred_option_bind
    by (rule pred_option_weak [OF methods_keep [OF assms Ask.prems]]) (auto intro!: Ask.IH)
qed simp

text \<open>The functions' bodies see the attributes \<open>argument_count\<close> and \<open>argument\<close>.\<close>

definition scripted :: "World \<Rightarrow> Os \<Rightarrow> nat \<Rightarrow> ('f \<Rightarrow> int \<Rightarrow> bytes option \<Rightarrow> 'f script) \<Rightarrow> 'f caller" where
  "scripted w os n bodies f h = run_script w os n (bodies f (argument_count (fst h)) (argument (fst h))) h"

interpretation scripts: python_runtime "scripted w os n bodies" "\<lambda>h. plugins_keep w \<longrightarrow> host_arrays h" for w os n bodies
proof unfold_locales
  show "pred_option (\<lambda>(h, r). plugins_keep w \<longrightarrow> host_arrays h) (scripted w os n bodies f h)"
    if "plugins_keep w \<longrightarrow> host_arrays h" for h f
  proof (cases "plugins_keep w")
    case True
    then show ?thesis
      using that run_script_keeps [OF True, of h] by (simp add: scripted_def)
  qed (simp add: pred_option_trivial)
qed (simp_all add: keep)

text \<open>The world of an editor whose plugins are the functions registered in \<open>p\<close>; what they do to the disk and to the
  registrations is left out.\<close>

definition editor_of :: "Editor \<Rightarrow> ('f host \<times> bool) option \<Rightarrow> Editor \<times> bool" where
  "editor_of e r = (case r of Some ((p', d', e'), ok) \<Rightarrow> (e', ok) | None \<Rightarrow> (e, True))"

definition hosted :: "World \<Rightarrow> 'f caller \<Rightarrow> 'f Python \<Rightarrow> Disk \<Rightarrow> World" where
  "hosted w call p d = w\<lparr>hook := \<lambda>name e. fst (editor_of e (event call name False (p, d, e))),
     before_save_hook := \<lambda>e. editor_of e (event call (lit ''before_save'') True (p, d, e)),
     python_command := \<lambda>name arg n e. editor_of e (call_command call name arg n (p, d, e)),
     python_command_names := \<lambda>e. command_names (p, d, e)\<rparr>"

lemma editor_of_keeps: "arrays_ok e \<Longrightarrow> pred_option (\<lambda>(h, r). host_arrays h) r \<Longrightarrow> arrays_ok (fst (editor_of e r))"
  by (cases r) (auto simp: editor_of_def)

lemma hosted_keeps:
  assumes "plugins_keep w" shows "plugins_keep (hosted w (scripted w os n bodies) p d)"
proof -
  have "pred_option (\<lambda>(h, r). host_arrays h) (event (scripted w os n bodies) name strict (p, d, e))"
    "pred_option (\<lambda>(h, r). host_arrays h) (call_command (scripted w os n bodies) name arg k (p, d, e))"
    if "arrays_ok e" for e name strict arg k
    using scripts.event_keeps [of w "(p, d, e)"] scripts.command_keeps [of w "(p, d, e)"] assms that by simp_all
  then show ?thesis unfolding plugins_keep_def hosted_def by (simp add: editor_of_keeps)
qed


text \<open>Plugins that call plugin commands of their own, \<open>k\<close> levels deep.\<close>

primrec plugin_world :: "World \<Rightarrow> Os \<Rightarrow> nat \<Rightarrow> ('f \<Rightarrow> int \<Rightarrow> bytes option \<Rightarrow> 'f script) \<Rightarrow> 'f Python \<Rightarrow> Disk \<Rightarrow> nat \<Rightarrow> World" where
  "plugin_world w os n bodies p d 0 = w"
| "plugin_world w os n bodies p d (Suc k) = (let w = plugin_world w os n bodies p d k in hosted w (scripted w os n bodies) p d)"

lemma plugin_world_keeps: "plugins_keep w \<Longrightarrow> plugins_keep (plugin_world w os n bodies p d k)"
  by (induction k) (simp_all add: Let_def hosted_keeps)

subsection \<open>The buffers\<close>

text \<open>The calls that act on buffers directly, and the bytes they add to one.\<close>

definition direct :: "'f api \<Rightarrow> bool" where
  "direct c = (case c of Run _ _ _ \<Rightarrow> False | Open_file _ \<Rightarrow> False | Save_file _ _ \<Rightarrow> False | _ \<Rightarrow> True)"

definition added_bytes :: "'f api \<Rightarrow> bytes" where
  "added_bytes c = (case c of Replace _ _ s \<Rightarrow> s | Insert s \<Rightarrow> s | Set_text s \<Rightarrow> s | _ \<Rightarrow> [])"

definition hooks_keep_buffers :: "World \<Rightarrow> bool" where
  "hooks_keep_buffers w \<longleftrightarrow> (\<forall>n e. ed_inv e \<longrightarrow> ed_inv (hook w n e))"

lemma event_keeps_buffers: "hooks_keep_buffers w \<Longrightarrow> ed_inv e \<Longrightarrow> ed_inv (plugins_event w e n)"
  by (simp add: hooks_keep_buffers_def plugins_event_def)

lemma replace_keeps_buffers:
  assumes w: "hooks_keep_buffers w" and inv: "ed_inv e"
    and room: "length (added (buf_text (editor_buffer e))) + length s < size_max"
  shows "\<exists>e' ok. editor_replace w e at n s = Some (e', ok) \<and> ed_inv e'"
proof (cases "replace_ok (editor_buffer e) at n s")
  case True
  note ok = True [unfolded editor_replace_checks [OF ed_inv_buffer [OF inv]]]
  obtain b where b: "replace_in at n s (group e) (next_state e + 1) (editor_buffer e) = Some b" "buf_inv b"
    using replace_in_ok [OF ed_inv_buffer [OF inv] _ _ _ room] True unfolding replace_ok_def by meson
  have "ed_inv (upd_current (\<lambda>_. b) (e\<lparr>next_state := next_state e + 1\<rparr>))" using b(2) inv by (intro ed_inv_upd) simp_all
  then show ?thesis
    using ok b(1) inv event_keeps_buffers [OF w] by (auto simp: editor_replace_def Let_def)
next
  case False
  then show ?thesis using editor_replace_refused [OF inv False, of w] inv by auto
qed

lemma set_text_keeps_buffers:
  assumes "hooks_keep_buffers w" "ed_inv e" "length (added (buf_text (editor_buffer e))) + length s < size_max"
  shows "\<exists>e' ok. editor_set_text w e s = Some (e', ok) \<and> ed_inv e'"
proof -
  have "\<exists>e' ok. editor_replace w e at n (seg a k s) = Some (e', ok) \<and> ed_inv e'" for at n a k
    using assms by (intro replace_keeps_buffers) simp_all
  then show ?thesis using assms(2) ed_inv_message by (auto simp: editor_set_text_def Let_def simp del: not_ex ex_simps)
qed

lemma ed_inv_buf: "ed_inv e \<Longrightarrow> (\<And>b. b \<in> set (buffers e) \<Longrightarrow> buf_inv b \<Longrightarrow> buf_inv (f b)) \<Longrightarrow> ed_inv (upd_buf i f e)"
proof -
  assume e: "ed_inv e" and f: "\<And>b. b \<in> set (buffers e) \<Longrightarrow> buf_inv b \<Longrightarrow> buf_inv (f b)"
  show "ed_inv (upd_buf i f e)"
  proof (cases "i < length (buffers e)")
    case True
    then have "buf_inv (f (buffers e ! i))" using f e by (simp add: ed_inv_def)
    then show ?thesis using e by (auto simp: ed_inv_def upd_buf_def dest: set_update_subset_insert [THEN subsetD])
  qed (use e in \<open>simp add: upd_buf_def ed_inv_def not_less list_update_beyond\<close>)
qed

lemma buf_inv_settings [simp]:
  "buf_inv (b\<lparr>tab_width := n, column_cache := c, seek_cache := c'\<rparr>) = buf_inv b" "buf_inv (b\<lparr>indent_width := n\<rparr>) = buf_inv b"
  "buf_inv (b\<lparr>auto_indent := x\<rparr>) = buf_inv b" "buf_inv (b\<lparr>buf_mode := m, buf_syntax := sy, lex_valid := v\<rparr>) = buf_inv b"
  by (simp_all add: buf_inv_def history_inv_def origin_def version_def)

lemma ed_inv_settings [simp]:
  "ed_inv (e\<lparr>font_size := i\<rparr>) = ed_inv e" "ed_inv (e\<lparr>show_line_numbers := x\<rparr>) = ed_inv e" "ed_inv (e\<lparr>show_highlight := x\<rparr>) = ed_inv e"
  "ed_inv (e\<lparr>font := f\<rparr>) = ed_inv e" "ed_inv (e\<lparr>colors := cs, theme := t\<rparr>) = ed_inv e" "ed_inv (editor_bind e k c m) = ed_inv e"
  by (simp_all add: ed_inv_def editor_bind_def split: option.split)

definition keeps_host :: "Disk \<Rightarrow> 'f reply \<Rightarrow> bool" where
  "keeps_host d r \<longleftrightarrow> (\<exists>p e a. r = Some ((p, d, e), a) \<and> ed_inv e)"

lemma keeps_host_simps [simp]:
  "keeps_host d (error_result m (p, d', e)) \<longleftrightarrow> d' = d \<and> ed_inv e" "keeps_host d (py_none (p, d', e)) \<longleftrightarrow> d' = d \<and> ed_inv e"
  "keeps_host d (Some ((p, d', e), a)) \<longleftrightarrow> d' = d \<and> ed_inv e"
  by (auto simp: keeps_host_def error_result_def py_none_def)

lemma keeps_host_result: "\<exists>e' ok. r = Some (e', ok) \<and> ed_inv e' \<Longrightarrow> keeps_host d (py_result p (on_disk d r))"
  by (auto simp: py_result_def on_disk_def)

lemma settings_keep_buffers:
  assumes e: "ed_inv e"
  shows "keeps_host d (py_info (p, d, e))" "keeps_host d (py_text a z (p, d, e))"
    "keeps_host d (py_register name f (p, d, e))" "keeps_host d (py_bind key name m (p, d, e))"
    "keeps_host d (py_on name f (p, d, e))" "keeps_host d (py_option name v (p, d, e))"
    "keeps_host d (py_mode name x kd ws bs (p, d, e))" "keeps_host d (py_message name (p, d, e))" "keeps_host d (py_theme name cs (p, d, e))"
  using e by (simp_all add: py_info_def py_text_def py_register_def py_bind_def py_on_def py_option_def py_mode_def
      py_message_def py_theme_def Let_def ed_inv_buf split: option.split)

lemma point_keeps_buffers:
  assumes e: "ed_inv e" shows "keeps_host d (py_point k in_chars (p, d, e))"
proof -
  note I = buf_invD [OF ed_inv_buffer [OF e]]
  have "ed_inv (set_point (current e) at e)" if "text_boundary (buf_text (editor_buffer e)) at" for at
    using that ed_inv_upd [OF e, of "editor_buffer e\<lparr>point := at\<rparr>"] ed_inv_buffer [OF e] I(1)
    by (simp add: set_point_def text_boundary_content upd_buf_def editor_buffer_def)
  with e show ?thesis by (simp add: py_point_def Let_def)
qed

lemma log_keeps_buffers:
  assumes e: "ed_inv e" shows "keeps_host d (py_log name s (p, d, e))"
proof (cases "utf8_valid s")
  case True
  obtain t where t: "text_init s = Some t" "text_inv t" "text_content t = s" using text_init_ok [OF True] by blast
  obtain u where u: "text_init [] = Some u" "text_inv u" using text_init_ok [of "[]"] by auto
  have new: "\<exists>e' i. editor_new_buffer e name = Some (e', i) \<and> ed_inv e'"
    using e blank_buffer_inv [OF u(2) refl] by (auto simp: editor_new_buffer_def ed_inv_def editor_message_def u(1) Let_def)
  define r where "r = (case find_last_index (\<lambda>b. buf_name b = name) (buffers e) of
      Some i \<Rightarrow> Some (e, Some i) | None \<Rightarrow> editor_new_buffer e name)"
  obtain e1 i where r: "r = Some (e1, i)" "ed_inv e1"
    using e new that by (cases "find_last_index (\<lambda>b. buf_name b = name) (buffers e)") (auto simp: r_def)
  have fresh: "buf_inv (b\<lparr>buf_text := t, point := 0, mark := 0, mark_active := False, has_mark := False, history := [], history_pos := 0,
      column_cache := c, seek_cache := c', revision := x, saved_state := n, buf_state := n, readonly := True, lex_valid := 0\<rparr>)" for b c c' x n
    using t True by (simp add: buf_inv_def history_inv_def origin_def version_def)
  show ?thesis
  proof (cases i)
    case None
    then show ?thesis using r by (simp add: py_log_def True r_def [symmetric])
  next
    case (Some j)
    have "ed_inv (upd_buf j (\<lambda>b. b\<lparr>buf_text := t, point := 0, mark := 0, mark_active := False, has_mark := False, history := [], history_pos := 0,
        column_cache := (column_cache b)\<lparr>valid := False\<rparr>, seek_cache := (seek_cache b)\<lparr>valid := False\<rparr>, revision := revision b + 1,
        saved_state := n, buf_state := n, readonly := True, lex_valid := 0\<rparr>) (e1\<lparr>next_state := n\<rparr>))" for n
      using r(2) fresh by (intro ed_inv_buf) simp_all
    then show ?thesis using r Some t(1) by (simp add: py_log_def True r_def [symmetric] Let_def)
  qed
qed (use e in \<open>simp add: py_log_def\<close>)

subsection \<open>The settings\<close>

definition buffer_settings_ok :: "Buffer \<Rightarrow> bool" where
  "buffer_settings_ok b \<longleftrightarrow> 1 \<le> tab_width b \<and> tab_width b \<le> 64 \<and> 1 \<le> indent_width b \<and> indent_width b \<le> 64 \<and>
     length (buf_mode b) < 80 \<and> 0 \<le> kind (buf_syntax b) \<and> kind (buf_syntax b) \<le> 5"

definition binding_ok :: "Binding \<Rightarrow> bool" where
  "binding_ok k \<longleftrightarrow> length (bind_key k) < 100 \<and> length (bind_command k) < 100 \<and> length (bind_mode k) < 80"

definition settings_ok :: "Editor \<Rightarrow> bool" where
  "settings_ok e \<longleftrightarrow> (\<forall>b \<in> set (buffers e). buffer_settings_ok b) \<and> 1 \<le> font_size e \<and> font_size e \<le> 64 \<and>
     length (font e) < 128 \<and> length (theme e) < 32 \<and> length (colors e) = 10 \<and> (\<forall>c \<in> set (colors e). c \<le> 0xffffff) \<and>
     (\<forall>k \<in> set (bindings e). binding_ok k)"

definition hooks_keep_settings :: "World \<Rightarrow> bool" where
  "hooks_keep_settings w \<longleftrightarrow> (\<forall>n e. settings_ok e \<longrightarrow> settings_ok (hook w n e))"

lemma settings_event: "hooks_keep_settings w \<Longrightarrow> settings_ok e \<Longrightarrow> settings_ok (plugins_event w e n)"
  by (simp add: hooks_keep_settings_def plugins_event_def)

lemma settings_fields [simp]:
  "settings_ok (editor_message m e) = settings_ok e" "settings_ok (e\<lparr>next_state := n\<rparr>) = settings_ok e"
  "settings_ok (e\<lparr>show_line_numbers := x\<rparr>) = settings_ok e" "settings_ok (e\<lparr>show_highlight := x\<rparr>) = settings_ok e"
  by (simp_all add: settings_ok_def editor_message_def)

lemma settings_buf:
  assumes "settings_ok e" "\<And>b. buffer_settings_ok b \<Longrightarrow> buffer_settings_ok (f b)" shows "settings_ok (upd_buf i f e)"
proof (cases "i < length (buffers e)")
  case True
  then have "buffer_settings_ok (f (buffers e ! i))" using assms by (simp add: settings_ok_def)
  then show ?thesis using assms(1) by (auto simp: settings_ok_def upd_buf_def dest: set_update_subset_insert [THEN subsetD])
qed (use assms(1) in \<open>simp add: upd_buf_def settings_ok_def not_less list_update_beyond\<close>)

lemma lex_keeps_settings:
  "tab_width (editor_lex_invalidate at b) = tab_width b" "indent_width (editor_lex_invalidate at b) = indent_width b"
  "buf_mode (editor_lex_invalidate at b) = buf_mode b" "buf_syntax (editor_lex_invalidate at b) = buf_syntax b"
  by (simp_all add: editor_lex_invalidate_def Let_def)

lemma settings_replace_in:
  assumes "replace_in at n s g st b = Some b'" shows "buffer_settings_ok b' = buffer_settings_ok b"
proof (cases "text_insert (snd (text_delete (buf_text b) at n)) at s")
  case (Some x)
  then obtain ok t where "text_insert (snd (text_delete (buf_text b) at n)) at s = Some (ok, t)" by (cases x) simp
  then have "tab_width b' = tab_width b \<and> indent_width b' = indent_width b \<and> buf_mode b' = buf_mode b \<and> buf_syntax b' = buf_syntax b"
    using assms by (auto simp: replace_in_def Let_def lex_keeps_settings)
  then show ?thesis by (simp add: buffer_settings_ok_def)
qed (use assms in \<open>simp add: replace_in_def Let_def\<close>)

abbreviation reply_settings :: "'f reply \<Rightarrow> bool" where
  "reply_settings r \<equiv> pred_option (\<lambda>(h, a). settings_ok (snd (snd h))) r"

lemma reply_settings_simps [simp]:
  "reply_settings (error_result m h) = settings_ok (snd (snd h))" "reply_settings (py_none h) = settings_ok (snd (snd h))"
  by (simp_all add: error_result_def py_none_def)

lemma settings_result: "pred_option (\<lambda>(e, ok). settings_ok e) r \<Longrightarrow> reply_settings (py_result p (on_disk d r))"
  by (cases r) (auto simp: py_result_def on_disk_def)

lemma settings_replace:
  assumes w: "hooks_keep_settings w" and e: "settings_ok e" "current e < length (buffers e)"
  shows "pred_option (\<lambda>(e, ok). settings_ok e) (editor_replace w e at n s)"
proof -
  have "settings_ok (plugins_event w (upd_current (\<lambda>_. b) (e\<lparr>next_state := m\<rparr>)) name)"
    if "replace_in at n s g st (editor_buffer e) = Some b" for g st b m name
  proof -
    have "buffer_settings_ok b" using settings_replace_in [OF that] e by (simp add: settings_ok_def editor_buffer_def)
    then show ?thesis using e by (intro settings_event [OF w] settings_buf) simp_all
  qed
  then have "pred_option (\<lambda>b. settings_ok (plugins_event w (upd_current (\<lambda>_. b) (e\<lparr>next_state := m\<rparr>)) name))
      (replace_in at n s g st (editor_buffer e))" for g st m name
    by (cases "replace_in at n s g st (editor_buffer e)") simp_all
  then show ?thesis using e by (simp add: editor_replace_def Let_def)
qed

lemma settings_buffer_options:
  assumes e: "settings_ok e"
  shows "settings_ok (upd_current (\<lambda>b. b\<lparr>readonly := f\<rparr>) e)" "settings_ok (upd_current (\<lambda>b. b\<lparr>auto_indent := f\<rparr>) e)"
    "\<not> (k < 1 \<or> 64 < k) \<Longrightarrow> settings_ok (upd_current (\<lambda>b. b\<lparr>indent_width := nat k\<rparr>) e)"
    "\<not> (k < 1 \<or> 64 < k) \<Longrightarrow> settings_ok (upd_current (\<lambda>b. b\<lparr>tab_width := nat k,
       column_cache := (column_cache b)\<lparr>valid := False\<rparr>, seek_cache := (seek_cache b)\<lparr>valid := False\<rparr>\<rparr>) e)"
proof -
  show "settings_ok (upd_current (\<lambda>b. b\<lparr>readonly := f\<rparr>) e)" "settings_ok (upd_current (\<lambda>b. b\<lparr>auto_indent := f\<rparr>) e)"
    by (rule settings_buf [OF e], simp add: buffer_settings_ok_def)+
  assume "\<not> (k < 1 \<or> 64 < k)"
  then have k: "1 \<le> nat k \<and> nat k \<le> 64" by linarith
  show "settings_ok (upd_current (\<lambda>b. b\<lparr>indent_width := nat k\<rparr>) e)"
    "settings_ok (upd_current (\<lambda>b. b\<lparr>tab_width := nat k,
       column_cache := (column_cache b)\<lparr>valid := False\<rparr>, seek_cache := (seek_cache b)\<lparr>valid := False\<rparr>\<rparr>) e)"
    by (rule settings_buf [OF e], use k in \<open>simp add: buffer_settings_ok_def\<close>)+
qed

lemma settings_appearance:
  assumes "settings_ok e"
  shows "settings_ok (e\<lparr>font := take 127 s\<rparr>)" "\<not> (k < 1 \<or> 64 < k) \<Longrightarrow> settings_ok (e\<lparr>font_size := k\<rparr>)"
    "length cs = 10 \<Longrightarrow> \<forall>c \<in> set cs. c \<le> 0xffffff \<Longrightarrow> settings_ok (e\<lparr>colors := cs, theme := take 31 s\<rparr>)"
  using assms by (simp_all add: settings_ok_def)

lemma settings_option:
  assumes e: "settings_ok e" shows "reply_settings (py_option name v (p, d, e))"
  by (simp add: py_option_def Let_def e settings_buffer_options [OF e] settings_appearance [OF e] split: option.split)

lemma settings_bind:
  assumes e: "settings_ok e" shows "settings_ok (editor_bind e k c m)"
proof -
  have set: "settings_ok (e\<lparr>bindings := bs\<rparr>)" if "\<forall>k \<in> set bs. binding_ok k" for bs
    using e that by (simp add: settings_ok_def)
  have old: "\<forall>k \<in> set (bindings e). binding_ok k" using e by (simp add: settings_ok_def)
  have new: "binding_ok \<lparr>bind_key = k, bind_command = c, bind_mode = m\<rparr>" if "\<not> (100 \<le> length k \<or> 100 \<le> length c \<or> 80 \<le> length m)"
    using that by (simp add: binding_ok_def)
  have upd: "settings_ok (e\<lparr>bindings := (bindings e)[i := (bindings e ! i)\<lparr>bind_command := c\<rparr>]\<rparr>)"
    if i: "i < length (bindings e)" and c: "\<not> 100 \<le> length c" for i
  proof (rule set)
    have "binding_ok ((bindings e ! i)\<lparr>bind_command := c\<rparr>)" using old nth_mem [OF i] c by (simp add: binding_ok_def)
    then show "\<forall>k \<in> set ((bindings e)[i := (bindings e ! i)\<lparr>bind_command := c\<rparr>]). binding_ok k"
      using old set_update_subset_insert [of "bindings e" i] by blast
  qed
  show ?thesis
  proof (cases "100 \<le> length k \<or> 100 \<le> length c \<or> 80 \<le> length m")
    case False
    show ?thesis
    proof (cases "find_index (\<lambda>b. bind_key b = k \<and> bind_mode b = m) (bindings e)")
      case None
      then show ?thesis using False set [of "bindings e @ [_]"] old new by (simp add: editor_bind_def)
    next
      case (Some i)
      then show ?thesis using False upd [of i] find_index_Some [OF Some] by (simp add: editor_bind_def)
    qed
  qed (use e in \<open>auto simp: editor_bind_def\<close>)
qed

lemma settings_theme:
  assumes e: "settings_ok e" shows "reply_settings (py_theme name cs (p, d, e))"
proof (cases cs)
  case (Some xs)
  have "\<forall>c \<in> set (map the xs). c \<le> 0xffffff" if "find bad_color xs = None"
    using that by (auto simp: find_None_iff bad_color_def split: option.splits)
  then have "settings_ok (e\<lparr>colors := map the xs, theme := take 31 name\<rparr>)" if "find bad_color xs = None" "length xs = 10"
    using that by (intro settings_appearance(3) [OF e]) simp_all
  then show ?thesis using e Some by (simp add: py_theme_def split: option.split)
qed (use e in \<open>simp add: py_theme_def\<close>)

lemma settings_options:
  assumes e: "settings_ok e"
  shows "reply_settings (py_option name v (p, d, e))" "reply_settings (py_mode name x kd ws bs (p, d, e))"
    "reply_settings (py_bind key name m (p, d, e))" "reply_settings (py_theme name cs (p, d, e))"
  using e settings_option settings_bind settings_theme settings_buf [OF e]
  by (simp_all add: py_mode_def py_bind_def Let_def buffer_settings_ok_def)

lemma settings_log:
  assumes e: "settings_ok e" shows "reply_settings (py_log name s (p, d, e))"
proof -
  have blank: "buffer_settings_ok (blank_buffer i nm t)" for i nm t by (simp add: buffer_settings_ok_def blank_buffer_def lit_def)
  define r where "r = (case find_last_index (\<lambda>b. buf_name b = name) (buffers e) of
      Some i \<Rightarrow> Some (e, Some i) | None \<Rightarrow> editor_new_buffer e name)"
  have "settings_ok (e\<lparr>next_id := i, buffers := buffers e @ [blank_buffer i nm t]\<rparr>)" for i nm t
    using e blank by (auto simp: settings_ok_def)
  then have "pred_option (\<lambda>(e, i). settings_ok e) r"
    using e by (auto simp: r_def editor_new_buffer_def Let_def split: option.split bind_splits intro: pred_option_trivial)
  moreover have "settings_ok (upd_buf i (\<lambda>b. b\<lparr>buf_text := t, point := 0, mark := 0, mark_active := False, has_mark := False,
      history := [], history_pos := 0, column_cache := c1 b, seek_cache := c2 b, revision := rv b, saved_state := n, buf_state := n,
      readonly := True, lex_valid := 0\<rparr>) (e1\<lparr>next_state := n\<rparr>))" if "settings_ok e1" for i t c1 c2 rv n e1
    using that by (intro settings_buf) (simp_all add: buffer_settings_ok_def)
  ultimately show ?thesis
    using e by (cases r) (auto simp: py_log_def Let_def r_def [symmetric] split: option.split bind_splits intro: pred_option_trivial)
qed

subsection \<open>Properties\<close>



text \<open>C30 The settings keep their types under every call that acts on buffers directly: tab and indent widths and the
  font size between 1 and 64, ten 24-bit colours, a known kind of syntax, and every name within its array.\<close>

theorem api_keeps_settings:
  assumes w: "hooks_keep_settings w" and e: "settings_ok e" "current e < length (buffers e)" and c: "direct c"
    and r: "methods w os n c (p, d, e) = Some ((p', d', e'), a)"
  shows "settings_ok e'"
proof -
  define w' where "w' = (if in_hook p then quiet w else w)"
  have w': "hooks_keep_settings w'" using w by (simp add: w'_def hooks_keep_settings_def quiet_def)
  note edit = settings_replace [OF w' e]
  have "pred_option (\<lambda>(e, ok). settings_ok e) (editor_set_text w' e s)" for s
    using edit e by (simp add: editor_set_text_def Let_def)
  moreover have "reply_settings (py_point k f (p, d, e))" for k f
    using e by (auto simp: py_point_def Let_def set_point_def buffer_settings_ok_def intro!: settings_buf)
  ultimately have "reply_settings (methods w os n c (p, d, e))"
    unfolding methods_def fst_conv Let_def w'_def [symmetric]
    using settings_options [OF e(1)] settings_log [OF e(1)] edit e c
    by (cases c) (simp_all add: direct_def py_info_def py_text_def py_replace_def py_insert_def py_set_text_def editor_insert_def
      py_register_def py_on_def py_message_def settings_result Let_def split: option.split)
  with r show ?thesis by simp
qed

definition noisy_script :: "nat \<Rightarrow> int \<Rightarrow> bytes option \<Rightarrow> nat script" where
  "noisy_script f n arg = Ask (Insert [120]) (\<lambda>a. case a of Inl _ \<Rightarrow> Finish (Some (lit ''no'')) | Inr _ \<Rightarrow> Ask (Message (lit ''done'')) (\<lambda>_. Finish None))"

definition sample_python :: "nat Python" where
  "sample_python = \<lparr>in_hook = False, python_commands = [(lit ''noisy'', 0)], python_hooks = [(lit ''before_save'', [1, 2])],
     argument_count = 1, argument = None\<rparr>"



lemma sample_settings: "settings_ok sample_editor"
proof -
  have "buffer_settings_ok sample_buffer"
    unfolding buffer_settings_ok_def sample_buffer_def blank_buffer_def by (simp add: lit_def)
  then show ?thesis unfolding settings_ok_def sample_editor_def blank_editor_def by (simp add: lit_def)
qed

theorem api_keeps_settings_witness:
  "\<exists>e'. methods sample_world sample_os 1 (Set_theme [116] (Some (replicate 10 (Some 0x808080)))) (sample_python, empty_disk, sample_editor) =
      Some ((sample_python, empty_disk, e'), Inr JNull) \<and> settings_ok e' \<and> colors e' = replicate 10 0x808080"
proof -
  let ?e = "sample_editor\<lparr>colors := replicate 10 0x808080, theme := [116]\<rparr>"
  have "find bad_color (replicate 10 (Some 0x808080)) = None" by (simp add: find_None_iff bad_color_def)
  then have r: "methods sample_world sample_os 1 (Set_theme [116] (Some (replicate 10 (Some 0x808080)))) (sample_python, empty_disk, sample_editor) =
      Some ((sample_python, empty_disk, ?e), Inr JNull)"
    by (simp add: methods_def py_theme_def py_none_def)
  have "hooks_keep_settings sample_world" by (simp add: hooks_keep_settings_def sample_world_def)
  moreover have "current sample_editor < length (buffers sample_editor)" using sample_editor_inv by (simp add: ed_inv_def)
  ultimately have "settings_ok ?e" using api_keeps_settings [OF _ sample_settings _ _ r] by (simp add: direct_def)
  then show ?thesis unfolding r by simp
qed

text \<open>Reading: a range between character boundaries comes back exactly, any other is refused; the interpreter never fails to decode it.\<close>

lemma py_text_correct:
  fixes a z :: int
  assumes e: "ed_inv e"
  defines "xs \<equiv> content (editor_buffer e)"
  defines "z' \<equiv> (if z < 0 then int (length xs) else z)"
  shows "py_text a z (p, d, e) =
    (if 0 \<le> a \<and> a \<le> z' \<and> boundary xs (nat a) \<and> boundary xs (nat z')
     then Some ((p, d, e), Inr (JString (seg (nat a) (nat (z' - a)) xs)))
     else error_result (lit ''Invalid UTF-8 byte range'') (p, d, e))"
proof -
  note I = buf_invD [OF ed_inv_buffer [OF e]]
  have size: "text_size (buf_text (editor_buffer e)) = length xs" unfolding xs_def by (rule text_size_content [OF I(1)])
  have valid: "utf8_valid (seg (nat a) (nat (z' - a)) xs)" if "0 \<le> a" "a \<le> z'" "boundary xs (nat a)" "boundary xs (nat z')"
  proof -
    have "nat a + nat (z' - a) = nat z'" using that(1,2) by simp
    then show ?thesis using valid_seg [of xs "nat a" "nat (z' - a)"] I(5) that(3,4) by (simp add: xs_def)
  qed
  show ?thesis
    unfolding py_text_def prod.case Let_def size text_slice_ok [OF I(1)] text_boundary_content [OF I(1)] xs_def [symmetric] z'_def [symmetric]
    using valid boundary_le [of xs "nat z'"] by auto
qed

subsection \<open>Hooks\<close>

text \<open>Calling functions in order while none raises.\<close>

fun all_return :: "'f caller \<Rightarrow> 'f list \<Rightarrow> 'f host \<Rightarrow> 'f host option" where
  "all_return call [] h = Some h"
| "all_return call (f # fs) h = (case call f h of Some (h, None) \<Rightarrow> all_return call fs h | _ \<Rightarrow> None)"

lemma strict_hooks_iff: "call_hooks call name True fs h = Some (h', True) \<longleftrightarrow> all_return call fs h = Some h'"
  by (induction fs arbitrary: h) (auto simp: Let_def split: option.split bind_splits)

lemma strict_hooks_raise:
  assumes "all_return call fs h = Some h1" "call f h1 = Some (h2, Some msg)"
  shows "call_hooks call name True (fs @ f # gs) h = Some (report_exception name msg h2, False)"
  using assms by (induction fs arbitrary: h) (auto simp: Let_def split: option.splits)

text \<open>Other events call every function, whatever the ones before it raised, and never refuse.\<close>

definition hook_step :: "'f caller \<Rightarrow> bytes \<Rightarrow> 'f \<Rightarrow> 'f host \<Rightarrow> 'f host option" where
  "hook_step call name f h = map_option (\<lambda>(h, raised). case raised of None \<Rightarrow> h | Some msg \<Rightarrow> report_exception name msg h) (call f h)"

fun each_hook :: "'f caller \<Rightarrow> bytes \<Rightarrow> 'f list \<Rightarrow> 'f host \<Rightarrow> 'f host option" where
  "each_hook call name [] h = Some h"
| "each_hook call name (f # fs) h = do { h \<leftarrow> hook_step call name f h; each_hook call name fs h }"

lemma lenient_hooks: "map_option fst (call_hooks call name False fs h) = each_hook call name fs h"
proof (induction fs arbitrary: h)
  case (Cons f fs)
  have failed: "map_option fst (call_hooks call name False fs x \<bind> (\<lambda>(h, ok). Some (h, False))) = each_hook call name fs x" for x
    unfolding Cons.IH [symmetric] by (cases "call_hooks call name False fs x") auto
  show ?case
  proof (cases "call f h")
    case (Some x)
    then obtain h1 r where "call f h = Some (h1, r)" by (cases x) simp
    then show ?thesis using Cons.IH [of h1] failed by (cases r) (simp_all add: hook_step_def Let_def)
  qed (simp add: hook_step_def)
qed simp

text \<open>C12 A \<open>before_save\<close> hook that raises stops the save: no later hook is called, nothing is written, no buffer is
  marked saved, and the exception is shown.\<close>

theorem raising_hook_stops_save:
  assumes check: "save_check os d (editor_buffer e) name force = Inr file" and on: "python_enabled e" "\<not> in_hook p"
    and hooks: "map_of (python_hooks p) (lit ''before_save'') = Some (fs @ f # gs)"
    and before: "all_return call fs (p\<lparr>in_hook := True\<rparr>, d, e) = Some h1"
    and raises: "call f h1 = Some ((p2, d2, e2), Some msg)"
  shows "editor_save (hosted w call p d) os d e name force = (d, editor_message (lit ''before_save'' @ lit '': '' @ msg) e2, False)"
proof -
  have "event call (lit ''before_save'') True (p, d, e) =
      Some ((p2\<lparr>in_hook := False\<rparr>, d2, editor_message (lit ''before_save'' @ lit '': '' @ msg) e2), False)"
    using on hooks strict_hooks_raise [OF before raises, of "lit ''before_save''" gs] by (simp add: event_def report_exception_def)
  then show ?thesis
    using check on(1) by (simp add: editor_save_def plugins_before_save_def hosted_def editor_of_def)
qed

text \<open>Inside a hook no event calls further hooks, and the flag is clear again afterwards.\<close>

lemma no_nested_hooks: "in_hook p \<Longrightarrow> event call name strict (p, s) = Some ((p, s), True)"
  by (cases s) (simp add: event_def)

lemma event_leaves_hook:
  assumes "event call name strict (p, s) = Some ((p', s'), ok)" "\<not> in_hook p"
  shows "\<not> in_hook p'"
  using assms by (cases s) (auto simp: event_def split: if_splits option.splits bind_splits)

theorem raising_hook_stops_save_witness:
  "editor_save (hosted sample_world (\<lambda>f h. Some (h, if f = (2::nat) then Some [120] else None)) sample_python empty_disk)
      sample_os empty_disk (sample_editor\<lparr>python_enabled := True\<rparr>) (Some (lit ''/f'')) False =
    (empty_disk, editor_message (lit ''before_save'' @ lit '': '' @ [120]) (sample_editor\<lparr>python_enabled := True\<rparr>), False)"
proof -
  let ?e = "sample_editor\<lparr>python_enabled := True\<rparr>"
  have "editor_buffer ?e = sample_buffer" by (simp add: editor_buffer_def sample_editor_def blank_editor_def)
  then have "save_check sample_os empty_disk (editor_buffer ?e) (Some (lit ''/f'')) False = Inr (absolute_path sample_os (lit ''/f''))"
    by (simp add: save_check_def sample_buffer_simps refuse_save_def Let_def)
  then show ?thesis
    by (rule raising_hook_stops_save [where fs = "[1]" and f = 2 and gs = "[]" and p = sample_python])
      (simp_all add: sample_python_def)
qed

end
