(* ===== verification/Gui.thy ===== *)
theory Gui
  imports Tui
begin

section \<open>The X11 front end (\<open>src/gui_x11.c\<close>)\<close>

text \<open>
  The window draws snapshots and turns events into requests. What it asks of the X server is a list of
  calls; what the server and the input method answer comes with the events or from a
  parameter. \<open>None\<close> is a failed assertion of json-c or a division by zero.
\<close>

subsection \<open>State\<close>

datatype x_data = Atoms "nat list" | Bytes bytes | Size nat

datatype x_call = Clip int int int int | Unclip | Fill int int int int nat | Draw_utf8 int int bytes nat
  | Draw_ascii int int bytes nat | Outline int int int int nat | Copy_area int int | Store_name bytes
  | Own_selection nat | Convert_selection nat | Change_property nat nat nat x_data | Select_property_changes nat
  | Delete_property nat nat | Send_notify nat nat nat nat | Complain bytes

text \<open>What the server, the fonts and the locale answer, and the atoms.\<close>

record Xserver =
  xtty :: Tty
  alloc_color :: "nat \<Rightarrow> nat \<Rightarrow> nat \<Rightarrow> nat option"
  black_pixel :: nat
  white_pixel :: nat
  fontset :: "bytes \<Rightarrow> (int \<times> int \<times> int) option" \<comment> \<open>width of M, height, position of the base line\<close>
  fallback_font :: "(int \<times> int \<times> int) option" \<comment> \<open>width, ascent, descent\<close>
  own_window :: nat
  wm_delete :: nat
  utf8_string :: nat
  clipboard :: nat
  targets :: nat
  selection_property :: nat
  incr :: nat

definition XA_PRIMARY :: nat where "XA_PRIMARY = 1"
definition XA_ATOM :: nat where "XA_ATOM = 4"
definition XA_STRING :: nat where "XA_STRING = 31"

text \<open>The struct, with the backend behind the connection and the calls made so far. A buffer and its length
  are one byte string; \<open>fonts\<close> is whether there is a font set.\<close>

record 'b Gui =
  g_width :: int
  g_height :: int
  g_cell_width :: int
  g_line_height :: int
  g_ascent :: int
  g_font_size :: int
  g_fonts :: bool
  g_pixels :: "nat list" \<comment> \<open>10\<close>
  g_rgb :: "nat list" \<comment> \<open>10\<close>
  g_state :: json
  g_clipboard_text :: "bytes option"
  g_primary_text :: "bytes option"
  g_incoming :: "bytes option"
  g_receiving :: bool
  g_done :: bool
  g_dragging :: bool
  g_pending_selection :: nat
  g_send_window :: nat
  g_send_property :: nat
  g_sending :: "bytes option"
  g_send_offset :: nat
  g_kill_generation :: "64 word"
  g_font_name :: bytes
  g_backend :: 'b
  g_calls :: "x_call list"

definition emit :: "x_call \<Rightarrow> 'b Gui \<Rightarrow> 'b Gui" where
  "emit c g = g\<lparr>g_calls := g_calls g @ [c]\<rparr>"

subsection \<open>Drawing\<close>

function gui_text_columns :: "Tty \<Rightarrow> bytes \<Rightarrow> int" where
  "gui_text_columns tty s =
     (if s = [] then 0
      else
        let (wc, n, invalid) = next_char tty s; k = wc_width tty wc in
        (if k < 0 then 1 else k) + gui_text_columns tty (drop n s))"
  by pat_completeness auto
termination
  by (relation "measure (\<lambda>(tty, s). length s)") (auto simp: next_char_def split: option.splits if_splits)

declare gui_text_columns.simps [simp del]

definition safe_label :: "bytes \<Rightarrow> bytes" where
  "safe_label s = map (\<lambda>c. if c < 32 \<or> c = 127 then 32 else c) s"

text \<open>Without a font set a character beyond ASCII becomes one question mark.\<close>

definition ascii_text :: "bytes \<Rightarrow> bytes" where
  "ascii_text s = concat (map (\<lambda>c. if c < 128 then [c] else if c AND 0xc0 \<noteq> 0x80 then [63] else []) s)"

definition put_text :: "int \<Rightarrow> int \<Rightarrow> bytes \<Rightarrow> nat \<Rightarrow> 'b Gui \<Rightarrow> 'b Gui" where
  "put_text x y s color g =
     emit (if g_fonts g then Draw_utf8 x (y + g_ascent g) s (g_pixels g ! color)
       else Draw_ascii x (y + g_ascent g) (ascii_text s) (g_pixels g ! color)) g"

definition rectangle :: "int \<Rightarrow> int \<Rightarrow> int \<Rightarrow> int \<Rightarrow> nat \<Rightarrow> 'b Gui \<Rightarrow> 'b Gui" where
  "rectangle x y w h color g = (if w \<le> 0 \<or> h \<le> 0 then g else emit (Fill x y w h (g_pixels g ! color)) g)"

definition font_pattern :: "bytes \<Rightarrow> int \<Rightarrow> bytes" where
  "font_pattern name px_size =
     (if name = lit ''fixed''
      then lit ''-misc-fixed-medium-r-normal--'' @ lit (if px_size < 14 then ''13'' else if px_size < 17 then ''15'' else if px_size < 20 then ''18'' else ''20'') @
        lit ''-*-*-*-*-*-*-*,fixed''
      else take 250 name @ lit '',fixed'')"

definition load_font :: "Xserver \<Rightarrow> bytes \<Rightarrow> int \<Rightarrow> 'b Gui \<Rightarrow> 'b Gui" where
  "load_font X name px_size g =
     (let finish = (\<lambda>g. g\<lparr>g_cell_width := if g_cell_width g < 1 then 8 else g_cell_width g,
            g_line_height := if g_line_height g < 1 then 18 else g_line_height g, g_font_size := px_size, g_font_name := take 127 name\<rparr>) in
      case fontset X (font_pattern name px_size) of
        Some (m, h, base) \<Rightarrow> finish (g\<lparr>g_fonts := True, g_cell_width := m, g_line_height := h + 4, g_ascent := base + 2\<rparr>)
      | None \<Rightarrow>
          (case fallback_font X of
             None \<Rightarrow> (emit (Complain (lit ''cpymacs-gui: no usable X11 font'')) (g\<lparr>g_fonts := False\<rparr>))\<lparr>g_done := True\<rparr>
           | Some (m, asc, desc) \<Rightarrow>
               finish (g\<lparr>g_fonts := False, g_cell_width := m, g_line_height := asc + desc + 4, g_ascent := asc + 2\<rparr>)))"

definition color_part :: "nat \<Rightarrow> nat \<Rightarrow> nat" where
  "color_part rgb shift = (rgb div 2 ^ shift) mod 256 * 257"

fun allocate_from :: "Xserver \<Rightarrow> json \<Rightarrow> nat list \<Rightarrow> 'b Gui \<Rightarrow> 'b Gui option" where
  "allocate_from X table [] g = Some g"
| "allocate_from X table (i # is) g = do {
     c \<leftarrow> array_at table i;
     let rgb = unat (word_of_int (as_int (xtty X) c) :: 64 word);
     allocate_from X table is
       (if g_rgb g ! i = rgb \<and> g_pixels g ! i \<noteq> 0 then g
        else g\<lparr>g_rgb := (g_rgb g)[i := rgb],
          g_pixels := (g_pixels g)[i := (case alloc_color X (color_part rgb 16) (color_part rgb 8) (color_part rgb 0) of
            Some p \<Rightarrow> p | None \<Rightarrow> if i = 1 then black_pixel X else white_pixel X)]\<rparr>) }"

definition allocate_colors :: "Xserver \<Rightarrow> json \<Rightarrow> 'b Gui \<Rightarrow> 'b Gui option" where
  "allocate_colors X st g = allocate_from X (json_field st (lit ''colors'')) [0..<10] g"

text \<open>\<open>json_object_array_length\<close> asserts that its argument is an array.\<close>

definition array_items :: "json \<Rightarrow> json list option" where
  "array_items j = (case j of JArray xs \<Rightarrow> Some xs | _ \<Rightarrow> None)"

text \<open>The styled runs of a line, drawn one after the other from \<open>x\<close>.\<close>

fun draw_spans :: "Xserver \<Rightarrow> bytes \<Rightarrow> int \<Rightarrow> json list \<Rightarrow> int \<Rightarrow> 'b Gui \<Rightarrow> 'b Gui option" where
  "draw_spans X s y [] x g = Some g"
| "draw_spans X s y (sp # sps) x g = do {
     a \<leftarrow> array_at sp 0; z \<leftarrow> array_at sp 1; st \<leftarrow> array_at sp 2;
     let a = unat (word_of_int (as_int (xtty X) a) :: 64 word);
     let z = unat (word_of_int (as_int (xtty X) z) :: 64 word);
     let st = to_int32 (as_int (xtty X) st);
     if z > length s \<or> a > z \<or> st < 0 \<or> st > 9 then draw_spans X s y sps x g
     else
       let run = seg a (z - a) s; pixels = gui_text_columns (xtty X) run * g_cell_width g;
           g = (if st = 8 then rectangle x y pixels (g_line_height g) 8 g else g)
       in draw_spans X s y sps (x + pixels) (put_text x y run (if st = 8 then 0 else nat st) g) }"

text \<open>Line \<open>r\<close> of a window: its number, then its runs, or its text when it has none.\<close>

definition draw_line :: "Xserver \<Rightarrow> int \<Rightarrow> int \<Rightarrow> int \<Rightarrow> nat \<Rightarrow> json \<Rightarrow> 'b Gui \<Rightarrow> 'b Gui option" where
  "draw_line X px py gutter r line g =
     (let y = py + int r * g_line_height g; x = px + gutter * g_cell_width g;
          g = (if gutter \<noteq> 0 \<and> json_int line (lit ''line'') (- 1) \<ge> 0
            then put_text px y (let s = show_nat (nat (json_int line (lit ''line'') 0) + 1) in replicate (6 - length s) 32 @ s) 2 g else g);
          s = json_c_string line ''text''; spans = json_field line (lit ''spans'') in
      if spans = JNull then Some (put_text x y s 0 g)
      else do {
        sps \<leftarrow> array_items spans;
        if sps = [] then Some (put_text x y s 0 g) else draw_spans X s y sps x g })"

fun draw_lines :: "Xserver \<Rightarrow> int \<Rightarrow> int \<Rightarrow> int \<Rightarrow> nat \<Rightarrow> json list \<Rightarrow> 'b Gui \<Rightarrow> 'b Gui option" where
  "draw_lines X px py gutter r [] g = Some g"
| "draw_lines X px py gutter r (line # lines) g = do {
     g \<leftarrow> draw_line X px py gutter r line g;
     draw_lines X px py gutter (r + 1) lines g }"

text \<open>The fields of a clipping rectangle are 16 bits wide.\<close>

definition clip_to :: "int \<Rightarrow> int \<Rightarrow> int \<Rightarrow> int \<Rightarrow> 'b Gui \<Rightarrow> 'b Gui" where
  "clip_to x y w h g =
     emit (Clip (sint (word_of_int x :: 16 word)) (sint (word_of_int y :: 16 word)) (w mod 2 ^ 16) (h mod 2 ^ 16)) g"

definition draw_pane :: "Xserver \<Rightarrow> int \<Rightarrow> int \<Rightarrow> json \<Rightarrow> 'b Gui \<times> int \<times> int \<Rightarrow> ('b Gui \<times> int \<times> int) option" where
  "draw_pane X rs cs pane drawn =
     (let (g, cursor_x, cursor_y) = drawn;
          px = int_field pane ''x'' 0 * g_cell_width g; py = int_field pane ''y'' 0 * g_line_height g;
          w = int_field pane ''width'' cs * g_cell_width g; h = int_field pane ''height'' (rs - 1);
          gutter = int_field pane ''gutter'' 0;
          g = clip_to px py w (h * g_line_height g) g in do {
        lines \<leftarrow> array_items (json_field pane (lit ''lines''));
        g \<leftarrow> draw_lines X px py gutter 0 lines g;
        let my = py + (h - 1) * g_line_height g;
        let g = put_text px my (safe_label (json_c_string pane ''modeline'')) 0 (rectangle px my w (g_line_height g) 9 g);
        Some (g, if jbool pane (lit ''active'') False
          then (px + int_field pane ''cursor_col'' 0 * g_cell_width g, py + int_field pane ''cursor_row'' 0 * g_line_height g)
          else (cursor_x, cursor_y)) })"

fun draw_panes :: "Xserver \<Rightarrow> int \<Rightarrow> int \<Rightarrow> json list \<Rightarrow> 'b Gui \<times> int \<times> int \<Rightarrow> ('b Gui \<times> int \<times> int) option" where
  "draw_panes X rs cs [] drawn = Some drawn"
| "draw_panes X rs cs (p # ps) drawn = do { drawn \<leftarrow> draw_pane X rs cs p drawn; draw_panes X rs cs ps drawn }"

text \<open>The bottom line: the prompt with its input, which takes the cursor, or the message.\<close>

definition draw_echo :: "Xserver \<Rightarrow> int \<Rightarrow> json \<Rightarrow> 'b Gui \<times> int \<times> int \<Rightarrow> 'b Gui \<times> int \<times> int" where
  "draw_echo X rs st drawn =
     (let (g, cursor) = drawn; y = (rs - 1) * g_line_height g; prompt = json_c_string st ''prompt'' in
      if prompt \<noteq> [] then
        let s = safe_label prompt; input = safe_label (json_c_string st ''input'');
            offset = gui_text_columns (xtty X) s * g_cell_width g;
            n = json_int st (lit ''input_point'') 0; n = (if n < 0 \<or> n > int (length input) then length input else nat n)
        in (put_text offset y input 0 (put_text 0 y s 0 g), offset + gui_text_columns (xtty X) (take n input) * g_cell_width g, y)
      else (put_text 0 y (safe_label (json_c_string st ''message'')) 0 g, cursor))"

definition draw :: "Xserver \<Rightarrow> 'b Gui \<Rightarrow> 'b Gui option" where
  "draw X g =
     (let st = g_state g in
      if st = JNull then Some g
      else do {
        g \<leftarrow> allocate_colors X st g;
        let g = rectangle 0 0 (g_width g) (g_height g) 1 g;
        let rs = int_field st ''rows'' 24;
        let cs = int_field st ''cols'' 80;
        panes \<leftarrow> array_items (json_field st (lit ''panes''));
        (g, cursor_x, cursor_y) \<leftarrow> draw_panes X rs cs panes (g, 0, 0);
        let (g, cursor_x, cursor_y) = draw_echo X rs st (emit Unclip g, cursor_x, cursor_y);
        let g = emit (Outline (max 0 cursor_x) (max 0 cursor_y) (g_cell_width g - 1) (g_line_height g - 1) (g_pixels g ! 6)) g;
        Some (emit (Copy_area (g_width g) (g_height g)) g) })"

subsection \<open>Requests\<close>

type_synonym 'b backend = "json \<Rightarrow> 'b \<Rightarrow> (json \<times> 'b) option"

definition window_title :: "json \<Rightarrow> bytes" where
  "window_title pane =
     take 511 ((if jbool pane (lit ''modified'') False then lit ''* '' else []) @ take 400 (json_c_string pane ''name'') @ lit '' - cpymacs'')"

definition set_title :: "json list \<Rightarrow> 'b Gui \<Rightarrow> 'b Gui" where
  "set_title ps g = (case find (\<lambda>p. jbool p (lit ''active'') False) ps of None \<Rightarrow> g | Some p \<Rightarrow> emit (Store_name (window_title p)) g)"

text \<open>A request and its reply, \<open>JNull\<close> when the backend is lost; a reply with a state replaces the one shown.\<close>

definition take_state :: "Xserver \<Rightarrow> json \<Rightarrow> 'b Gui \<Rightarrow> 'b Gui option" where
  "take_state X st g =
     (let g = g\<lparr>g_state := st, g_done := g_done g \<or> jbool st (lit ''quit'') False \<or> jbool st (lit ''detach'') False\<rparr>;
          name = (case json_string st (lit ''font'') (Some (lit ''fixed'')) of Some s \<Rightarrow> s | None \<Rightarrow> []);
          px_size = to_int32 (json_int st (lit ''font_size'') 16);
          g = (if px_size \<noteq> g_font_size g \<or> name \<noteq> g_font_name g then load_font X name px_size g else g) in do {
        panes \<leftarrow> array_items (json_field st (lit ''panes''));
        Some (set_title panes g) })"

definition send_request :: "Xserver \<Rightarrow> 'b backend \<Rightarrow> json \<Rightarrow> 'b Gui \<Rightarrow> ('b Gui \<times> json) option" where
  "send_request X ask req g =
     (let req = json_set_int (json_set_int req (lit ''rows'') (g_height g div g_line_height g)) (lit ''cols'') (g_width g div g_cell_width g) in
      if g_line_height g = 0 \<or> g_cell_width g = 0 then None
      else case ask req (g_backend g) of
        None \<Rightarrow> Some (emit (Complain (lit ''cpymacs-gui: backend disconnected'')) (g\<lparr>g_done := True\<rparr>), JNull)
      | Some (response, b) \<Rightarrow>
          let g = g\<lparr>g_backend := b\<rparr>; st = json_field response (lit ''state'') in
          if st = JNull then Some (g, response) else do { g \<leftarrow> take_state X st g; Some (g, response) })"

definition request_and_draw :: "Xserver \<Rightarrow> 'b backend \<Rightarrow> json \<Rightarrow> 'b Gui \<Rightarrow> 'b Gui option" where
  "request_and_draw X ask req g = do { (g, r) \<leftarrow> send_request X ask req g; draw X g }"

definition refresh :: "Xserver \<Rightarrow> 'b backend \<Rightarrow> 'b Gui \<Rightarrow> 'b Gui option" where
  "refresh X ask g = request_and_draw X ask (request_new (lit ''snapshot'')) g"

definition quietly :: "string \<Rightarrow> json" where
  "quietly op = json_add (request_new (lit op)) (lit ''no_snapshot'') (JBool True)"

definition result_string :: "json \<Rightarrow> bytes option" where
  "result_string r =
     (if jbool r (lit ''ok'') False then json_string r (lit ''result'') None else None)"

definition update_kill_clipboard :: "Xserver \<Rightarrow> 'b backend \<Rightarrow> 'b Gui \<Rightarrow> 'b Gui option" where
  "update_kill_clipboard X ask g =
     (let generation = word_of_int (json_int (g_state g) (lit ''kill_generation'') 0) in
      if generation = g_kill_generation g then Some g
      else do {
        (g, r) \<leftarrow> send_request X ask (quietly ''kill_ring'') (g\<lparr>g_kill_generation := generation\<rparr>);
        Some (case result_string r of
          None \<Rightarrow> g
        | Some s \<Rightarrow> emit (Own_selection (clipboard X)) (g\<lparr>g_clipboard_text := Some s\<rparr>)) })"

definition gui_key_request :: "Xserver \<Rightarrow> 'b backend \<Rightarrow> bytes \<Rightarrow> 'b Gui \<Rightarrow> 'b Gui option" where
  "gui_key_request X ask key g = do {
     (g, r) \<leftarrow> send_request X ask (key_request key) g;
     g \<leftarrow> (if g_done g then Some g else update_kill_clipboard X ask g);
     draw X g }"

subsection \<open>Selections\<close>

text \<open>\<open>owner\<close> gives the window that owns a selection, 0 for none.\<close>

definition paste :: "Xserver \<Rightarrow> 'b backend \<Rightarrow> (nat \<Rightarrow> nat) \<Rightarrow> nat \<Rightarrow> 'b Gui \<Rightarrow> 'b Gui option" where
  "paste X ask owner selection g =
     (if owner selection = 0 \<or> owner selection = own_window X \<and> selection = clipboard X then gui_key_request X ask (lit ''C-y'') g
      else Some (emit (Convert_selection selection) (g\<lparr>g_pending_selection := selection\<rparr>)))"

definition MAX_CLIPBOARD :: nat where "MAX_CLIPBOARD = 8 * 1024 * 1024"

definition yank_request :: "bytes \<Rightarrow> json" where
  "yank_request s = json_add (request_new (lit ''yank_external'')) (lit ''text'') (JString s)"

definition insert_clipboard :: "Xserver \<Rightarrow> 'b backend \<Rightarrow> bytes \<Rightarrow> 'b Gui \<Rightarrow> 'b Gui option" where
  "insert_clipboard X ask s g = (if length s > MAX_CLIPBOARD then Some g else request_and_draw X ask (yank_request s) g)"

record Selection_request =
  requestor :: nat
  req_selection :: nat
  req_target :: nat
  req_property :: nat \<comment> \<open>0 for none\<close>

definition CHUNK :: nat where "CHUNK = 65536"

definition selection_request :: "Xserver \<Rightarrow> Selection_request \<Rightarrow> 'b Gui \<Rightarrow> 'b Gui" where
  "selection_request X r g =
     (let property = (if req_property r = 0 then req_target r else req_property r);
          s = (case (if req_selection r = XA_PRIMARY then g_primary_text g else g_clipboard_text g) of Some s \<Rightarrow> s | None \<Rightarrow> []);
          (g, answer) =
            (if req_target r = targets X
             then (emit (Change_property (requestor r) property XA_ATOM (Atoms [targets X, utf8_string X, XA_STRING])) g, property)
             else if req_target r = utf8_string X \<or> req_target r = XA_STRING then
               if length s \<le> CHUNK then (emit (Change_property (requestor r) property (req_target r) (Bytes s)) g, property)
               else if g_sending g = None then
                 (emit (Change_property (requestor r) property (incr X) (Size (length s)))
                    (emit (Select_property_changes (requestor r))
                      (g\<lparr>g_sending := Some s, g_send_offset := 0, g_send_window := requestor r, g_send_property := property\<rparr>)), property)
               else (g, 0)
             else (g, 0))
      in emit (Send_notify (requestor r) (req_selection r) (req_target r) answer) g)"

text \<open>What \<open>XGetWindowProperty\<close> answers, \<open>None\<close> when it fails; the bytes are those of a property of 8-bit items.\<close>

record Property =
  prop_type :: nat
  prop_format :: nat
  prop_data :: bytes
  prop_after :: nat

record Property_event =
  prop_window :: nat
  prop_atom :: nat
  prop_deleted :: bool \<comment> \<open>else a new value\<close>
  prop_value :: "Property option"

definition send_chunk :: "Xserver \<Rightarrow> bytes \<Rightarrow> 'b Gui \<Rightarrow> 'b Gui" where
  "send_chunk X s g =
     (let n = min CHUNK (length s - g_send_offset g);
          g = emit (Change_property (g_send_window g) (g_send_property g) (utf8_string X) (Bytes (seg (g_send_offset g) n s))) g;
          g = g\<lparr>g_send_offset := g_send_offset g + n\<rparr>
      in if n = 0 then g\<lparr>g_sending := None\<rparr> else g)"

definition receive_chunk :: "Xserver \<Rightarrow> 'b backend \<Rightarrow> Property option \<Rightarrow> 'b Gui \<Rightarrow> 'b Gui option" where
  "receive_chunk X ask value g =
     (case value of
        None \<Rightarrow> Some g
      | Some v \<Rightarrow>
          let so_far = (case g_incoming g of Some s \<Rightarrow> s | None \<Rightarrow> []); stop = (\<lambda>g. g\<lparr>g_incoming := None\<rparr>) in
          if prop_format v \<noteq> 8 \<or> prop_after v \<noteq> 0 \<or> length so_far + length (prop_data v) > MAX_CLIPBOARD
          then Some (stop (g\<lparr>g_receiving := False\<rparr>))
          else if prop_data v = [] then
            let g = g\<lparr>g_receiving := False\<rparr> in do {
              g \<leftarrow> (if g_incoming g \<noteq> None then insert_clipboard X ask so_far g else Some g);
              Some (stop g) }
          else Some (g\<lparr>g_incoming := Some (so_far @ prop_data v)\<rparr>))"

definition property_event :: "Xserver \<Rightarrow> 'b backend \<Rightarrow> Property_event \<Rightarrow> 'b Gui \<Rightarrow> 'b Gui option" where
  "property_event X ask ev g =
     (case (if prop_window ev = g_send_window g \<and> prop_atom ev = g_send_property g \<and> prop_deleted ev then g_sending g else None) of
        Some s \<Rightarrow> Some (send_chunk X s g)
      | None \<Rightarrow>
          if g_receiving g \<and> prop_window ev = own_window X \<and> prop_atom ev = selection_property X \<and> \<not> prop_deleted ev
          then receive_chunk X ask (prop_value ev) g else Some g)"

definition selection_notify :: "Xserver \<Rightarrow> 'b backend \<Rightarrow> nat \<Rightarrow> Property option \<Rightarrow> 'b Gui \<Rightarrow> 'b Gui option" where
  "selection_notify X ask property value g =
     (case value of
        None \<Rightarrow> Some g
      | Some v \<Rightarrow>
          if property = 0 then Some g
          else if prop_type v = incr X then Some (emit (Delete_property (own_window X) property) (g\<lparr>g_receiving := True, g_incoming := None\<rparr>))
          else if prop_format v = 8 \<and> prop_after v = 0 then insert_clipboard X ask (prop_data v) g
          else Some g)"

subsection \<open>Keys and the mouse\<close>

text \<open>A key press: the modifiers, what the input method or the server looks up (with the whole text when it did not
  fit the first buffer), the unshifted symbol, and the owners of selections.\<close>

record Key_event =
  control :: bool
  meta :: bool
  looked_up :: bytes
  symbol :: nat
  overflow :: "bytes option"
  unshifted :: nat
  owner_of :: "nat \<Rightarrow> nat"

definition special_key :: "nat \<Rightarrow> bytes option" where
  "special_key k =
     (if k \<ge> 0xffbe \<and> k \<le> 0xffc9 then Some (lit ''<f'' @ show_nat (k - 0xffbe + 1) @ lit ''>'')
      else map_option lit (map_of [(0xff0d, ''RET''), (0xff8d, ''RET''), (0xff09, ''TAB''), (0xfe20, ''TAB''), (0xff08, ''DEL''),
        (0xffff, ''<delete>''), (0xff51, ''<left>''), (0xff53, ''<right>''), (0xff52, ''<up>''), (0xff54, ''<down>''),
        (0xff50, ''<home>''), (0xff57, ''<end>''), (0xff55, ''<prior>''), (0xff56, ''<next>''), (0xff1b, ''ESC'')] k))"

definition control_key :: "Key_event \<Rightarrow> bytes option \<Rightarrow> bytes" where
  "control_key ev special =
     (let k = symbol ev; u = unshifted ev in
      if k = 0x20 \<or> k = 0x40 then lit ''C-SPC''
      else if k = 0x2f then lit ''C-/'' else if k = 0x5f then lit ''C-_'' else if k = 0x3f then lit ''C-?''
      else if k = 0xff51 then lit ''M-b'' else if k = 0xff53 then lit ''M-f''
      else if u \<ge> 0x61 \<and> u \<le> 0x7a then lit ''C-'' @ [byte_of u]
      else if u \<ge> 0x41 \<and> u \<le> 0x5a then lit ''C-'' @ [byte_of (u - 0x41 + 0x61)]
      else case special of Some s \<Rightarrow> lit ''C-'' @ s | None \<Rightarrow> [])"

text \<open>The name of the key, empty when there is none; \<open>None\<close> is a text too long for a key.\<close>

definition event_key :: "Key_event \<Rightarrow> bytes option" where
  "event_key ev =
     (let special = special_key (symbol ev); s = c_string (looked_up ev) in
      if control ev then Some (control_key ev special)
      else if meta ev then
        Some (case special of Some k \<Rightarrow> lit ''M-'' @ k | None \<Rightarrow> if looked_up ev \<noteq> [] then lit ''M-'' @ take 70 s else [])
      else case special of
        Some k \<Rightarrow> Some k
      | None \<Rightarrow> if looked_up ev = [] then Some [] else if length (looked_up ev) < 100 then Some s else None)"

definition insert_request :: "bytes \<Rightarrow> json" where
  "insert_request s = json_set_string (request_new (lit ''insert'')) (lit ''text'') (Some (c_string s))"

definition many_characters :: "Tty \<Rightarrow> bytes \<Rightarrow> bool" where
  "many_characters tty s = (case decode tty s of Some (wc, n) \<Rightarrow> n < length s | None \<Rightarrow> False)"

definition key_event :: "Xserver \<Rightarrow> 'b backend \<Rightarrow> Key_event \<Rightarrow> 'b Gui \<Rightarrow> 'b Gui option" where
  "key_event X ask ev g =
     (case overflow ev of
        Some s \<Rightarrow> request_and_draw X ask (insert_request s) g
      | None \<Rightarrow>
          (case event_key ev of
             None \<Rightarrow> Some g
           | Some key \<Rightarrow>
               if key = [] then Some g
               else if key = lit ''C-y'' \<and> json_c_string (g_state g) ''prompt'' = [] \<and>
                 owner_of ev (clipboard X) \<noteq> own_window X \<and> owner_of ev (clipboard X) \<noteq> 0
               then paste X ask (owner_of ev) (clipboard X) g
               else if \<not> control ev \<and> \<not> meta ev \<and> special_key (symbol ev) = None \<and> many_characters (xtty X) (looked_up ev)
               then request_and_draw X ask (insert_request (looked_up ev)) g
               else gui_key_request X ask key g))"

text \<open>C's division by a positive number.\<close>

definition c_div :: "int \<Rightarrow> int \<Rightarrow> int" where
  "c_div a b = (if a < 0 then - ((- a) div b) else a div b)"

definition in_text :: "int \<Rightarrow> int \<Rightarrow> json \<Rightarrow> bool" where
  "in_text cx cy p =
     (let px = int_field p ''x'' 0; py = int_field p ''y'' 0 in
      \<not> (cx < px \<or> cx \<ge> px + int_field p ''width'' 0 \<or> cy < py \<or> cy \<ge> py + int_field p ''height'' 0 - 1))"

definition click_request :: "int \<Rightarrow> int \<Rightarrow> bool \<Rightarrow> json \<Rightarrow> json" where
  "click_request cx cy ext p =
     (let column = cx - int_field p ''x'' 0 - int_field p ''gutter'' 0;
          req = json_set_int (request_new (lit ''click'')) (lit ''pane'') (json_int p (lit ''index'') 0);
          req = json_set_int req (lit ''line'') (json_int p (lit ''top'') 0 + cy - int_field p ''y'' 0);
          req = json_set_int req (lit ''column'') (json_int p (lit ''left'') 0 + max 0 column)
      in json_add req (lit ''extend'') (JBool ext))"

definition mouse_point :: "Xserver \<Rightarrow> 'b backend \<Rightarrow> int \<Rightarrow> int \<Rightarrow> bool \<Rightarrow> 'b Gui \<Rightarrow> 'b Gui option" where
  "mouse_point X ask x y ext g =
     (if g_state g = JNull then Some g
      else do {
        panes \<leftarrow> array_items (json_field (g_state g) (lit ''panes''));
        let cx = c_div x (g_cell_width g);
        let cy = c_div y (g_line_height g);
        case find (in_text cx cy) panes of
          None \<Rightarrow> Some g
        | Some p \<Rightarrow> request_and_draw X ask (click_request cx cy ext p) g })"

definition select_primary :: "Xserver \<Rightarrow> 'b backend \<Rightarrow> 'b Gui \<Rightarrow> 'b Gui option" where
  "select_primary X ask g = do {
     (g, r) \<leftarrow> send_request X ask (quietly ''selection'') g;
     Some (case result_string r of
       None \<Rightarrow> g
     | Some s \<Rightarrow> if s = [] then g else emit (Own_selection XA_PRIMARY) (g\<lparr>g_primary_text := Some s\<rparr>)) }"

subsection \<open>The loop\<close>

datatype x_event = Expose nat | Configure_notify int int | Key_press Key_event | Client_message nat
  | Button_press nat int int bool "nat \<Rightarrow> nat" | Motion_notify int int | Button_release nat
  | Selection_requested Selection_request | Selection_notify nat "Property option" | Property_notify Property_event | Other_event

definition scroll_request :: "bool \<Rightarrow> json" where
  "scroll_request down =
     json_set_int (json_set_string (request_new (lit ''command'')) (lit ''name'')
       (Some (lit (if down then ''scroll-down-command'' else ''scroll-up-command'')))) (lit ''count'') 3"

definition button_press :: "Xserver \<Rightarrow> 'b backend \<Rightarrow> nat \<Rightarrow> int \<Rightarrow> int \<Rightarrow> bool \<Rightarrow> (nat \<Rightarrow> nat) \<Rightarrow> 'b Gui \<Rightarrow> 'b Gui option" where
  "button_press X ask b x y shift owner g =
     (if b = 1 then mouse_point X ask x y shift (g\<lparr>g_dragging := True\<rparr>)
      else if b = 2 then paste X ask owner XA_PRIMARY g
      else if b = 4 \<or> b = 5 then request_and_draw X ask (scroll_request (b = 4)) g
      else Some g)"

definition x_event_step :: "Xserver \<Rightarrow> 'b backend \<Rightarrow> x_event \<Rightarrow> 'b Gui \<Rightarrow> 'b Gui option" where
  "x_event_step X ask ev g =
     (case ev of
        Expose n \<Rightarrow> if n = 0 then draw X g else Some g
      | Configure_notify w h \<Rightarrow>
          if g_width g \<noteq> w \<or> g_height g \<noteq> h then refresh X ask (g\<lparr>g_width := w, g_height := h\<rparr>) else Some g
      | Key_press k \<Rightarrow> key_event X ask k g
      | Client_message data \<Rightarrow>
          if data = wm_delete X
          then do { g \<leftarrow> gui_key_request X ask (lit ''C-x'') g; gui_key_request X ask (lit ''C-c'') g } else Some g
      | Button_press b x y shift owner \<Rightarrow> button_press X ask b x y shift owner g
      | Motion_notify x y \<Rightarrow> if g_dragging g then mouse_point X ask x y True g else Some g
      | Button_release b \<Rightarrow> if b = 1 then select_primary X ask (g\<lparr>g_dragging := False\<rparr>) else Some g
      | Selection_requested r \<Rightarrow> Some (selection_request X r g)
      | Selection_notify property v \<Rightarrow> selection_notify X ask property v g
      | Property_notify p \<Rightarrow> property_event X ask p g
      | Other_event \<Rightarrow> Some g)"

fun x_pending :: "Xserver \<Rightarrow> 'b backend \<Rightarrow> x_event list \<Rightarrow> 'b Gui \<Rightarrow> 'b Gui option" where
  "x_pending X ask [] g = Some g"
| "x_pending X ask (ev # evs) g =
     (if g_done g then Some g else do { g \<leftarrow> x_event_step X ask ev g; x_pending X ask evs g })"

text \<open>One element per turn of the loop: the pending events, then what \<open>poll\<close> says.\<close>

datatype x_poll = Nothing_came | Events_came | Poll_failed

fun gui_loop :: "Xserver \<Rightarrow> 'b backend \<Rightarrow> (x_event list \<times> x_poll) list \<Rightarrow> 'b Gui \<Rightarrow> 'b Gui option" where
  "gui_loop X ask [] g = None"
| "gui_loop X ask ((evs, poll) # turns) g =
     (if g_done g then Some g
      else do {
        g \<leftarrow> x_pending X ask evs g;
        if g_done g then Some g
        else case poll of
          Nothing_came \<Rightarrow> do { g \<leftarrow> refresh X ask g; gui_loop X ask turns g }
        | Events_came \<Rightarrow> gui_loop X ask turns g
        | Poll_failed \<Rightarrow> Some g })"

subsection \<open>Starting\<close>

text \<open>The command line: the backend's path, the socket, and what is passed on; \<open>None\<close> prints the usage.\<close>

fun gui_options :: "bytes list \<Rightarrow> bytes \<times> bytes option \<times> bytes list \<Rightarrow> (bytes \<times> bytes option \<times> bytes list) option" where
  "gui_options [] opts = Some opts"
| "gui_options (a # args) (backend, connect, forward) =
     (if a = lit ''--backend-exe'' \<and> args \<noteq> [] then gui_options (tl args) (hd args, connect, forward)
      else if a = lit ''--connect'' \<and> args \<noteq> [] then gui_options (tl args) (backend, Some (hd args), forward)
      else if a = lit ''--help'' then None
      else gui_options args (backend, connect, forward @ [a]))"

text \<open>A name without a slash is looked for beside the program itself.\<close>

definition backend_path :: "bytes option \<Rightarrow> bytes \<Rightarrow> bytes" where
  "backend_path self backend =
     (if 47 \<in> set backend then backend
      else case self of
        None \<Rightarrow> backend
      | Some s \<Rightarrow>
          let s = take 4095 s in
          if 47 \<in> set s then take (length s - length (takeWhile (\<lambda>c. c \<noteq> 47) (rev s))) s @ lit ''cpymacs'' else backend)"

text \<open>On attaching to a running backend the files are opened there.\<close>

fun open_files_at :: "Xserver \<Rightarrow> 'b backend \<Rightarrow> bytes list \<Rightarrow> 'b Gui \<Rightarrow> 'b Gui option" where
  "open_files_at X ask [] g = Some g"
| "open_files_at X ask (f # fs) g =
     (if take 1 f = [45] then Some (emit (Complain (lit ''cpymacs-gui: backend options cannot be changed on attach'')) (g\<lparr>g_done := True\<rparr>))
      else do {
        (g, r) \<leftarrow> send_request X ask (json_set_string (request_new (lit ''open'')) (lit ''path'') (Some f)) g;
        open_files_at X ask fs g })"

definition gui_start :: "Xserver \<Rightarrow> 'b backend \<Rightarrow> bool \<Rightarrow> bytes option \<Rightarrow> bytes list \<Rightarrow> 'b \<Rightarrow> 'b Gui option" where
  "gui_start X ask opened connect forward b =
     (let g = \<lparr>g_width = 1000, g_height = 720, g_cell_width = 0, g_line_height = 0, g_ascent = 0, g_font_size = 0, g_fonts = False,
            g_pixels = replicate 10 0, g_rgb = replicate 10 0, g_state = JNull, g_clipboard_text = None, g_primary_text = None,
            g_incoming = None, g_receiving = False, g_done = False, g_dragging = False, g_pending_selection = 0, g_send_window = 0,
            g_send_property = 0, g_sending = None, g_send_offset = 0, g_kill_generation = 0, g_font_name = [], g_backend = b, g_calls = []\<rparr>;
          g = load_font X (lit ''fixed'') 16 g in
      if \<not> opened then Some (emit (Complain (lit ''cpymacs-gui backend'')) (g\<lparr>g_done := True\<rparr>))
      else do {
        g \<leftarrow> (if connect \<noteq> None then open_files_at X ask forward g else Some g);
        if g_done g then Some g else refresh X ask g })"

subsection \<open>Large selections\<close>

text \<open>What a selection beyond \<open>CHUNK\<close> bytes is cut into: its pieces and, at the end, an empty one.\<close>

function chunks :: "bytes \<Rightarrow> bytes list" where
  "chunks s = (if s = [] then [[]] else take CHUNK s # chunks (drop CHUNK s))"
  by pat_completeness auto
termination by (relation "measure length") (auto simp: CHUNK_def)

declare chunks.simps [simp del]

fun property_events :: "Xserver \<Rightarrow> 'b backend \<Rightarrow> Property_event list \<Rightarrow> 'b Gui \<Rightarrow> 'b Gui option" where
  "property_events X ask [] g = Some g"
| "property_events X ask (ev # evs) g = do { g \<leftarrow> property_event X ask ev g; property_events X ask evs g }"

definition taken_event :: "nat \<Rightarrow> nat \<Rightarrow> Property_event" where
  "taken_event w p = \<lparr>prop_window = w, prop_atom = p, prop_deleted = True, prop_value = None\<rparr>"

definition chunk_event :: "Xserver \<Rightarrow> bytes \<Rightarrow> Property_event" where
  "chunk_event X c = \<lparr>prop_window = own_window X, prop_atom = selection_property X, prop_deleted = False,
     prop_value = Some \<lparr>prop_type = utf8_string X, prop_format = 8, prop_data = c, prop_after = 0\<rparr>\<rparr>"

lemma CHUNK_pos [simp]: "0 < CHUNK" "CHUNK \<noteq> 0"
  by (simp_all add: CHUNK_def)

lemma send_chunk_step:
  assumes "g_sending g = Some s" "g_send_window g = w" "g_send_property g = p"
  shows "property_event X ask (taken_event w p) g = Some (send_chunk X s g)"
  using assms by (simp add: property_event_def taken_event_def)

lemma chunks_sent:
  assumes "g_sending g = Some s" "g_send_window g = w" "g_send_property g = p" "g_send_offset g \<le> length s"
  shows "\<exists>g'. property_events X ask (replicate (length (chunks (drop (g_send_offset g) s))) (taken_event w p)) g = Some g' \<and>
    g_sending g' = None \<and>
    g_calls g' = g_calls g @ map (\<lambda>c. Change_property w p (utf8_string X) (Bytes c)) (chunks (drop (g_send_offset g) s))"
  using assms
proof (induction "length s - g_send_offset g" arbitrary: g rule: less_induct)
  case less
  let ?k = "g_send_offset g"
  note step = send_chunk_step [OF less.prems(1-3), of X ask]
  show ?case
  proof (cases "?k = length s")
    case True
    then show ?thesis
      using less.prems step by (simp add: chunks.simps [of "[]"] send_chunk_def Let_def emit_def seg_def)
  next
    case False
    let ?n = "min CHUNK (length s - ?k)"
    let ?g = "send_chunk X s g"
    have n: "0 < ?n" using False less.prems(4) by simp
    have piece: "seg ?k ?n s = take CHUNK (drop ?k s)" by (simp add: seg_def min_def)
    have g: "g_sending ?g = Some s" "g_send_window ?g = w" "g_send_property ?g = p" "g_send_offset ?g = ?k + ?n"
      "g_calls ?g = g_calls g @ [Change_property w p (utf8_string X) (Bytes (take CHUNK (drop ?k s)))]"
      using n less.prems piece by (simp_all add: send_chunk_def Let_def emit_def)
    have drop: "drop (?k + ?n) s = drop CHUNK (drop ?k s)"
      by (cases "CHUNK \<le> length s - ?k") (simp_all add: add.commute)
    have "drop ?k s \<noteq> []" using False less.prems(4) by simp
    then have c: "chunks (drop ?k s) = take CHUNK (drop ?k s) # chunks (drop (?k + ?n) s)"
      by (subst chunks.simps) (simp add: drop)
    have "length s - g_send_offset ?g < length s - ?k" "g_send_offset ?g \<le> length s" unfolding g(4) using n less.prems(4) by arith+
    from less.hyps [OF this(1) g(1-3) this(2)] show ?thesis
      unfolding c g(4) by (simp add: step g(5))
  qed
qed

lemma concat_chunks: "concat (chunks s) = s"
proof (induction s rule: chunks.induct)
  case (1 s)
  then show ?case by (subst chunks.simps) simp
qed

lemma chunks_last: "\<exists>cs. chunks s = cs @ [[]] \<and> (\<forall>c \<in> set cs. c \<noteq> [] \<and> length c \<le> CHUNK)"
proof (induction s rule: chunks.induct)
  case (1 s)
  show ?case
  proof (cases "s = []")
    case False
    then obtain cs where "chunks (drop CHUNK s) = cs @ [[]]" "\<forall>c \<in> set cs. c \<noteq> [] \<and> length c \<le> CHUNK" using 1 by blast
    then have "chunks s = (take CHUNK s # cs) @ [[]]" "\<forall>c \<in> set (take CHUNK s # cs). c \<noteq> [] \<and> length c \<le> CHUNK"
      using False by (simp_all add: chunks.simps [of s])
    then show ?thesis by blast
  qed (simp add: chunks.simps)
qed

lemma chunk_received:
  assumes "g_sending g = None" "g_receiving g"
  shows "property_event X ask (chunk_event X c) g =
    receive_chunk X ask (Some \<lparr>prop_type = utf8_string X, prop_format = 8, prop_data = c, prop_after = 0\<rparr>) g"
  using assms by (simp add: property_event_def chunk_event_def)

lemma chunks_received:
  assumes "g_sending g = None" "g_receiving g" "\<forall>c \<in> set cs. c \<noteq> []" "cs \<noteq> [] \<or> g_incoming g \<noteq> None"
    and "length (case g_incoming g of Some s \<Rightarrow> s | None \<Rightarrow> []) + length (concat cs) \<le> MAX_CLIPBOARD"
  shows "property_events X ask (map (chunk_event X) (cs @ [[]])) g = do {
      g \<leftarrow> insert_clipboard X ask ((case g_incoming g of Some s \<Rightarrow> s | None \<Rightarrow> []) @ concat cs)
        (g\<lparr>g_receiving := False, g_incoming := Some ((case g_incoming g of Some s \<Rightarrow> s | None \<Rightarrow> []) @ concat cs)\<rparr>);
      Some (g\<lparr>g_incoming := None\<rparr>) }"
  using assms
proof (induction cs arbitrary: g)
  case Nil
  then obtain s where s: "g_incoming g = Some s" by auto
  then have same: "g\<lparr>g_receiving := False, g_incoming := Some s\<rparr> = g\<lparr>g_receiving := False\<rparr>" by simp
  from Nil s show ?case by (simp add: chunk_received receive_chunk_def Let_def same)
next
  case (Cons c cs)
  let ?s = "case g_incoming g of Some s \<Rightarrow> s | None \<Rightarrow> []"
  let ?g = "g\<lparr>g_incoming := Some (?s @ c)\<rparr>"
  have "property_event X ask (chunk_event X c) g = Some ?g"
    using Cons.prems by (simp add: chunk_received receive_chunk_def Let_def)
  moreover have "property_events X ask (map (chunk_event X) (cs @ [[]])) ?g = do {
      g \<leftarrow> insert_clipboard X ask ((?s @ c) @ concat cs) (?g\<lparr>g_receiving := False, g_incoming := Some ((?s @ c) @ concat cs)\<rparr>);
      Some (g\<lparr>g_incoming := None\<rparr>) }"
    using Cons.IH [of ?g] Cons.prems by simp
  ultimately show ?case by simp
qed

text \<open>What is written to a property, piece by piece.\<close>

definition written_to :: "nat \<Rightarrow> nat \<Rightarrow> x_call list \<Rightarrow> bytes list" where
  "written_to w p calls = concat (map (\<lambda>c. case c of
     Change_property w' p' t (Bytes s) \<Rightarrow> if w' = w \<and> p' = p then [s] else [] | _ \<Rightarrow> []) calls)"

lemma written_simps [simp]:
  "written_to w p [] = []"
  "written_to w p (cs @ ds) = written_to w p cs @ written_to w p ds"
  "written_to w p (map (\<lambda>c. Change_property w p t (Bytes c)) ss) = ss"
  "written_to w p (Change_property w' p' t (Size n) # cs) = written_to w p cs"
  "written_to w p (Select_property_changes w' # cs) = written_to w p cs"
  "written_to w p (Send_notify a b c d # cs) = written_to w p cs"
  by (simp_all add: written_to_def comp_def)

definition selection_text :: "Selection_request \<Rightarrow> 'b Gui \<Rightarrow> bytes option" where
  "selection_text r g = (if req_selection r = XA_PRIMARY then g_primary_text g else g_clipboard_text g)"

definition asks_text :: "Xserver \<Rightarrow> Selection_request \<Rightarrow> bool" where
  "asks_text X r \<longleftrightarrow> req_target r = utf8_string X \<and> utf8_string X \<noteq> targets X \<and> req_property r \<noteq> 0"

lemma large_selection_starts:
  assumes "asks_text X r" "selection_text r g = Some s" "CHUNK < length s" "g_sending g = None"
  shows "selection_request X r g = (let g = g\<lparr>g_sending := Some s, g_send_offset := 0, g_send_window := requestor r, g_send_property := req_property r\<rparr> in
    g\<lparr>g_calls := g_calls g @ [Select_property_changes (requestor r), Change_property (requestor r) (req_property r) (incr X) (Size (length s)),
      Send_notify (requestor r) (req_selection r) (req_target r) (req_property r)]\<rparr>)"
  using assms by (simp add: selection_request_def asks_text_def selection_text_def Let_def emit_def)

definition announced :: "Xserver \<Rightarrow> nat \<Rightarrow> Property" where
  "announced Y n = \<lparr>prop_type = incr Y, prop_format = 32, prop_data = [], prop_after = 0\<rparr>"


text \<open>Two windows of which one has just selected \<open>s\<close>.\<close>

definition sample_server :: Xserver where
  "sample_server = \<lparr>xtty = ascii_tty, alloc_color = (\<lambda>r g b. Some 1), black_pixel = 0, white_pixel = 1, fontset = (\<lambda>p. None),
     fallback_font = Some (8, 12, 4), own_window = 5, wm_delete = 101, utf8_string = 102, clipboard = 103, targets = 104,
     selection_property = 105, incr = 106\<rparr>"

definition sample_gui :: "bytes \<Rightarrow> unit Gui" where
  "sample_gui s = \<lparr>g_width = 1000, g_height = 720, g_cell_width = 8, g_line_height = 20, g_ascent = 14, g_font_size = 16, g_fonts = False,
     g_pixels = replicate 10 1, g_rgb = replicate 10 0, g_state = JNull, g_clipboard_text = None, g_primary_text = Some s,
     g_incoming = None, g_receiving = False, g_done = False, g_dragging = False, g_pending_selection = 0, g_send_window = 0,
     g_send_property = 0, g_sending = None, g_send_offset = 0, g_kill_generation = 0, g_font_name = lit ''fixed'', g_backend = (), g_calls = []\<rparr>"

definition sample_request :: Selection_request where
  "sample_request = \<lparr>requestor = 9, req_selection = XA_PRIMARY, req_target = 102, req_property = 105\<rparr>"

lemma sample_selection:
  "asks_text sample_server sample_request" "selection_text sample_request (sample_gui s) = Some s" "g_sending (sample_gui s) = None"
  by (simp_all add: asks_text_def sample_server_def sample_request_def selection_text_def sample_gui_def)


subsection \<open>The end of a transfer\<close>

definition transfer :: "'b Gui \<Rightarrow> bytes option \<times> nat \<times> nat \<times> nat" where
  "transfer g = (g_sending g, g_send_offset g, g_send_window g, g_send_property g)"

lemma transfer_simps [simp]:
  "transfer (emit c g) = transfer g" "transfer (put_text x y s k g) = transfer g" "transfer (rectangle x y w h k g) = transfer g"
  "transfer (clip_to x y w h g) = transfer g" "transfer (load_font X name n g) = transfer g" "transfer (set_title ps g) = transfer g"
  by (simp_all add: transfer_def emit_def put_text_def rectangle_def clip_to_def load_font_def set_title_def Let_def split: option.split prod.split)

lemma transfer_updates [simp]:
  "transfer (g\<lparr>g_rgb := a\<rparr>) = transfer g" "transfer (g\<lparr>g_pixels := a\<rparr>) = transfer g" "transfer (g\<lparr>g_state := j\<rparr>) = transfer g"
  "transfer (g\<lparr>g_done := d\<rparr>) = transfer g" "transfer (g\<lparr>g_backend := b\<rparr>) = transfer g" "transfer (g\<lparr>g_incoming := i\<rparr>) = transfer g"
  "transfer (g\<lparr>g_receiving := d\<rparr>) = transfer g"
  by (simp_all add: transfer_def)

lemma allocate_transfer: "allocate_from X table is g = Some g' \<Longrightarrow> transfer g' = transfer g"
  by (induction "is" arbitrary: g) (auto simp: Let_def split: bind_splits if_splits)

lemma draw_spans_transfer: "draw_spans X s y sps x g = Some g' \<Longrightarrow> transfer g' = transfer g"
  by (induction sps arbitrary: x g) (auto simp: Let_def split: bind_splits if_splits)

lemma draw_line_transfer: "draw_line X px py gutter r l g = Some g' \<Longrightarrow> transfer g' = transfer g"
  unfolding draw_line_def Let_def by (auto split: bind_splits if_splits dest: draw_spans_transfer)

lemma draw_lines_transfer: "draw_lines X px py gutter r ls g = Some g' \<Longrightarrow> transfer g' = transfer g"
  by (induction ls arbitrary: r g) (auto split: bind_splits dest!: draw_line_transfer)

lemma draw_pane_transfer: "draw_pane X rs cs p d = Some d' \<Longrightarrow> transfer (fst d') = transfer (fst d)"
  unfolding draw_pane_def Let_def by (auto split: bind_splits prod.splits dest!: draw_lines_transfer)

lemma draw_panes_transfer: "draw_panes X rs cs ps d = Some d' \<Longrightarrow> transfer (fst d') = transfer (fst d)"
  by (induction ps arbitrary: d) (auto split: bind_splits dest!: draw_pane_transfer)

lemma draw_echo_transfer: "transfer (fst (draw_echo X rs st d)) = transfer (fst d)"
  by (cases d) (simp add: draw_echo_def Let_def)

lemma draw_transfer:
  assumes "draw X g = Some g'" shows "transfer g' = transfer g"
proof (cases "g_state g = JNull")
  case False
  then obtain g1 ps rs cs g2 x y c1 c2 where d: "allocate_from X (json_field (g_state g) (lit ''colors'')) [0..<10] g = Some g1"
      "draw_panes X rs cs ps (rectangle 0 0 (g_width g1) (g_height g1) 1 g1, 0, 0) = Some (g2, x, y)"
      "g' = emit c1 (emit c2 (fst (draw_echo X rs (g_state g) (emit Unclip g2, x, y))))"
    using assms unfolding draw_def Let_def allocate_colors_def case_prod_beta by (auto split: bind_splits simp del: upt_Suc)
  show ?thesis
    using allocate_transfer [OF d(1)] draw_panes_transfer [OF d(2)] by (simp add: d(3) draw_echo_transfer)
qed (use assms in \<open>simp add: draw_def\<close>)

lemma send_request_transfer: "send_request X ask req g = Some (g', r) \<Longrightarrow> transfer g' = transfer g"
  unfolding send_request_def take_state_def Let_def by (auto split: bind_splits if_splits option.splits prod.splits)

lemma request_and_draw_transfer: "request_and_draw X ask req g = Some g' \<Longrightarrow> transfer g' = transfer g"
  by (auto simp: request_and_draw_def split: bind_splits dest!: send_request_transfer draw_transfer)

lemma receive_chunk_transfer: "receive_chunk X ask v g = Some g' \<Longrightarrow> transfer g' = transfer g"
  by (auto simp: receive_chunk_def insert_clipboard_def Let_def split: bind_splits option.splits if_splits dest!: request_and_draw_transfer)

text \<open>Whether a property event is the deletion the transfer waits for.\<close>

definition takes_piece :: "'b Gui \<Rightarrow> Property_event \<Rightarrow> bool" where
  "takes_piece g ev \<longleftrightarrow> prop_window ev = g_send_window g \<and> prop_atom ev = g_send_property g \<and> prop_deleted ev"

lemma piece_not_taken:
  assumes "property_event X ask ev g = Some g'" "\<not> takes_piece g ev \<or> g_sending g = None" shows "transfer g' = transfer g"
  using assms by (auto simp: property_event_def takes_piece_def split: if_splits option.splits dest!: receive_chunk_transfer)

lemma piece_taken:
  assumes "property_event X ask ev g = Some g'" "takes_piece g ev" "g_sending g = Some s"
  shows "g' = send_chunk X s g"
  using assms by (simp add: property_event_def takes_piece_def)

lemma no_transfer_begins:
  "property_events X ask evs g = Some g' \<Longrightarrow> g_sending g = None \<Longrightarrow> g_sending g' = None"
proof (induction evs arbitrary: g)
  case (Cons ev evs)
  then obtain g1 where g1: "property_event X ask ev g = Some g1" "property_events X ask evs g1 = Some g'" by (auto split: bind_splits)
  with piece_not_taken [OF g1(1)] Cons show ?case by (auto simp: transfer_def)
qed simp

lemma transfer_advances:
  assumes "g_sending g = Some s" "g_send_offset g \<le> length s" "property_events X ask evs g = Some g'"
    and "length (chunks (drop (g_send_offset g) s)) \<le> length (filter (takes_piece g) evs)"
  shows "g_sending g' = None"
  using assms
proof (induction evs arbitrary: g)
  case Nil
  then show ?case by (subst (asm) chunks.simps) (simp split: if_splits)
next
  case (Cons ev evs)
  let ?k = "g_send_offset g" and ?n = "min CHUNK (length s - g_send_offset g)"
  obtain g1 where g1: "property_event X ask ev g = Some g1" "property_events X ask evs g1 = Some g'"
    using Cons.prems(3) by (auto split: bind_splits)
  show ?case
  proof (cases "takes_piece g ev")
    case False
    then have t: "transfer g1 = transfer g" using piece_not_taken [OF g1(1)] by blast
    then have "takes_piece g1 = takes_piece g" by (simp add: transfer_def takes_piece_def fun_eq_iff)
    with t False Cons.prems show ?thesis by (intro Cons.IH [OF _ _ g1(2)]) (auto simp: transfer_def)
  next
    case True
    have g1': "g1 = send_chunk X s g" by (rule piece_taken [OF g1(1) True Cons.prems(1)])
    show ?thesis
    proof (cases "?k = length s")
      case True
      then have "g_sending g1 = None" by (simp add: g1' send_chunk_def)
      with no_transfer_begins [OF g1(2)] show ?thesis by blast
    next
      case False
      then have n: "?n \<noteq> 0" using Cons.prems(2) by simp
      have same: "takes_piece g1 = takes_piece g" using n by (simp add: g1' send_chunk_def takes_piece_def fun_eq_iff emit_def Let_def)
      have g: "g_sending g1 = Some s" "g_send_offset g1 = ?k + ?n" using n Cons.prems(1) by (simp_all add: g1' send_chunk_def emit_def Let_def)
      have "drop (?k + ?n) s = drop CHUNK (drop ?k s)" by (cases "CHUNK \<le> length s - ?k") (simp_all add: add.commute)
      then have "length (chunks (drop ?k s)) = Suc (length (chunks (drop (?k + ?n) s)))"
        using False Cons.prems(2) by (subst chunks.simps) simp
      with True Cons.prems(2,4) show ?thesis by (intro Cons.IH [OF g(1) _ g1(2)]) (auto simp: g(2) same)
    qed
  qed
qed

text \<open>C29 A transfer ends: whatever else happens to properties in between, once its window has taken as many pieces as the
  text has, with the empty one, the owner can serve another large selection.\<close>

theorem transfer_ends:
  assumes "asks_text X r" "selection_text r g = Some s" "g_sending g = None" "CHUNK < length s"
    and "property_events X ask evs (selection_request X r g) = Some g'"
    and "length (chunks s) \<le> length (filter (\<lambda>ev. prop_window ev = requestor r \<and> prop_atom ev = req_property r \<and> prop_deleted ev) evs)"
  shows "g_sending g' = None"
proof -
  let ?g = "selection_request X r g"
  note start = large_selection_starts [OF assms(1,2,4,3)]
  have "takes_piece ?g = (\<lambda>ev. prop_window ev = requestor r \<and> prop_atom ev = req_property r \<and> prop_deleted ev)"
    by (simp add: start Let_def takes_piece_def fun_eq_iff)
  with transfer_advances [OF _ _ assms(5), of s] assms(6) show ?thesis by (simp add: start Let_def)
qed

theorem transfer_ends_witness:
  "\<exists>g'. property_events sample_server (\<lambda>_ _. None) (taken_event 1 105 # replicate (length (chunks (replicate 65537 97))) (taken_event 9 105))
    (selection_request sample_server sample_request (sample_gui (replicate 65537 97))) = Some g' \<and> g_sending g' = None"
proof -
  let ?s = "replicate 65537 97 :: bytes" and ?X = sample_server and ?r = sample_request
  let ?g = "selection_request ?X ?r (sample_gui ?s)"
  let ?evs = "taken_event 1 105 # replicate (length (chunks ?s)) (taken_event 9 105)"
  have big: "CHUNK < length ?s" by (simp add: CHUNK_def)
  note start = large_selection_starts [OF sample_selection(1,2) big sample_selection(3)]
  have r: "requestor ?r = 9" "req_property ?r = 105" by (simp_all add: sample_request_def)
  have "g_send_window ?g = 9" "\<not> g_receiving ?g" by (simp_all add: start Let_def r) (simp add: sample_gui_def)
  then have "property_event ?X (\<lambda>_ _. None) (taken_event 1 105) ?g = Some ?g" by (simp add: property_event_def taken_event_def)
  with r obtain g' where g': "property_events ?X (\<lambda>_ _. None) ?evs ?g = Some g'"
    using chunks_sent [of ?g ?s 9 105 ?X "\<lambda>_ _. None"] by (auto simp: start Let_def)
  from transfer_ends [OF sample_selection big g'] g' show ?thesis
    by (simp add: taken_event_def sample_request_def del: replicate.simps)
qed

text \<open>A transfer whose window never takes its pieces is never given up: whatever property events come for
  other windows, a second large selection is refused.\<close>

theorem abandoned_transfer_stays:
  assumes "property_events X ask evs g = Some g'" "g_sending g = Some s" "\<forall>ev \<in> set evs. \<not> takes_piece g ev"
    and "asks_text X r" "selection_text r g' = Some t" "CHUNK < length t"
  shows "selection_request X r g' = emit (Send_notify (requestor r) (req_selection r) (req_target r) 0) g'"
proof -
  have "transfer g' = transfer g"
    using assms(1,3)
  proof (induction evs arbitrary: g)
    case (Cons ev evs)
    then obtain g1 where g1: "property_event X ask ev g = Some g1" "property_events X ask evs g1 = Some g'" by (auto split: bind_splits)
    have t: "transfer g1 = transfer g" using piece_not_taken [OF g1(1)] Cons.prems(2) by simp
    then have "takes_piece g1 = takes_piece g" by (simp add: transfer_def takes_piece_def fun_eq_iff)
    with Cons.IH [OF g1(2)] Cons.prems(2) t show ?case by simp
  qed simp
  then show ?thesis
    using assms(2,4-6) by (auto simp: selection_request_def asks_text_def selection_text_def transfer_def)
qed

theorem abandoned_transfer_stays_witness:
  "selection_request sample_server sample_request (sample_gui (replicate 65537 97)\<lparr>g_sending := Some []\<rparr>) =
    emit (Send_notify 9 XA_PRIMARY 102 0) (sample_gui (replicate 65537 97)\<lparr>g_sending := Some []\<rparr>)"
  using abandoned_transfer_stays [of sample_server "\<lambda>_ _. None" "[]" "sample_gui (replicate 65537 97)\<lparr>g_sending := Some []\<rparr>"]
    sample_selection by (simp add: CHUNK_def sample_request_def selection_text_def sample_gui_def)

subsection \<open>Pasting one's own selection\<close>

text \<open>The middle button pastes the window's own large selection by a transfer to itself; its first step selects
  property changes alone for the window, which replaces the events it selected at the start, so no key press reaches the window again.\<close>

theorem own_selection_deafens:
  assumes "g_primary_text g = Some s" "CHUNK < length s" "g_sending g = None" "\<not> g_done g"
    and "owner XA_PRIMARY = own_window X" "own_window X \<noteq> 0" "clipboard X \<noteq> XA_PRIMARY"
    and "asks_text X r" "requestor r = own_window X" "req_selection r = XA_PRIMARY"
  shows "\<exists>g' c. x_pending X ask [Button_press 2 x y shift owner, Selection_requested r] g = Some g' \<and>
    g_calls g' = g_calls g @ [Convert_selection XA_PRIMARY, Select_property_changes (own_window X)] @ c \<and> \<not> g_done g'"
proof -
  let ?g = "emit (Convert_selection XA_PRIMARY) (g\<lparr>g_pending_selection := XA_PRIMARY\<rparr>)"
  have "selection_text r ?g = Some s" "g_sending ?g = None" using assms(1,3,10) by (simp_all add: selection_text_def emit_def)
  from large_selection_starts [OF assms(8) this(1) assms(2) this(2)] show ?thesis
    using assms by (simp add: x_event_step_def button_press_def paste_def emit_def Let_def)
qed

theorem own_selection_deafens_witness:
  "\<exists>g' c. x_pending sample_server (\<lambda>_ _. None) [Button_press 2 0 0 False (\<lambda>_. 5),
      Selection_requested (sample_request\<lparr>requestor := 5\<rparr>)] (sample_gui (replicate 65537 97)) = Some g' \<and>
    g_calls g' = [Convert_selection XA_PRIMARY, Select_property_changes 5] @ c"
  using own_selection_deafens [of "sample_gui (replicate 65537 97)" "replicate 65537 97" "\<lambda>_. 5" sample_server
      "sample_request\<lparr>requestor := 5\<rparr>" "\<lambda>_ _. None" 0 0 False]
  by (auto simp: sample_gui_def sample_server_def sample_request_def asks_text_def CHUNK_def XA_PRIMARY_def)

subsection \<open>Starting without a font\<close>

text \<open>Without a usable font the window is done, but the files named beside \<open>--connect\<close> are still sent: the
  request divides the height of the window by a line height of zero.\<close>

theorem no_font_divides_by_zero:
  assumes "fontset X (font_pattern (lit ''fixed'') 16) = None" "fallback_font X = None" "take 1 f \<noteq> [45]"
  shows "gui_start X ask True (Some c) (f # fs) b = None"
  using assms by (simp add: gui_start_def load_font_def send_request_def emit_def Let_def)

theorem no_font_divides_by_zero_witness:
  "gui_start (sample_server\<lparr>fallback_font := None\<rparr>) (\<lambda>_ _. None) True (Some []) [lit ''a''] () = None"
  by (rule no_font_divides_by_zero) (simp_all add: sample_server_def lit_def byte_of_def)

end
