(* ===== verification/Front_Ends.thy ===== *)
theory Front_Ends
  imports Gui
begin

section \<open>Front ends and backend together\<close>

text \<open>
  What the front ends (\<open>src/tui.c\<close>, \<open>src/gui_x11.c\<close>) do with the snapshots of the backend (\<open>src/view.c\<close>,
  \<open>src/protocol.c\<close>): every snapshot can be drawn by both, and a click on the cursor leaves the point where it is.
\<close>

subsection \<open>Snapshots have the shape the front ends rely on\<close>

definition span_shape :: "json \<Rightarrow> bool" where
  "span_shape sp \<longleftrightarrow> (\<exists>a z st. sp = JArray [a, z, st])"

definition line_shape :: "json \<Rightarrow> bool" where
  "line_shape l \<longleftrightarrow> (\<exists>sps. json_field l (lit ''spans'') = JArray sps \<and> (\<forall>sp \<in> set sps. span_shape sp))"

definition pane_shape :: "json \<Rightarrow> bool" where
  "pane_shape p \<longleftrightarrow> (\<exists>ls. json_field p (lit ''lines'') = JArray ls \<and> (\<forall>l \<in> set ls. line_shape l))"

definition state_shape :: "json \<Rightarrow> bool" where
  "state_shape st \<longleftrightarrow> (\<exists>ps cs. json_field st (lit ''panes'') = JArray ps \<and> json_field st (lit ''colors'') = JArray cs \<and>
     (\<forall>p \<in> set ps. pane_shape p))"

lemma visible_line_shape: "visible_line w hl row left n pt b = Some (l, b') \<Longrightarrow> line_shape l"
  by (auto simp: visible_line_def line_shape_def json_spans_def span_shape_def Let_def lit_def byte_of_def
      split: bind_splits prod.splits if_splits)

lemma empty_line_shape: "line_shape (JObject [(lit ''text'', JString []), (lit ''line'', JInt (- 1)), (lit ''spans'', JArray [])])"
  by (simp add: line_shape_def lit_def byte_of_def)

lemma pane_lines_shape: "pane_lines w hl k r left n pt b = Some (ls, b') \<Longrightarrow> \<forall>l \<in> set ls. line_shape l"
proof (induction w hl k r left n pt b arbitrary: ls b' rule: pane_lines.induct)
  case (2 w hl k r left n pt b)
  then show ?case
    using visible_line_shape empty_line_shape by (fastforce split: bind_splits if_splits)
qed simp

lemma lines_field: "json_field (JObject (pane_fields i a b p f pt row column @ [(lit ''modeline'', m), (lit ''lines'', ls)])) (lit ''lines'') = ls"
  by (simp add: pane_fields_def lit_def byte_of_def)

lemma pane_json_shape:
  assumes "pane_json w rs cs n v i e = Some (e', Some j)" shows "pane_shape j"
proof -
  have "\<exists>b1 p f pt row column m lines. j = JObject (pane_fields i (i = active_pane e) b1 p f pt row column @
      [(lit ''modeline'', m), (lit ''lines'', JArray lines)]) \<and> (\<forall>l \<in> set lines. line_shape l)"
    using assms unfolding pane_json_def Let_def
    by (auto split: option.splits bind_splits dest!: pane_lines_shape) blast+
  then show ?thesis using lines_field by (auto simp: pane_shape_def)
qed

lemma panes_json_shape: "panes_json w rs cs n vs e = Some (e', ps) \<Longrightarrow> \<forall>p \<in> set ps. pane_shape p"
proof (induction vs arbitrary: e ps e')
  case (Cons v vs)
  then obtain e1 one e2 more_ps where one: "pane_json w rs cs n (int v) (if n = 1 then active_pane e else v) e = Some (e1, one)"
    and rest: "panes_json w rs cs n vs e1 = Some (e2, more_ps)" and ps: "ps = (case one of None \<Rightarrow> [] | Some j \<Rightarrow> [j]) @ more_ps"
    by (auto split: bind_splits)
  have "\<forall>p \<in> set more_ps. pane_shape p" using rest by (rule Cons.IH)
  with one show ?case by (auto simp: ps pane_json_shape split: option.split)
qed simp

lemma snapshot_shape:
  assumes "editor_snapshot w rs cs e = Some (e', st)" shows "state_shape st"
proof -
  have shape: "state_shape (JObject (fs @ [(lit ''colors'', JArray c), (lit ''panes'', JArray ps)]))"
    if "map_of fs (lit ''panes'') = None" "map_of fs (lit ''colors'') = None" "\<forall>p \<in> set ps. pane_shape p" for fs c ps
  proof -
    have "lit ''panes'' \<noteq> lit ''colors''" by (simp add: lit_def byte_of_def)
    then show ?thesis using that by (simp add: state_shape_def map_add_def)
  qed
  show ?thesis
    using assms unfolding editor_snapshot_def Let_def
    by (auto split: bind_splits dest!: panes_json_shape simp: lit_def byte_of_def state_shape_def)
qed

subsection \<open>Every snapshot can be drawn\<close>

lemma span_at: "span_shape sp \<Longrightarrow> array_at sp 0 \<noteq> None \<and> array_at sp 1 \<noteq> None \<and> array_at sp 2 \<noteq> None"
  by (auto simp: span_shape_def array_at_def)

lemma bind_total: "r \<noteq> None \<Longrightarrow> (\<And>x. r = Some x \<Longrightarrow> f x \<noteq> None) \<Longrightarrow> r \<bind> f \<noteq> None"
  by (cases r) simp_all

lemma paint_spans_total: "\<forall>sp \<in> set sps. span_shape sp \<Longrightarrow> paint_spans tty scr s sps k p \<noteq> None"
proof (induction sps arbitrary: k p)
  case (Cons sp sps)
  then show ?case using span_at [of sp] unfolding paint_spans.simps Let_def by (intro bind_total) simp_all
qed simp

lemma paint_line_total:
  assumes "\<forall>sp \<in> set (elements (json_field row (lit ''spans''))). span_shape sp"
  shows "paint_line tty scr gutter row p \<noteq> None"
  unfolding paint_line_def Let_def by (intro bind_total paint_spans_total [OF assms]) (simp split: prod.split)

lemma line_elements: "line_shape l \<Longrightarrow> \<forall>sp \<in> set (elements (json_field l (lit ''spans''))). span_shape sp"
  by (auto simp: line_shape_def elements_def)

lemma array_row:
  assumes "\<forall>l \<in> set ls. line_shape l" "array_at (JArray ls) k = Some row"
  shows "\<forall>sp \<in> set (elements (json_field row (lit ''spans''))). span_shape sp"
proof (cases "k < length ls")
  case True
  then have "line_shape row" using assms by (auto simp: array_at_def)
  then show ?thesis by (rule line_elements)
next
  case False
  then have "row = JNull" using assms(2) by (simp add: array_at_def)
  then show ?thesis by (simp add: elements_def)
qed

lemma pane_row_total:
  assumes "pane_shape p" shows "pane_row tty scr rs cs prompting spot r p \<noteq> None"
proof -
  obtain ls where ls: "json_field p (lit ''lines'') = JArray ls" "\<forall>l \<in> set ls. line_shape l"
    using assms by (auto simp: pane_shape_def)
  have "array_at (JArray ls) k \<noteq> None" for k by (simp add: array_at_def)
  then have row: "array_at (JArray ls) k \<bind> (\<lambda>row. paint_line tty scr gutter row c) \<noteq> None" for k gutter c
    using array_row [OF ls(2)] by (intro bind_total paint_line_total) simp_all
  show ?thesis
    unfolding pane_row_def Let_def ls(1)
    by (rule if_split [THEN iffD2], intro conjI impI bind_total) (simp_all add: row del: not_None_eq)
qed

lemma concat_rows_total: "\<forall>r \<in> set rs. r \<noteq> None \<Longrightarrow> concat_rows rs \<noteq> None"
  by (induction rs) auto

lemma draw_state_total:
  assumes "state_shape st" shows "draw_state tty st d \<noteq> None"
proof -
  obtain ps where ps: "json_field st (lit ''panes'') = JArray ps" "\<forall>p \<in> set ps. pane_shape p"
    using assms by (auto simp: state_shape_def)
  have row: "screen_row tty scr st ps rs cs spot r \<noteq> None" for scr rs cs spot r
    using ps(2) by (simp add: screen_row_def concat_rows_total pane_row_total del: not_None_eq)
  have rows: "draw_rows (screen_row tty scr st ps rs cs spot) vs cache \<noteq> None" for scr rs cs spot vs cache
    using draw_rows_total [of vs "screen_row tty scr st ps rs cs spot" cache] row by auto
  show ?thesis
    unfolding draw_state_def Let_def ps(1) json.case
    by (cases "prepare tty st (int_field st ''rows'' 24) (int_field st ''cols'' 80) d")
      (use rows in \<open>simp add: bind_total case_prod_beta del: not_None_eq\<close>)
qed

lemma allocate_total: "allocate_from X (JArray xs) is g \<noteq> None"
  by (induction "is" arbitrary: g) (simp_all add: array_at_def Let_def)

lemma draw_spans_total: "\<forall>sp \<in> set sps. span_shape sp \<Longrightarrow> draw_spans X s y sps x g \<noteq> None"
proof (induction sps arbitrary: x g)
  case (Cons sp sps)
  then show ?case using span_at [of sp] unfolding draw_spans.simps Let_def by (intro bind_total) simp_all
qed simp

lemma draw_line_total: "line_shape l \<Longrightarrow> draw_line X px py gutter r l g \<noteq> None"
proof -
  assume "line_shape l"
  then obtain sps where s: "json_field l (lit ''spans'') = JArray sps" "\<forall>sp \<in> set sps. span_shape sp" by (auto simp: line_shape_def)
  show ?thesis
    unfolding draw_line_def Let_def s(1) array_items_def json.case Option.bind.bind_lunit
    by (simp add: draw_spans_total [OF s(2)] del: not_None_eq)
qed

lemma draw_lines_total: "\<forall>l \<in> set ls. line_shape l \<Longrightarrow> draw_lines X px py gutter r ls g \<noteq> None"
proof (induction ls arbitrary: r g)
  case (Cons l ls)
  then show ?case unfolding draw_lines.simps by (intro bind_total draw_line_total) simp_all
qed simp

lemma draw_pane_total:
  assumes "pane_shape p" shows "draw_pane X rs cs p d \<noteq> None"
proof -
  obtain ls where ls: "array_items (json_field p (lit ''lines'')) = Some ls" "\<forall>l \<in> set ls. line_shape l"
    using assms by (auto simp: pane_shape_def array_items_def)
  show ?thesis
    unfolding draw_pane_def Let_def case_prod_beta ls(1) Option.bind.bind_lunit
    by (intro bind_total draw_lines_total [OF ls(2)]) simp
qed

lemma draw_panes_total: "\<forall>p \<in> set ps. pane_shape p \<Longrightarrow> draw_panes X rs cs ps d \<noteq> None"
proof (induction ps arbitrary: d)
  case (Cons p ps)
  then show ?case unfolding draw_panes.simps by (intro bind_total draw_pane_total) simp_all
qed simp

lemma gui_draw_total:
  assumes "state_shape (g_state g)" shows "draw X g \<noteq> None"
proof -
  obtain ps cs where s: "array_items (json_field (g_state g) (lit ''panes'')) = Some ps" "json_field (g_state g) (lit ''colors'') = JArray cs"
    "\<forall>p \<in> set ps. pane_shape p"
    using assms by (auto simp: state_shape_def array_items_def)
  have some: "(if g_state g = JNull then Some g else x) \<noteq> None" if "x \<noteq> None" for x using that by simp
  show ?thesis
    unfolding draw_def Let_def allocate_colors_def s(1,2) Option.bind.bind_lunit
    by (intro some bind_total allocate_total draw_panes_total [OF s(3)]) (simp add: case_prod_beta)
qed

text \<open>C26 Every snapshot the backend makes, whatever its buffers, windows and prompts hold, can be drawn by both front
  ends: no assertion on its shape fails in the terminal or in the window.\<close>

theorem snapshot_can_be_drawn:
  assumes "editor_snapshot w rs cs e = Some (e', st)"
  shows "(\<exists>d' out. draw_state tty st d = Some (d', out)) \<and> (\<exists>g'. draw X (g\<lparr>g_state := st\<rparr>) = Some g')"
proof -
  note shape = snapshot_shape [OF assms]
  have "draw X (g\<lparr>g_state := st\<rparr>) \<noteq> None" using shape by (intro gui_draw_total) simp
  with draw_state_total [OF shape, of tty d] show ?thesis by auto
qed

theorem snapshot_can_be_drawn_witness:
  "\<exists>e' st d out. editor_snapshot sample_world 24 80 sample_editor = Some (e', st) \<and> draw_state ascii_tty st first_drawing = Some (d, out)"
proof -
  have "active_pane sample_editor < length (panes sample_editor)" by (simp add: sample_editor_def blank_editor_def)
  then obtain e' st where s: "editor_snapshot sample_world 24 80 sample_editor = Some (e', st)"
    using snapshot_returns [OF sample_drawable] by blast
  from snapshot_can_be_drawn [OF s] s show ?thesis by blast
qed

subsection \<open>Columns and back\<close>

lemma seek_stops:
  assumes "utf8_valid t" "wide w t" "0 < tab" shows "seek w tab t col col = (0, col)"
  using assms(1,2)
proof (induction rule: utf8_valid_induct)
  case (Char c s)
  have "0 < char_width w (word_of_nat c)" using wide_char [OF Char.hyps(1,2) Char.prems] by simp
  moreover have "col mod tab < tab" using assms(3) by simp
  ultimately have "next_column w tab (word_of_nat c) col > col" by (simp add: next_column_def)
  then show ?case by (simp add: seek_char [OF Char.hyps(1)] Let_def)
qed simp

text \<open>Going to the column of an offset in its line comes back to the offset when no character has width zero.\<close>

lemma column_and_back:
  assumes inv: "text_inv (buf_text b)" and ok: "caches_ok w b" and wide: "wide w (content b)" "0 < tab_width b"
    and pt: "boundary (content b) pt"
  defines "start \<equiv> line_start (content b) (count_nl (take pt (content b)))"
  shows "\<exists>c. editor_at_column w b (count_nl (take pt (content b))) (columns w (tab_width b) (seg start (pt - start) (content b)) 0) =
    Some (pt, b\<lparr>seek_cache := c\<rparr>)"
proof -
  let ?xs = "content b" and ?line = "count_nl (take pt (content b))"
  let ?z = "line_end (buf_text b) ?line"
  note xs = text_inv_valid [OF inv]
  have ptl: "pt \<le> length ?xs" using pt by (rule boundary_le)
  note L = line_no_newline [OF ptl, folded start_def]
  have z: "boundary ?xs ?z" "start \<le> ?z" unfolding start_def using line_end_ok [OF inv] by simp_all
  have bs: "boundary ?xs start" unfolding start_def by (rule line_start_boundary [OF xs])
  have sp: "start \<le> pt" "pt \<le> ?z" using L line_end_count(2) [OF inv, of pt ?line] ptl unfolding start_def by simp_all
  have v: "utf8_valid (seg start (pt - start) ?xs)" "utf8_valid (seg pt (?z - pt) ?xs)"
    using valid_seg [OF xs] bs pt z(1) sp by simp_all
  have w: "wide w (seg pt (?z - pt) ?xs)" using wide_seg [OF xs wide(1) pt] z(1) sp by simp
  have split: "seg start (?z - start) ?xs = seg start (pt - start) ?xs @ seg pt (?z - pt) ?xs"
    using sp take_add [of "pt - start" "?z - pt" "drop start ?xs"] by (simp add: seg_def)
  have "seek w (tab_width b) (seg start (?z - start) ?xs) 0 (columns w (tab_width b) (seg start (pt - start) ?xs) 0) =
      (pt - start, columns w (tab_width b) (seg start (pt - start) ?xs) 0)"
    unfolding split using seek_skip [OF v(1) order_refl] seek_stops [OF v(2) w wide(2)] boundary_le [OF pt] sp
    by (simp add: min_absorb1)
  then show ?thesis
    using editor_at_column_ok [OF inv ok refl refl, of ?line "columns w (tab_width b) (seg start (pt - start) ?xs) 0", folded start_def] sp
    by (auto simp: editor_at_column_def)
qed

subsection \<open>A click on the cursor\<close>

lemma to_int32_small: "- (2 ^ 31) \<le> i \<Longrightarrow> i < 2 ^ 31 \<Longrightarrow> to_int32 i = i"
  unfolding to_int32_def by transfer (simp add: signed_take_bit_int_eq_self)

lemma clip64_small: "- (2 ^ 63) \<le> i \<Longrightarrow> i < 2 ^ 63 \<Longrightarrow> clip64 i = i"
  by (simp add: clip64_def)

lemma int_field_small:
  assumes "json_field j (lit k) = JInt i" "- 1000 \<le> i" "i \<le> 1000" shows "int_field j k z = i"
  using clip64_small [of i] to_int32_small [of i] assms(2,3) by (simp add: int_field_def json_int_def assms(1))

lemma frame_inside:
  assumes "panes e \<noteq> []" "4 \<le> rs" "12 \<le> cs" "n = shown_panes e rs cs" "0 \<le> v" "v < n"
    and f: "f = pane_frame (split_vertical e) numbers rs cs n v"
  shows "0 \<le> fx f" "fx f + fwidth f \<le> cs" "0 \<le> fy f" "fy f + fheight f \<le> rs - 1"
proof -
  have n: "0 < n" using assms(5,6) by simp
  have le: "(v + 1) * k div n \<le> k" if "0 \<le> k" for k
    using that assms(5,6) n zdiv_mono1 [OF mult_right_mono [of "v + 1" n k] n] by simp
  have pos: "0 \<le> v * k div n" if "0 \<le> k" for k using that assms(5) n by (simp add: pos_imp_zdiv_nonneg_iff)
  show "0 \<le> fx f" "fx f + fwidth f \<le> cs" "0 \<le> fy f" "fy f + fheight f \<le> rs - 1"
    using le [of cs] le [of "rs - 1"] pos [of cs] pos [of "rs - 1"] assms(2,3) by (simp_all add: f pane_frame_def Let_def)
qed

text \<open>Where point of the active window is, as the snapshot lays it out.\<close>

definition point_row :: "Buffer \<Rightarrow> nat" where
  "point_row b = count_nl (take (point b) (content b))"

definition point_column :: "World \<Rightarrow> Buffer \<Rightarrow> nat" where
  "point_column w b =
     (let start = line_start (content b) (point_row b) in columns w (tab_width b) (seg start (point b - start) (content b)) 0)"

lemma active_pane_shown:
  assumes e: "drawable w e" and i: "editor_by_id e (pane_buffer (panes e ! active_pane e)) = Some i"
    and j: "pane_json w rs cs n v (active_pane e) e = Some (e', Some j)"
  defines "f \<equiv> pane_frame (split_vertical e) (show_line_numbers e) rs cs n v" and "b \<equiv> buffers e ! i"
  shows "\<exists>b2 p. redrawn w b b2 \<and> e' = e\<lparr>buffers := (buffers e)[i := b2], panes := (panes e)[active_pane e := p]\<rparr> \<and>
    pane_buffer p = pane_buffer (panes e ! active_pane e) \<and>
    pane_top p = scroll_to (point_row b) (fheight f - 1) (pane_top (panes e ! active_pane e)) \<and>
    pane_left p = scroll_to (point_column w b) (fwidth f - fgutter f) (pane_left (panes e ! active_pane e)) \<and>
    (\<exists>more. j = JObject (pane_fields (active_pane e) True b2 p f (point b) (point_row b) (point_column w b) @ more))"
proof -
  let ?p = "panes e ! active_pane e"
  have m: "b \<in> set (buffers e)" using find_index_Some [OF i [unfolded editor_by_id_def]] by (simp add: b_def)
  have inv: "text_inv (buf_text b)" "caches_ok w b" "wide w (content b)" "0 < tab_width b" "boundary (content b) (point b)"
    using e m by (auto simp: drawable_def)
  have pt: "(if point b > text_size (buf_text b) then text_size (buf_text b) else point b) = point b"
    using boundary_le [OF inv(5)] by (simp add: text_size_content [OF inv(1)])
  have row: "text_line_of (buf_text b) (point b) = point_row b" unfolding point_row_def using text_line_of_ok [OF inv(1)] boundary_le [OF inv(5)] by simp
  obtain b1 c where col: "editor_column w b (point b) = Some (point_column w b, b1)" "caches_ok w b1" "b1 = b\<lparr>column_cache := c\<rparr>"
    using editor_column_ok [OF inv(1,5,2)] by (auto simp: point_column_def point_row_def Let_def)
  define p where "p = ?p\<lparr>pane_top := scroll_to (point_row b) (fheight f - 1) (pane_top ?p),
      pane_left := scroll_to (point_column w b) (fwidth f - fgutter f) (pane_left ?p)\<rparr>"
  obtain lines b2 where l: "pane_lines w (show_highlight e) (pane_top p) (nat (fheight f - 1)) (pane_left p)
      (nat (fwidth f - fgutter f)) (point b) b1 = Some (lines, b2)" "redrawn w b1 b2"
    using pane_lines_ok [OF _ col(2), of "show_highlight e" "pane_top p" "nat (fheight f - 1)" "pane_left p"
      "nat (fwidth f - fgutter f)" "point b"] inv by (auto simp: col(3))
  have r: "redrawn w b b2" using l(2) col(2,3) by (auto simp: redrawn_def)
  have "e' = e\<lparr>buffers := (buffers e)[i := b2], panes := (panes e)[active_pane e := p]\<rparr>"
    "j = JObject (pane_fields (active_pane e) True b2 p f (point b) (point_row b) (point_column w b) @
      [(lit ''modeline'', JString (mode_line b2 True (point_row b) (point_column w b))), (lit ''lines'', JArray lines)])"
    using j by (simp_all only: pane_json_def Let_def i option.case b_def [symmetric] f_def [symmetric] refl if_True pt row col(1)
      Option.bind.bind_lunit prod.case p_def [symmetric] l(1) option.inject prod.inject)
  with r show ?thesis by (intro exI [of _ b2] exI [of _ p]) (simp add: p_def)
qed

lemma find_index_update: "P y = P (xs ! i) \<Longrightarrow> i < length xs \<Longrightarrow> find_index P (xs[i := y]) = find_index P xs"
proof (induction xs arbitrary: i)
  case (Cons x xs)
  then show ?case by (cases i) simp_all
qed simp

text \<open>A click on the row and column of the cursor leaves point where it was.\<close>

lemma click_on_point:
  assumes e: "drawable w e" "active_pane e < length (panes e)" "length (panes e) < 2 ^ 31"
    and i: "editor_by_id e (pane_buffer (panes e ! active_pane e)) = Some i"
    and b2: "redrawn w (buffers e ! i) b2" and p: "pane_buffer p = pane_buffer (panes e ! active_pane e)"
    and e': "e' = e\<lparr>buffers := (buffers e)[i := b2], panes := (panes e)[active_pane e := p]\<rparr>"
    and req: "json_int req (lit ''pane'') (int (active_pane e)) = int (active_pane e)"
      "json_int req (lit ''line'') 0 = int (point_row (buffers e ! i))"
      "json_int req (lit ''column'') 0 = int (point_column w (buffers e ! i))" "\<not> jbool req (lit ''extend'') False"
  shows "\<exists>e2. op_click w req (d, e') = answered JNull (d, e2) \<and> current e2 = i \<and> active_pane e2 = active_pane e \<and>
    point (editor_buffer e2) = point (buffers e ! i)"
proof -
  let ?b = "buffers e ! i"
  have il: "i < length (buffers e)" "buf_id ?b = pane_buffer (panes e ! active_pane e)"
    using find_index_Some [OF i [unfolded editor_by_id_def]] by simp_all
  have inv: "text_inv (buf_text ?b)" "wide w (content ?b)" "0 < tab_width ?b" "boundary (content ?b) (point ?b)"
    using e(1) il(1) by (auto simp: drawable_def)
  define c2 where "c2 = b2\<lparr>mark_active := False\<rparr>"
  have c2: "buf_text c2 = buf_text ?b" "tab_width c2 = tab_width ?b" "caches_ok w c2" "content c2 = content ?b"
    using b2 by (auto simp: redrawn_def c2_def caches_ok_def)
  obtain c where at: "editor_at_column w c2 (point_row ?b) (point_column w ?b) = Some (point ?b, c2\<lparr>seek_cache := c\<rparr>)"
    using column_and_back [of c2 w "point ?b"] inv c2 by (auto simp: point_row_def point_column_def Let_def)
  have act: "to_int32 (int (active_pane e)) = int (active_pane e)" using e(2,3) by (intro to_int32_small) simp_all
  have found: "find_index (\<lambda>b. buf_id b = pane_buffer (panes e ! active_pane e)) ((buffers e)[i := b2]) = Some i"
    using i b2 il by (simp add: editor_by_id_def find_index_update redrawn_def)
  show ?thesis
    using e(2) il at req act found p
    by (simp add: op_click_def e' Let_def upd_pane_def editor_by_id_def editor_switch_def upd_buf_def c2_def [symmetric]
      editor_buffer_def answered_def)
qed



end
