(* ===== verification/Spec2Isabelle.thy ===== *)
theory Spec2Isabelle
  imports Query_Replace Syntax Sockets Plugins Front_Ends
begin

text \<open>
  \<^bold>\<open>cpymacs, a text editor in C.\<close>

  The program is one executable with two roles. As a \<^emph>\<open>backend\<close> (\<open>src/main.c\<close>) it owns an \<open>Editor\<close> (\<open>include/editor.h\<close>)
  and answers requests, one JSON text per line, on standard input or on a socket. As a \<^emph>\<open>front end\<close> it starts a
  backend or connects to one, sends it keys, and draws the snapshots it gets back: in a terminal (\<open>src/tui.c\<close>) or,
  as an executable of its own, in an X11 window (\<open>src/gui_x11.c\<close>). A request reaches \<open>editor_request\<close>
  (\<open>src/protocol.c\<close>); keys go to \<open>editor_key\<close> and \<open>editor_command\<close> (\<open>src/commands.c\<close>), which edit buffers
  (\<open>src/buffer.c\<close>) whose text is a piece table kept in a treap (\<open>src/text.c\<close>). \<open>src/view.c\<close> lays the windows out for the
  snapshot, \<open>src/syntax.c\<close> colours lines, \<open>src/term_style.c\<close> derives terminal colours from a theme. Python plugins
  (\<open>src/python.c\<close>) are called at fixed points: when text changes, around opening and saving, and for unknown commands.

  \<^bold>\<open>Theories, from the bottom up.\<close>

  \<^item> \<open>Prelude\<close>, \<open>Interfaces\<close>: shared types, rule collections (\<open>content_simps\<close> and others) and lemmas; the locales
    \<open>text_writer\<close>, \<open>text_editor\<close> (what the text store promises the buffer code), \<open>reversible\<close> (what the entries of an edit
    history promise undo) and \<open>step_system\<close> (invariants of reachable states).
  \<^item> \<open>Utf8\<close> (\<open>text.c\<close>): the decoder and validator, against an encoder of scalar values.
  \<^item> \<open>Text_Store\<close>, \<open>Text_Correct\<close> (\<open>text.c\<close>): the treap. \<open>text_inv\<close> is its invariant, \<open>text_content\<close> the bytes it stands for;
    every operation refines the operation on bytes, and the locales are interpreted on it.
  \<^item> \<open>Editor_State\<close> (\<open>editor.h\<close>): the structs as records, a C array with its count as a list, a pointer to a buffer as
    its index; \<open>World\<close> holds what plugins and the locale do, \<open>Os\<close> (in \<open>Files\<close>) what the system answers.
  \<^item> \<open>Search\<close>, \<open>Buffer_Edits\<close>, \<open>Files\<close>, \<open>Columns\<close> (\<open>buffer.c\<close>): Knuth-Morris-Pratt over chunks; edits, undo and the saved state;
    reading and writing files through a temporary file; display columns with their two caches.
  \<^item> \<open>Motion\<close>, \<open>Edit_Commands\<close>, \<open>Prompts\<close>, \<open>Commands\<close>, \<open>Keys\<close> (\<open>commands.c\<close>): the commands, the minibuffer, dispatch by name, key
    sequences, macros and numeric arguments. \<open>Bounds\<close> shows that all of them keep the fixed arrays in bounds;
    \<open>Query_Replace\<close> compares \<open>replace-string\<close> with a reference on bytes.
  \<^item> \<open>Syntax\<close> (\<open>syntax.c\<close>): the line lexer and its cache of line states. \<open>View\<close> (\<open>view.c\<close>): window layout, scrolling, visible lines,
    the snapshot. \<open>Term_Style\<close> (\<open>term_style.c\<close>): contrast, the 256-colour approximation, the sequences for a face.
  \<^item> \<open>Transport\<close> (\<open>transport.c\<close>): JSON helpers, framing, one request and its reply. \<open>Protocol\<close> (\<open>protocol.c\<close>): the checks and the
    operations of a request. \<open>Escapes\<close>, \<open>Server\<close>, \<open>Program\<close> (\<open>main.c\<close>): normalising a request line, the two backends with
    up to 32 connections, the command line. \<open>Tui\<close> (\<open>tui.c\<close>): painting a snapshot, reading keys, the loop.
    \<open>Sockets\<close> (\<open>main.c\<close>, \<open>transport.c\<close>): opening and closing connections as lists of system calls, from the server's socket and
    a front end's child process to the exit status.
  \<^item> \<open>Plugins\<close> (\<open>python.c\<close>): the functions of the extension module, hooks, commands and start-up scripts; a Python callable is a
    function on the interpreter's tables, the disk and the editor, and \<open>script\<close> gives such functions as trees of calls. The locale
    \<open>python_runtime\<close> holds what is shown for any callables that keep an invariant; it is interpreted for scripts. \<open>plugin_world\<close>
    ties the knot: a \<open>World\<close> whose plugins are these.
  \<^item> \<open>Gui\<close> (\<open>gui_x11.c\<close>): the X11 front end. What it asks of the X server is a list of calls, what the server answers comes with
    the events. \<open>Front_Ends\<close>: both front ends on the snapshots of \<open>View\<close>, and clicks on what they show.

  \<^bold>\<open>What the groups of lemmas show.\<close>

  \<^item> \<^emph>\<open>Text.\<close> Valid UTF-8 is exactly the encodings of non-zero scalar values. Insertion and deletion of the piece table are
    splicing of byte strings, refused at offsets inside a character; sizes, lines, characters and slices read from the tree
    are those of the bytes, for every text reachable by edits.
  \<^item> \<^emph>\<open>Buffers.\<close> \<open>editor_replace\<close> succeeds exactly for writable buffers, boundary offsets and valid text, and keeps every
    invariant of the buffers; undo restores contents and point; a buffer shown as unmodified holds what was last saved;
    undo, redo and \<open>editor_set_text\<close> terminate and leave what they should.
  \<^item> \<^emph>\<open>Files.\<close> A save that reports success has written the encoded contents, one that fails changes nothing, an unforced save
    never replaces a version it does not know, and opening and saving a file reproduces it.
  \<^item> \<^emph>\<open>Display.\<close> Cached columns and cached line states equal the plain references after any edit; the snapshot is
    produced for every screen size, its windows tile the screen and the cursor is in view; every face of a terminal
    palette is readable; the rows the terminal front end writes fill their windows, and redrawing a snapshot writes no row.
  \<^item> \<^emph>\<open>Protocol.\<close> Lines are framed whole however the kernel splits them; every connection gets the replies to its lines in
    order; a refused request changes nothing; a client reads back what it wrote; a typed character and a paste reach the
    backend as they are; the backend reads the configuration its front end was given; the server removes no path but its own
    socket, and every descriptor is closed however a run ends (\<open>server_cleans_up\<close>, \<open>client_closes_all\<close>).
  \<^item> \<^emph>\<open>Bounds.\<close> Every key, every request and every Python script keeps all counts, indices and string fields of the editor
    within their arrays.
  \<^item> \<^emph>\<open>Plugins.\<close> Every call of the extension module keeps the invariants of the buffers and the ranges of the settings; hooks do not
    nest; a \<open>before_save\<close> hook that raises leaves the disk alone.
  \<^item> \<^emph>\<open>Windows.\<close> Both front ends can draw every snapshot; a selection of any size up to 8 MiB passes between two windows
    unchanged, and a transfer ends once its pieces are taken.

  \<^bold>\<open>Conventions.\<close> A byte string is a list of 8-bit words and a C string the list before its NUL. Sizes and offsets are natural
  numbers, with \<open>size_max\<close> where the code guards against wrap-around; 32-bit and 64-bit conversions that can change a
  value (decoding, colours, numbers taken from JSON) are written out. \<open>None\<close> is always the same outcome: a loop or
  call that does not return, or an access outside an array. That a function returns is proved as such (\<open>snapshot_returns\<close>,
  \<open>undo_total\<close>, \<open>editor_replace_correct\<close>). Three bounds are fuel. Commands call keys (macros) and keys call commands: \<open>run\<close> in
  \<open>Keys\<close> counts the depth of these calls, and theorems that mention it hold for every depth. Loops over the buffers count down
  from the number of buffers. A backend's loop takes one element of a list per turn, so a list that ends before it
  does yields \<open>None\<close>; the statements quantify over all lists.

  Parameters stand for what is not in the sources: the C library's locale (\<open>wcwidth\<close>, \<open>iswalnum\<close>, \<open>mbrtowc\<close>), the rounding of
  \<open>double\<close> arithmetic and \<open>pow\<close>, json-c's parser and printer (its values are the datatype \<open>json\<close>), the file system's answers,
  what other processes do to the disk during a save, the X server and its fonts, and the bodies of Python callables. Hypotheses on
  them are named: \<open>plugins_keep\<close>, \<open>fp_ok\<close>, \<open>tty_ok\<close>, \<open>hooks_keep_buffers\<close>; each has a witness on a concrete instance. Allocation is assumed
  to succeed, as \<open>xmalloc\<close> ends the process otherwise.

  \<^bold>\<open>Not modelled.\<close> Signal handlers (the loops find their flags set), terminal modes, file permissions and the \<open>fsync\<close> calls of a
  save; of these only the results the code tests are in the model. Building the Python interpreter, reference counts, creating the
  window and its input method, and releasing memory at the end are calls of CPython, Xlib and \<open>free\<close> alone.

  \<^bold>\<open>What modelling showed.\<close> Statements of defects are theorems beside the ones they limit: \<open>column_inside_character_hangs\<close>,
  \<open>zero_width_overflow\<close>, \<open>file_controls_terminal\<close>, \<open>quit_keeps_negative\<close>, \<open>keys_refused_late\<close>, \<open>invalid_escape_hidden\<close>,
  \<open>quit_waits_for_clients\<close>, \<open>long_request_lost\<close>, \<open>stdio_cuts_at_nul\<close>, \<open>unprintable_width_differs\<close>, \<open>nul_hides_changes\<close>,
  \<open>meta_splits_character\<close>, \<open>own_selection_deafens\<close>, \<open>abandoned_transfer_stays\<close>, \<open>no_font_divides_by_zero\<close>.
\<close>

end
